(* ===== verification/TeamChat_Prelude.thy ===== *)
theory TeamChat_Prelude
  imports Main "HOL-Library.Word" "HOL-Library.Monad_Syntax"
begin

text \<open>
  Shared vocabulary of the development: the machine integers of the Go code, its error values,
  decimal printing (\<^verbatim>\<open>fmt.Sprintf("%d", n)\<close>), the collections of simplification facts, and
  the generic lemmas on words, options and lists that several components use.
\<close>

named_theorems go_defs \<open>definitions of the modelled Go functions\<close>
named_theorems tab_simps \<open>how the statements act on the tables\<close>

section \<open>Machine integers and time\<close>

text \<open>
  Go's \<^verbatim>\<open>int64\<close> and \<^verbatim>\<open>uint64\<close> are both 64-bit words: arithmetic wraps, and the signed
  reading of an \<^verbatim>\<open>int64\<close> is \<open>sint\<close>, its comparisons \<open><s\<close> and \<open><=s\<close>. A
  \<^verbatim>\<open>time.Time\<close> is its instant, in nanoseconds since the Unix epoch. A clock gives the
  successive results of \<^verbatim>\<open>time.Now()\<close>; a position in it counts the calls made so far.
\<close>

type_synonym int64 = "64 word"
type_synonym uint64 = "64 word"
type_synonym gotime = int
type_synonym clock = "nat \<Rightarrow> gotime"

text \<open>\<^verbatim>\<open>time.Second\<close>\<close>

definition second :: int where
  "second = 1000000000"

section \<open>Decimal printing\<close>

text \<open>\<^verbatim>\<open>fmt.Sprintf("%d", n)\<close> of an unsigned number: its decimal digits, no leading zero.\<close>

definition digit_char :: "nat \<Rightarrow> char" where
  "digit_char d = char_of (48 + d)"

fun dec :: "nat \<Rightarrow> string" where
  "dec n = (if n < 10 then [digit_char n] else dec (n div 10) @ [digit_char (n mod 10)])"

declare dec.simps [simp del]

definition is_digit :: "char \<Rightarrow> bool" where
  "is_digit c \<longleftrightarrow> 48 \<le> (of_char c :: nat) \<and> (of_char c :: nat) \<le> 57"

definition digit_val :: "char \<Rightarrow> nat" where
  "digit_val c = of_char c - 48"

text \<open>The value of a digit string, most significant digit first.\<close>

definition dec_val :: "string \<Rightarrow> nat" where
  "dec_val s = foldl (\<lambda>n c. n * 10 + digit_val c) 0 s"

lemma of_char_digit [simp]: "d < 10 \<Longrightarrow> (of_char (digit_char d) :: nat) = 48 + d"
  by (simp add: digit_char_def)

lemma is_digit_digit_char [simp]: "d < 10 \<Longrightarrow> is_digit (digit_char d)"
  by (simp add: is_digit_def)

lemma digit_val_digit_char [simp]: "d < 10 \<Longrightarrow> digit_val (digit_char d) = d"
  by (simp add: digit_val_def)

lemma dec_ne_Nil [simp]: "dec n \<noteq> []"
  by (subst dec.simps) simp

lemma dec_digits: "list_all is_digit (dec n)"
proof (induction n rule: dec.induct)
  case (1 n)
  show ?case
    by (cases "n < 10") (simp_all add: dec.simps [of n] "1.IH")
qed

lemma dec_val_dec [simp]: "dec_val (dec n) = n"
proof (induction n rule: dec.induct)
  case (1 n)
  show ?case
  proof (cases "n < 10")
    case True
    then show ?thesis by (simp add: dec.simps [of n] dec_val_def)
  next
    case False
    with "1.IH" have "foldl (\<lambda>m c. m * 10 + digit_val c) 0 (dec (n div 10)) = n div 10"
      by (simp add: dec_val_def)
    with False show ?thesis by (simp add: dec.simps [of n] dec_val_def)
  qed
qed

lemma dec_inject [simp]: "dec m = dec n \<longleftrightarrow> m = n"
  by (metis dec_val_dec)

definition sprintf_d :: "uint64 \<Rightarrow> string" where
  "sprintf_d w = dec (unat w)"

lemma sprintf_d_inject [simp]: "sprintf_d v = sprintf_d w \<longleftrightarrow> v = w"
  by (simp add: sprintf_d_def word_unat_eq_iff)

lemma sprintf_d_ne_Nil [simp]: "sprintf_d v \<noteq> []"
  by (simp add: sprintf_d_def)

text \<open>A decimal rendering of a 64-bit number has at most 20 characters.\<close>

lemma length_dec_le: "n < 10 ^ Suc k \<Longrightarrow> length (dec n) \<le> Suc k"
proof (induction k arbitrary: n)
  case 0
  then show ?case by (simp add: dec.simps [of n])
next
  case (Suc k)
  show ?case
  proof (cases "n < 10")
    case True
    then show ?thesis by (simp add: dec.simps [of n])
  next
    case False
    from Suc.prems have "n div 10 < 10 ^ Suc k"
      by (simp add: div_less_iff_less_mult)
    then have "length (dec (n div 10)) \<le> Suc k" by (rule Suc.IH)
    with False show ?thesis by (simp add: dec.simps [of n])
  qed
qed

lemma length_sprintf_d: "length (sprintf_d w) \<le> 20"
proof -
  have "unat w < 2 ^ 64" using unsigned_less [of w] by simp
  then have "unat w < 10 ^ Suc 19" by simp
  then have "length (dec (unat w)) \<le> Suc 19" by (rule length_dec_le)
  then show ?thesis by (simp add: sprintf_d_def)
qed

end
