(* ===== verification/Transition_Systems.thy ===== *)
theory Transition_Systems
  imports Main
begin

text \<open>
  The interface of the step relations of the development: a set of initial states, a step relation and the reachable states, and
  between two of them a refinement mapping under which every step of the first is none, one or several steps of the second. The
  processes and the systems composed of them are related to each other in this way.
\<close>

locale transition_system =
  fixes init :: "'s \<Rightarrow> bool" and step :: "'s \<Rightarrow> 's \<Rightarrow> bool" and reach :: "'s \<Rightarrow> bool"
  assumes reach_init: "init s \<Longrightarrow> reach s"
    and reach_step: "reach s \<Longrightarrow> step s t \<Longrightarrow> reach t"
    and reach_ind: "reach s \<Longrightarrow> (\<And>s. init s \<Longrightarrow> P s) \<Longrightarrow> (\<And>s t. reach s \<Longrightarrow> P s \<Longrightarrow> step s t \<Longrightarrow> P t) \<Longrightarrow> P s"
begin

lemma reach_steps: "reach s \<Longrightarrow> step\<^sup>*\<^sup>* s t \<Longrightarrow> reach t"
  by (rotate_tac, induction rule: rtranclp_induct) (auto intro: reach_step)

text \<open>An invariant that steps keep from a given reachable state on.\<close>

lemma steps_keep:
  assumes "step\<^sup>*\<^sup>* s t" and "reach s" and "P s" and "\<And>s t. reach s \<Longrightarrow> P s \<Longrightarrow> step s t \<Longrightarrow> P t"
  shows "P t"
  using assms(1)
proof (induction rule: rtranclp_induct)
  case (step u v)
  with assms(2,4) reach_steps show ?case by blast
qed (rule assms(3))

end

locale refinement = conc: transition_system init step reach + abst: transition_system init' step' reach'
  for init :: "'s \<Rightarrow> bool" and step reach and init' :: "'t \<Rightarrow> bool" and step' reach' +
  fixes abs :: "'s \<Rightarrow> 't"
  assumes init_sim: "init s \<Longrightarrow> init' (abs s)"
    and step_sim: "reach s \<Longrightarrow> reach' (abs s) \<Longrightarrow> step s t \<Longrightarrow> step'\<^sup>*\<^sup>* (abs s) (abs t)"
begin

lemma reach_sim: "reach s \<Longrightarrow> reach' (abs s)"
proof (erule conc.reach_ind)
  show "reach' (abs t)" if "reach s" "reach' (abs s)" "step s t" for s t
    using abst.reach_steps [OF that(2) step_sim [OF that]] .
qed (simp add: abst.reach_init init_sim)

lemma steps_sim: "reach s \<Longrightarrow> step\<^sup>*\<^sup>* s t \<Longrightarrow> step'\<^sup>*\<^sup>* (abs s) (abs t)"
proof (rotate_tac, induction rule: rtranclp_induct)
  case (step u v)
  then have "reach u" by (blast intro: conc.reach_steps)
  with step step_sim [OF _ reach_sim] show ?case by (meson rtranclp_trans)
qed simp

end

text \<open>Refinements compose.\<close>

lemma refinement_trans:
  assumes "refinement i1 s1 r1 i2 s2 r2 f" and "refinement i2 s2 r2 i3 s3 r3 g"
  shows "refinement i1 s1 r1 i3 s3 r3 (g \<circ> f)"
proof (intro refinement.intro refinement_axioms.intro)
  show "transition_system i1 s1 r1" "transition_system i3 s3 r3" using assms by (simp_all add: refinement_def)
  show "i3 ((g \<circ> f) s)" if "i1 s" for s
    using that refinement.init_sim [OF assms(1)] refinement.init_sim [OF assms(2)] by simp
  show "s3\<^sup>*\<^sup>* ((g \<circ> f) s) ((g \<circ> f) t)" if "r1 s" "s1 s t" for s t
    using refinement.steps_sim [OF assms(2) refinement.reach_sim [OF assms(1) that(1)] refinement.steps_sim [OF assms(1) that(1)]] that(2)
    by auto
qed

text \<open>A quantity that never grows along a run, and shrinks again and again as long as it is not zero, is zero from some moment on.\<close>

lemma eventually_zero:
  fixes f :: "nat \<Rightarrow> nat"
  assumes "\<And>k. f (Suc k) \<le> f k" and "\<And>k. f k \<noteq> 0 \<Longrightarrow> \<exists>k'\<ge>k. f k' < f k \<or> f (Suc k') < f k'"
  shows "\<exists>k\<ge>k0. \<forall>k'\<ge>k. f k' = 0"
proof (induction "f k0" arbitrary: k0 rule: less_induct)
  case less
  have mono: "f k' \<le> f k" if "k \<le> k'" for k k' using lift_Suc_antimono_le [of f, OF assms(1) that] .
  show ?case
  proof (cases "f k0 = 0")
    case True
    then have "f k' = 0" if "k0 \<le> k'" for k' using mono [OF that] by simp
    then show ?thesis by blast
  next
    case False
    then obtain k where "k0 \<le> k" "f k < f k0 \<or> f (Suc k) < f k" using assms(2) by blast
    then obtain k' where k': "k0 \<le> k'" "f k' < f k0" using mono by (meson le_SucI less_le_trans)
    from less.hyps [OF k'(2)] k'(1) show ?thesis by (meson le_trans)
  qed
qed

end
