(* ===== verification/Snowflake.thy ===== *)
theory Snowflake
  imports TeamChat_Prelude
begin

unbundle bit_operations_syntax

text \<open>
  The Snowflake identifier generator of \<^verbatim>\<open>src/shared/snowflake/snowflake.go\<close>: the bit layout, the
  generator state, the constructor and \<^verbatim>\<open>Next\<close>, at the 64-bit width of the code. The mutex
  makes calls of \<^verbatim>\<open>Next\<close> atomic, so a history of a generator is a sequence of calls. The
  busy-wait loop reads the clock until it passes the last stamp; it is a partial function, with
  \<open>None\<close> for a loop that never ends.
\<close>

section \<open>Layout and state\<close>

definition customEpoch :: int64 where
  "customEpoch = 1704067200000"

definition workerIDBits :: nat where
  "workerIDBits = 10"

definition sequenceBits :: nat where
  "sequenceBits = 12"

definition maxWorkerID :: int64 where
  "maxWorkerID = push_bit workerIDBits 1 - 1"

definition maxSequence :: int64 where
  "maxSequence = push_bit sequenceBits 1 - 1"

definition workerIDShift :: nat where
  "workerIDShift = sequenceBits"

definition timestampShift :: nat where
  "timestampShift = workerIDBits + sequenceBits"

lemmas layout_defs = workerIDBits_def sequenceBits_def maxWorkerID_def maxSequence_def
  workerIDShift_def timestampShift_def

record generator =
  workerID :: int64
  sequence :: int64
  lastStamp :: int64

definition NewGenerator :: "int64 \<Rightarrow> generator" where
  "NewGenerator wid =
     (let wid = (if wid <s 0 \<or> maxWorkerID <s wid then 0 else wid)
      in \<lparr>workerID = wid, sequence = 0, lastStamp = 0\<rparr>)"

section \<open>Next\<close>

text \<open>\<^verbatim>\<open>time.Now().UnixMilli()\<close> of the clock's reading at position \<open>k\<close>, less the epoch.\<close>

definition currentMillis :: "clock \<Rightarrow> nat \<Rightarrow> int64" where
  "currentMillis clk k = word_of_int (clk k div 1000000) - customEpoch"

text \<open>\<^verbatim>\<open>for now <= g.lastStamp { now = currentMillis() }\<close>\<close>

partial_function (option) busy_wait :: "clock \<Rightarrow> int64 \<Rightarrow> int64 \<Rightarrow> nat \<Rightarrow> (int64 \<times> nat) option" where
  "busy_wait clk stamp now k =
     (if now <=s stamp then busy_wait clk stamp (currentMillis clk k) (Suc k) else Some (now, k))"

definition pack :: "int64 \<Rightarrow> int64 \<Rightarrow> int64 \<Rightarrow> uint64" where
  "pack now wid sq = push_bit timestampShift now OR push_bit workerIDShift wid OR sq"

definition Next :: "clock \<Rightarrow> generator \<Rightarrow> nat \<Rightarrow> (uint64 \<times> generator \<times> nat) option" where
  "Next clk g k =
     (let now = currentMillis clk k; k = Suc k in do {
        (now, sq, k) \<leftarrow>
          (if now = lastStamp g
           then let sq = (sequence g + 1) AND maxSequence
                in if sq = 0
                   then map_option (\<lambda>(now, k). (now, sq, k)) (busy_wait clk (lastStamp g) now k)
                   else Some (now, sq, k)
           else Some (now, 0, k));
        Some (pack now (workerID g) sq, g\<lparr>sequence := sq, lastStamp := now\<rparr>, k)
      })"

text \<open>A run of \<open>n\<close> consecutive calls of \<^verbatim>\<open>Next\<close> and the identifiers they return.\<close>

fun run_Next :: "clock \<Rightarrow> nat \<Rightarrow> generator \<Rightarrow> nat \<Rightarrow> (uint64 list \<times> generator \<times> nat) option" where
  "run_Next clk 0 g k = Some ([], g, k)"
| "run_Next clk (Suc n) g k = do {
     (i, g, k) \<leftarrow> Next clk g k;
     (is, g, k) \<leftarrow> run_Next clk n g k;
     Some (i # is, g, k)
   }"

section \<open>The packed identifier\<close>

lemma bit_bound:
  fixes w :: "64 word"
  assumes "unat w < 2 ^ b" and "bit w n"
  shows "n < b"
proof -
  from assms(1) have "take_bit b (unat w) = unat w"
    by (simp add: take_bit_nat_eq_self)
  moreover from assms(2) have "bit (unat w) n"
    by (simp add: bit_unsigned_iff bit_imp_le_length)
  ultimately show ?thesis by (metis bit_take_bit_iff)
qed

lemma unat_push_bit:
  fixes w :: "64 word"
  assumes "unat w < 2 ^ b" and "b + s \<le> 64"
  shows "unat (push_bit s w) = unat w * 2 ^ s"
proof -
  have "unat w * 2 ^ s < 2 ^ b * 2 ^ s" using assms(1) by simp
  also have "\<dots> = (2::nat) ^ (b + s)" by (simp add: power_add)
  also have "\<dots> \<le> 2 ^ 64" using assms(2) by (intro power_increasing) simp_all
  finally have "unat w * 2 ^ s < 2 ^ 64" .
  moreover have "unat (push_bit s w) = take_bit 64 (push_bit s (unat w))"
    by (simp add: unsigned_push_bit_eq del: push_bit_of_1)
  ultimately show ?thesis
    by (simp add: push_bit_eq_mult take_bit_nat_eq_self)
qed

text \<open>Inside its ranges the packed word is the sum of its three fields.\<close>

lemma unat_pack:
  assumes t: "unat t < 2 ^ 42" and w: "unat w < 2 ^ 10" and s: "unat s < 2 ^ 12"
  shows "unat (pack t w s) = unat t * 2 ^ 22 + unat w * 2 ^ 12 + unat s"
proof -
  let ?t = "push_bit 22 t" and ?w = "push_bit 12 w"
  have uw: "unat ?w = unat w * 2 ^ 12" and ut: "unat ?t = unat t * 2 ^ 22"
    using unat_push_bit [OF w, of 12] unat_push_bit [OF t, of 22] by simp_all
  have d1: "?w AND s = 0"
    by (rule bit_word_eqI) (auto simp: bit_simps dest: bit_bound [OF s])
  have d2: "?t AND (?w OR s) = 0"
    by (rule bit_word_eqI) (auto simp: bit_simps dest: bit_bound [OF s] bit_bound [OF w])
  have 1: "unat (?w OR s) = unat w * 2 ^ 12 + unat s"
    using uw w s by (simp add: disjunctive_add_eq_or [OF d1, symmetric] unat_word_ariths)
  have 2: "unat (?t OR (?w OR s)) = unat ?t + unat (?w OR s)"
    using 1 ut t w s by (simp add: disjunctive_add_eq_or [OF d2, symmetric] unat_word_ariths)
  show ?thesis using 1 2 ut by (simp add: pack_def layout_defs or.assoc)
qed


text \<open>The reading order of packed identifiers is lexicographic in stamp and sequence.\<close>

lemma pack_less:
  assumes "unat t < 2 ^ 42" "unat t' < 2 ^ 42" "unat w < 2 ^ 10" "unat s < 2 ^ 12" "unat s' < 2 ^ 12"
    and "t < t' \<or> t = t' \<and> s < s'"
  shows "pack t w s < pack t' w s'"
proof -
  have "unat t < unat t' \<or> unat t = unat t' \<and> unat s < unat s'"
    using assms(6) by (auto simp: word_less_nat_alt)
  then have "unat t * 2 ^ 22 + unat w * 2 ^ 12 + unat s < unat t' * 2 ^ 22 + unat w * 2 ^ 12 + unat s'"
    using assms(4) by auto
  then show ?thesis using assms(1-5) by (simp add: word_less_nat_alt unat_pack)
qed

lemma pack_fields:
  assumes "unat t < 2 ^ 42" "unat w < 2 ^ 10" "unat s < 2 ^ 12"
  shows "unat (pack t w s) div 2 ^ 22 = unat t"
    and "unat (pack t w s) div 2 ^ 12 mod 2 ^ 10 = unat w"
    and "unat (pack t w s) mod 2 ^ 12 = unat s"
proof -
  have split: "(a * b + r) div b = a" "(a * b + r) mod b = r" if "r < b" for a b r :: nat
    using that by simp_all
  have eq: "unat (pack t w s) = (unat t * 2 ^ 10 + unat w) * 2 ^ 12 + unat s"
    using assms by (simp add: unat_pack)
  have hi: "unat (pack t w s) div 2 ^ 12 = unat t * 2 ^ 10 + unat w"
    unfolding eq by (rule split) (rule assms(3))
  show "unat (pack t w s) mod 2 ^ 12 = unat s"
    unfolding eq by (rule split) (rule assms(3))
  show "unat (pack t w s) div 2 ^ 12 mod 2 ^ 10 = unat w"
    unfolding hi by (rule split) (rule assms(2))
  have "unat (pack t w s) div 2 ^ 22 = unat (pack t w s) div 2 ^ 12 div 2 ^ 10"
    by (simp add: div_mult2_eq [symmetric])
  then show "unat (pack t w s) div 2 ^ 22 = unat t"
    unfolding hi split(1) [OF assms(2)] .
qed

section \<open>The busy-wait loop and one call of Next\<close>

lemma sint_nonneg:
  assumes "0 \<le> sint (w :: int64)"
  shows "sint w = uint w"
proof -
  from assms have b: "\<not> bit (uint w) 63" by (simp add: sint_uint)
  then have "take_bit 63 (uint w) = uint w"
  proof (intro bit_eqI)
    fix n
    show "bit (take_bit 63 (uint w)) n = bit (uint w) n"
      using b by (cases "n < 63"; cases "n = 63") (auto simp: bit_take_bit_iff bit_uint_iff)
  qed
  with b show ?thesis by (simp add: sint_uint signed_take_bit_eq_if_positive)
qed

lemma sle_iff_le:
  fixes a b :: int64
  assumes "unat a < 2 ^ 63" and "unat b < 2 ^ 63"
  shows "a <=s b \<longleftrightarrow> a \<le> b"
proof -
  have "sint x = uint x" if "unat x < 2 ^ 63" for x :: int64
  proof -
    from that have "int (unat x) < 2 ^ 63" by (simp only: of_nat_less_numeral_power_cancel_iff)
    then have "uint x < 2 ^ 63" by (simp only: uint_nat)
    moreover have "- (2 ^ 63) \<le> uint x" by (rule order_trans [of _ 0]) simp_all
    ultimately show ?thesis by (simp add: sint_uint signed_take_bit_int_eq_self)
  qed
  with assms show ?thesis by (simp add: word_sle_eq word_le_def)
qed

lemma busy_wait_result:
  assumes "busy_wait clk stamp now k = Some r"
  shows "\<not> fst r <=s stamp \<and> (r = (now, k) \<or> k < snd r \<and> fst r = currentMillis clk (snd r - 1))"
proof (rule busy_wait.raw_induct [where P = "\<lambda>clk stamp now k r. \<not> fst r <=s stamp \<and>
    (r = (now, k) \<or> k < snd r \<and> fst r = currentMillis clk (snd r - 1))", OF _ assms])
  fix f clk stamp now k and r :: "int64 \<times> nat"
  assume IH: "\<And>clk stamp now k r. f clk stamp now k = Some r \<Longrightarrow> \<not> fst r <=s stamp \<and>
      (r = (now, k) \<or> k < snd r \<and> fst r = currentMillis clk (snd r - 1))"
    and eq: "(if now <=s stamp then f clk stamp (currentMillis clk k) (Suc k) else Some (now, k)) = Some r"
  show "\<not> fst r <=s stamp \<and> (r = (now, k) \<or> k < snd r \<and> fst r = currentMillis clk (snd r - 1))"
    using IH [of clk stamp "currentMillis clk k" "Suc k" r] eq by (auto split: if_splits)
qed

text \<open>The loop ends as soon as some later reading of the clock passes the stamp.\<close>

lemma busy_wait_ends:
  assumes "stamp <s currentMillis clk j" and "k \<le> j"
  shows "\<exists>r. busy_wait clk stamp now k = Some r"
  using assms(2)
proof (induction "j - k" arbitrary: k now)
  case 0
  with assms(1) have "\<not> currentMillis clk k <=s stamp"
    by (auto simp: word_sle_eq word_sless_alt)
  then show ?case by (simp add: busy_wait.simps)
next
  case (Suc n)
  then have "n = j - Suc k" and "Suc k \<le> j" by simp_all
  then have "\<exists>r. busy_wait clk stamp (currentMillis clk k) (Suc k) = Some r" by (rule Suc.hyps)
  then show ?case by (subst busy_wait.simps) simp
qed

text \<open>
  One call of \<open>Next\<close>: either the millisecond is the last one and the sequence number moves on,
  or it is not (or the sequence is exhausted and the loop waited) and the sequence restarts.
\<close>

lemma Next_cases:
  assumes "Next clk g k = Some (i, g', k')"
  obtains
    (same) "currentMillis clk k = lastStamp g" "k' = Suc k" "lastStamp g' = lastStamp g"
      "sequence g' = (sequence g + 1) AND maxSequence" "sequence g' \<noteq> 0"
  | (waited) "Suc k < k'" "lastStamp g' = currentMillis clk (k' - 1)" "\<not> lastStamp g' <=s lastStamp g"
      "sequence g' = 0"
  | (fresh) "currentMillis clk k \<noteq> lastStamp g" "k' = Suc k" "lastStamp g' = currentMillis clk k"
      "sequence g' = 0"
proof (cases "currentMillis clk k = lastStamp g")
  case now: True
  show ?thesis
  proof (cases "(sequence g + 1) AND maxSequence = 0")
    case True
    with assms now obtain n where n: "busy_wait clk (lastStamp g) (lastStamp g) (Suc k) = Some (n, k')"
      and g': "g' = g\<lparr>sequence := 0, lastStamp := n\<rparr>"
      by (auto simp: Next_def Let_def bind_eq_Some_conv)
    from busy_wait_result [OF n] have "\<not> n <=s lastStamp g" "Suc k < k' \<and> n = currentMillis clk (k' - 1)"
      by (auto simp: word_sle_eq)
    with g' show ?thesis by (intro waited) simp_all
  next
    case False
    with assms now show ?thesis by (intro same) (auto simp: Next_def Let_def)
  qed
next
  case False
  with assms show ?thesis by (intro fresh) (auto simp: Next_def Let_def)
qed

lemma Next_id:
  assumes "Next clk g k = Some (i, g', k')"
  shows "i = pack (lastStamp g') (workerID g') (sequence g')" and "workerID g' = workerID g" and "k < k'"
proof -
  from assms show "i = pack (lastStamp g') (workerID g') (sequence g')" and "workerID g' = workerID g"
    by (auto simp: Next_def Let_def bind_eq_Some_conv split: if_splits)
  from assms show "k < k'" by (cases rule: Next_cases) simp_all
qed

section \<open>Invariant and order\<close>

text \<open>
  A clock that, at the readings \<open>lo\<close> to \<open>hi - 1\<close>, does not go backwards and stays in the 41-bit
  range of the layout (the years 2024 to 2093).
\<close>

definition clock_in_range :: "clock \<Rightarrow> nat \<Rightarrow> nat \<Rightarrow> bool" where
  "clock_in_range clk lo hi \<longleftrightarrow>
     (\<forall>j\<in>{lo..<hi}. 1704067200000 \<le> clk j div 1000000 \<and> clk j div 1000000 < 1704067200000 + 2 ^ 41)"

definition clock_monotone :: "clock \<Rightarrow> nat \<Rightarrow> nat \<Rightarrow> bool" where
  "clock_monotone clk lo hi \<longleftrightarrow> (\<forall>j\<in>{lo..<hi}. \<forall>i\<in>{lo..j}. clk i \<le> clk j)"

text \<open>The fields of a generator fit the layout.\<close>

definition generator_ok :: "generator \<Rightarrow> bool" where
  "generator_ok g \<longleftrightarrow> unat (workerID g) < 2 ^ 10 \<and> unat (sequence g) < 2 ^ 12 \<and> unat (lastStamp g) < 2 ^ 41"

definition last_id :: "generator \<Rightarrow> uint64" where
  "last_id g = pack (lastStamp g) (workerID g) (sequence g)"

lemma unat_currentMillis:
  assumes "clock_in_range clk lo hi" and "lo \<le> k" and "k < hi"
  shows "unat (currentMillis clk k) = nat (clk k div 1000000 - 1704067200000)"
    and "unat (currentMillis clk k) < 2 ^ 41"
proof -
  define m where "m = clk k div 1000000 - 1704067200000"
  have m: "0 \<le> m" "m < 2 ^ 41" using assms by (auto simp: clock_in_range_def m_def)
  have "currentMillis clk k = word_of_int m"
    by (simp add: currentMillis_def customEpoch_def m_def)
  moreover have "take_bit 64 m = m" using m by (intro take_bit_int_eq_self) simp_all
  ultimately have u: "unat (currentMillis clk k) = nat m" by (simp add: unsigned_of_int)
  then show "unat (currentMillis clk k) = nat (clk k div 1000000 - 1704067200000)"
    by (simp only: m_def)
  from m show "unat (currentMillis clk k) < 2 ^ 41" unfolding u by simp
qed

lemma currentMillis_mono:
  assumes "clock_in_range clk lo hi" "clock_monotone clk lo hi" "lo \<le> i" "i \<le> j" "j < hi"
  shows "currentMillis clk i \<le> currentMillis clk j"
proof -
  have "clk i \<le> clk j" using assms(2-5) by (auto simp: clock_monotone_def)
  then have "clk i div 1000000 \<le> clk j div 1000000" by (rule zdiv_mono1) simp
  then show ?thesis
    using assms by (simp add: word_le_nat_alt unat_currentMillis(1) [OF assms(1)] nat_mono)
qed

lemma maxSequence_bound: "unat (w AND maxSequence) < 2 ^ 12"
proof -
  have "w AND maxSequence \<le> maxSequence" by (rule word_and_le1)
  then show ?thesis by (simp add: word_le_nat_alt layout_defs)
qed

lemma sequence_step:
  assumes "unat s < 2 ^ 12" and "(s + 1) AND maxSequence \<noteq> (0 :: int64)"
  shows "(s + 1) AND maxSequence = s + 1" and "s < s + 1"
proof -
  have m: "maxSequence = mask 12" by (simp add: layout_defs mask_eq_exp_minus_1)
  have u: "unat (s + 1) = unat s + 1" using assms(1) by (simp add: unat_word_ariths)
  show "(s + 1) AND maxSequence = s + 1"
  proof (cases "unat s + 1 < 2 ^ 12")
    case True
    then have "s + 1 < 2 ^ 12" by (simp add: word_less_nat_alt u)
    then show ?thesis unfolding m by (simp add: less_mask_eq)
  next
    case False
    with assms(1) u have "unat (s + 1) = unat (4096 :: int64)" by simp
    then have "s + 1 = 4096" by (simp only: word_unat_eq_iff)
    then have "(s + 1) AND maxSequence = 0" by (simp add: layout_defs)
    with assms(2) show ?thesis by simp
  qed
  show "s < s + 1" by (simp add: word_less_nat_alt u)
qed

lemma Next_generator_ok:
  assumes nxt: "Next clk g k = Some (i, g', k')" and ok: "generator_ok g"
    and range: "clock_in_range clk k hi" and hi: "k' \<le> hi"
  shows "generator_ok g'"
proof -
  note id = Next_id [OF nxt]
  have "unat (lastStamp g') < 2 ^ 41 \<and> unat (sequence g') < 2 ^ 12"
    using nxt
  proof (cases rule: Next_cases)
    case same
    then show ?thesis using ok maxSequence_bound [of "sequence g + 1"] by (simp add: generator_ok_def)
  next
    case waited
    then show ?thesis using unat_currentMillis(2) [OF range, of "k' - 1"] hi by simp
  next
    case fresh
    then show ?thesis using unat_currentMillis(2) [OF range, of k] hi by simp
  qed
  then show ?thesis using ok by (simp add: generator_ok_def id(2))
qed

text \<open>
  One step: under a monotone clock that has not been overtaken by the last stamp, the returned
  identifier is greater than the last one and the invariant is kept.
\<close>

lemma Next_step:
  assumes nxt: "Next clk g k = Some (i, g', k')" and ok: "generator_ok g"
    and range: "clock_in_range clk k hi" and mono: "clock_monotone clk k hi" and hi: "k' \<le> hi"
    and past: "lastStamp g \<le> currentMillis clk k"
  shows "generator_ok g'" and "last_id g < i" and "i = last_id g'"
    and "\<forall>j\<in>{k'..<hi}. lastStamp g' \<le> currentMillis clk j"
proof -
  note id = Next_id [OF nxt]
  show i: "i = last_id g'" by (simp add: last_id_def id)
  have k: "k < hi" using id(3) hi by simp
  note cm = currentMillis_mono [OF range mono]
  have b: "unat (lastStamp g) < 2 ^ 41" "unat (sequence g) < 2 ^ 12" "unat (workerID g) < 2 ^ 10"
    using ok by (simp_all add: generator_ok_def)
  show ok': "generator_ok g'" by (rule Next_generator_ok [OF nxt ok range hi])
  then have b': "unat (lastStamp g') < 2 ^ 41" "unat (sequence g') < 2 ^ 12"
    by (simp_all add: generator_ok_def)
  have "(lastStamp g < lastStamp g' \<or> lastStamp g = lastStamp g' \<and> sequence g < sequence g') \<and>
      lastStamp g' = currentMillis clk (k' - 1)"
    using nxt
  proof (cases rule: Next_cases)
    case same
    then show ?thesis using sequence_step [OF b(2)] by simp
  next
    case waited
    then show ?thesis using b(1) b'(1) sle_iff_le [of "lastStamp g'" "lastStamp g"] by simp
  next
    case fresh
    then show ?thesis using past by auto
  qed
  then have gt: "lastStamp g < lastStamp g' \<or> lastStamp g = lastStamp g' \<and> sequence g < sequence g'"
    and at: "lastStamp g' = currentMillis clk (k' - 1)"
    by blast+
  show "last_id g < i" unfolding i last_id_def id(2)
    by (rule pack_less) (use gt b b' in auto)
  show "\<forall>j\<in>{k'..<hi}. lastStamp g' \<le> currentMillis clk j"
    unfolding at using id(3) cm [of "k' - 1"] by auto
qed

lemma clock_range_subset:
  "clock_in_range clk lo hi \<Longrightarrow> lo \<le> lo' \<Longrightarrow> hi' \<le> hi \<Longrightarrow> clock_in_range clk lo' hi'"
  by (auto simp: clock_in_range_def)

lemma clock_monotone_subset:
  "clock_monotone clk lo hi \<Longrightarrow> lo \<le> lo' \<Longrightarrow> hi' \<le> hi \<Longrightarrow> clock_monotone clk lo' hi'"
  by (auto simp: clock_monotone_def)

lemma run_Next_pos: "run_Next clk n g k = Some (ids, g', k') \<Longrightarrow> k \<le> k'"
proof (induction n arbitrary: g k ids)
  case (Suc n)
  then obtain i g1 k1 ids1 where 1: "Next clk g k = Some (i, g1, k1)"
    and 2: "run_Next clk n g1 k1 = Some (ids1, g', k')"
    by (auto simp: bind_eq_Some_conv)
  from Next_id(3) [OF 1] Suc.IH [OF 2] show ?case by simp
qed simp

lemma run_Next_sorted:
  assumes "run_Next clk n g k = Some (ids, g', k')" and "generator_ok g"
    and "clock_in_range clk k k'" and "clock_monotone clk k k'"
    and "\<forall>j\<in>{k..<k'}. lastStamp g \<le> currentMillis clk j"
  shows "sorted_wrt (<) (last_id g # ids) \<and> generator_ok g'"
  using assms
proof (induction n arbitrary: g k ids)
  case (Suc n)
  from Suc.prems(1) obtain i g1 k1 ids1 where 1: "Next clk g k = Some (i, g1, k1)"
    and 2: "run_Next clk n g1 k1 = Some (ids1, g', k')" and ids: "ids = i # ids1"
    by (auto simp: bind_eq_Some_conv)
  note k = Next_id(3) [OF 1] run_Next_pos [OF 2]
  then have past: "lastStamp g \<le> currentMillis clk k" using Suc.prems(5) by simp
  note step = Next_step [OF 1 Suc.prems(2-4) k(2) past]
  have "sorted_wrt (<) (last_id g1 # ids1) \<and> generator_ok g'"
    by (rule Suc.IH [OF 2 step(1) _ _ step(4)])
      (use k Suc.prems(3,4) in \<open>auto intro: clock_range_subset clock_monotone_subset\<close>)
  then show ?case using step(2,3) ids by auto
qed simp

lemma run_Next_worker:
  assumes "run_Next clk n g k = Some (ids, g', k')" and "generator_ok g" and "clock_in_range clk k k'"
  shows "\<forall>i\<in>set ids. unat i div 2 ^ 12 mod 2 ^ 10 = unat (workerID g)"
  using assms
proof (induction n arbitrary: g k ids)
  case (Suc n)
  from Suc.prems(1) obtain i1 g1 k1 ids1 where 1: "Next clk g k = Some (i1, g1, k1)"
    and 2: "run_Next clk n g1 k1 = Some (ids1, g', k')" and ids: "ids = i1 # ids1"
    by (auto simp: bind_eq_Some_conv)
  note id = Next_id [OF 1] and pos = run_Next_pos [OF 2]
  have ok: "generator_ok g1" by (rule Next_generator_ok [OF 1 Suc.prems(2,3) pos])
  have "clock_in_range clk k1 k'" using Suc.prems(3) id(3) by (simp add: clock_range_subset)
  then have "\<forall>i\<in>set ids1. unat i div 2 ^ 12 mod 2 ^ 10 = unat (workerID g1)"
    by (rule Suc.IH [OF 2 ok])
  moreover have "unat i1 div 2 ^ 12 mod 2 ^ 10 = unat (workerID g1)"
    unfolding id(1) by (rule pack_fields) (use ok in \<open>simp_all add: generator_ok_def\<close>)
  ultimately show ?case using ids id(2) by simp
qed simp

lemma NewGenerator_ok: "generator_ok (NewGenerator wid)"
proof -
  have "unat wid < 2 ^ 10" if "\<not> wid <s 0" "\<not> maxWorkerID <s wid"
  proof -
    have "0 \<le> sint wid" "sint wid \<le> 1023"
      using that by (simp_all add: word_sless_alt layout_defs)
    then have "uint wid \<le> 1023" by (simp add: sint_nonneg)
    then have "int (unat wid) \<le> 1023" by (simp only: uint_nat)
    then have "unat wid \<le> 1023" by (metis of_nat_le_iff of_nat_numeral)
    then show ?thesis by simp
  qed
  then show ?thesis by (auto simp: NewGenerator_def Let_def generator_ok_def)
qed

lemma workerID_NewGenerator:
  assumes "x \<le> 1023"
  shows "workerID (NewGenerator x) = x"
proof -
  from assms have "x <=s 1023" by (subst sle_iff_le) (auto simp: word_le_nat_alt)
  moreover from assms have "0 <=s x" by (subst sle_iff_le) (auto simp: word_le_nat_alt)
  ultimately have "\<not> x <s 0" "\<not> maxWorkerID <s x"
    by (auto simp: word_sle_eq word_sless_alt layout_defs)
  then show ?thesis by (simp add: NewGenerator_def)
qed

lemma NewGenerator_stamp [simp]: "lastStamp (NewGenerator wid) = 0"
  by (simp add: NewGenerator_def Let_def)

text \<open>The two calls that do not wait, as equations.\<close>

lemma Next_fresh:
  "currentMillis clk k \<noteq> lastStamp g \<Longrightarrow>
   Next clk g k = Some (pack (currentMillis clk k) (workerID g) 0,
     g\<lparr>sequence := 0, lastStamp := currentMillis clk k\<rparr>, Suc k)"
  by (simp add: Next_def Let_def)

lemma Next_same:
  "currentMillis clk k = lastStamp g \<Longrightarrow> (sequence g + 1) AND maxSequence = sq \<Longrightarrow> sq \<noteq> 0 \<Longrightarrow>
   Next clk g k = Some (pack (lastStamp g) (workerID g) sq, g\<lparr>sequence := sq\<rparr>, Suc k)"
  by (simp add: Next_def Let_def)

text \<open>The wait ends when the clock passes the last stamp.\<close>

lemma Next_total:
  assumes "k < j" and "lastStamp g <s currentMillis clk j"
  shows "\<exists>i g' k'. Next clk g k = Some (i, g', k')"
proof -
  obtain r where "busy_wait clk (lastStamp g) (currentMillis clk k) (Suc k) = Some r"
    using busy_wait_ends [OF assms(2), of "Suc k" "currentMillis clk k"] assms(1) by (auto simp: Suc_le_eq)
  then show ?thesis by (cases r) (auto simp: Next_def Let_def)
qed

text \<open>A sample clock for the witnesses: two readings in each millisecond.\<close>

definition sample_clock :: clock where
  "sample_clock k = (1704067200005 + int (k div 2)) * 1000000"

lemma sample_clock_millis:
  "currentMillis sample_clock 0 = 5" "currentMillis sample_clock (Suc 0) = 5"
  "currentMillis sample_clock (Suc (Suc 0)) = 6"
  by (simp_all add: currentMillis_def sample_clock_def customEpoch_def)

lemma sample_clock_ok: "clock_in_range sample_clock 0 3" "clock_monotone sample_clock 0 3"
  by (auto simp: clock_in_range_def clock_monotone_def sample_clock_def div_le_mono)

lemma sample_run:
  "run_Next sample_clock 3 (NewGenerator 1) 0 =
     Some ([20975616, 20975617, 25169920], \<lparr>workerID = 1, sequence = 0, lastStamp = 6\<rparr>, 3)"
proof -
  have g: "NewGenerator 1 = \<lparr>workerID = 1, sequence = 0, lastStamp = 0\<rparr>"
    by (simp add: NewGenerator_def word_sless_alt layout_defs)
  show ?thesis
    by (simp add: numeral_3_eq_3 g Next_fresh Next_same sample_clock_millis pack_def layout_defs)
qed

section \<open>Properties\<close>

text \<open>
  (C11) Identifiers of one generator are strictly increasing, hence distinct: as long as the clock
  does not go backwards and stays in the 41-bit range, any run of \<open>Next\<close> from a new generator
  returns a strictly increasing list.
\<close>

theorem Next_strictly_increasing:
  assumes "run_Next clk n (NewGenerator wid) k = Some (ids, g', k')"
    and "clock_in_range clk k k'" and "clock_monotone clk k k'"
  shows "sorted_wrt (<) ids \<and> distinct ids"
proof -
  have "sorted_wrt (<) ids"
    using run_Next_sorted [OF assms(1) NewGenerator_ok assms(2,3)] by simp
  then show ?thesis by (auto simp: strict_sorted_iff)
qed

theorem Next_strictly_increasing_witness:
  "sorted_wrt (<) [20975616, 20975617, 25169920 :: uint64] \<and> distinct [20975616, 20975617, 25169920 :: uint64]"
  by (rule Next_strictly_increasing [OF sample_run sample_clock_ok])

text \<open>
  No two nodes produce the same identifier: generators made with different worker numbers
  in 0..1023 return disjoint sets of identifiers, whatever their clocks do inside the 41-bit range
  (they need neither agree nor be monotone).
\<close>

lemma workers_disjoint:
  assumes "run_Next clk n (NewGenerator v) k = Some (ids, g, k1)" and "clock_in_range clk k k1"
    and "run_Next clk' n' (NewGenerator w) k' = Some (ids', g', k1')" and "clock_in_range clk' k' k1'"
    and "v \<noteq> w" and "v \<le> 1023" and "w \<le> 1023"
  shows "set ids \<inter> set ids' = {}"
proof -
  have "unat v \<noteq> unat w" using assms(5) by (simp add: word_unat_eq_iff)
  then show ?thesis
    using run_Next_worker [OF assms(1) NewGenerator_ok assms(2)]
      run_Next_worker [OF assms(3) NewGenerator_ok assms(4)] workerID_NewGenerator [OF assms(6)] workerID_NewGenerator [OF assms(7)]
    by auto
qed

lemma sample_run2:
  "run_Next sample_clock 1 (NewGenerator 2) 0 = Some ([20979712], \<lparr>workerID = 2, sequence = 0, lastStamp = 5\<rparr>, 1)"
proof -
  have g: "NewGenerator 2 = \<lparr>workerID = 2, sequence = 0, lastStamp = 0\<rparr>"
    by (simp add: NewGenerator_def word_sless_alt layout_defs)
  show ?thesis by (simp add: g Next_fresh sample_clock_millis pack_def layout_defs)
qed

text \<open>
  Layout and round trip: in range, the identifier's sign bit is 0, and its 41-bit stamp, 10-bit
  worker number and 12-bit sequence number are read back by shifting and masking.
\<close>

lemma Next_layout:
  assumes "Next clk g k = Some (i, g', k')" and "generator_ok g" and "clock_in_range clk k k'"
  shows "drop_bit 22 i = lastStamp g' \<and> (drop_bit 12 i) AND 1023 = workerID g \<and> i AND 4095 = sequence g'
    \<and> \<not> bit i 63 \<and> generator_ok g'"
proof -
  have ok: "generator_ok g'" by (rule Next_generator_ok [OF assms order.refl])
  note id = Next_id [OF assms(1)]
  have b: "unat (lastStamp g') < 2 ^ 42" "unat (workerID g') < 2 ^ 10" "unat (sequence g') < 2 ^ 12"
    using ok by (simp_all add: generator_ok_def)
  note f = pack_fields [OF b, folded id(1)]
  have m: "1023 = (mask 10 :: int64)" "4095 = (mask 12 :: int64)"
    by (simp_all add: mask_eq_exp_minus_1)
  have "drop_bit 22 i = lastStamp g'"
    using f(1) by (simp add: word_unat_eq_iff drop_bit_eq_div unat_div_distrib)
  moreover have "(drop_bit 12 i) AND 1023 = workerID g'"
    using f(2) unfolding m word_unat_eq_iff
    by (simp add: drop_bit_eq_div take_bit_eq_mod unat_div_distrib unat_mod_distrib flip: take_bit_eq_mask)
  moreover have "i AND 4095 = sequence g'"
    using f(3) unfolding m word_unat_eq_iff
    by (simp add: take_bit_eq_mod unat_mod_distrib flip: take_bit_eq_mask)
  moreover have "unat i < 2 ^ 63"
    using ok id(1) b unat_pack [OF b] by (simp add: generator_ok_def)
  then have "\<not> bit i 63" using bit_bound by blast
  ultimately show ?thesis using id(2) ok by simp
qed

text \<open>
  \<open>Next\<close> returns: if some later reading of the clock is past the last stamp, the call ends
  (the only loop, the busy wait on an exhausted sequence, stops there).
\<close>

lemma Next_returns:
  assumes "k < j" and "lastStamp g <s currentMillis clk j"
  shows "\<exists>i g' k'. Next clk g k = Some (i, g', k')"
  by (rule Next_total [OF assms])

text \<open>
  (C39) The generator does not stall when the clock goes backwards: a clock that reads one
  millisecond, then another, then the first again makes \<open>Next\<close> return the same identifier twice
  (and, when the second reading is the smaller one, an identifier below the previous one).
\<close>

theorem clock_rewind_duplicates:
  assumes "currentMillis clk k \<noteq> lastStamp g"
    and "currentMillis clk (Suc k) \<noteq> currentMillis clk k"
    and "currentMillis clk (Suc (Suc k)) = currentMillis clk k"
  shows "\<exists>i j g'. run_Next clk 3 g k = Some ([i, j, i], g', k + 3)"
  using assms by (simp add: numeral_3_eq_3 Next_fresh)

theorem clock_rewind_duplicates_witness:
  "\<exists>i j g'. run_Next (\<lambda>k. (if k = 1 then 1704067200004 else 1704067200005) * 1000000) 3 (NewGenerator 1) 0
     = Some ([i, j, i], g', 0 + 3)"
  by (rule clock_rewind_duplicates) (simp_all add: currentMillis_def customEpoch_def)

end
