(* ===== verification/Config.thy ===== *)
theory Config
  imports Snowflake "HOL-Library.Char_ord"
begin

text \<open>
  Runtime configuration, \<^verbatim>\<open>src/shared/config/config.go\<close>: reading the environment with defaults, and the
  digit loop that parses \<^verbatim>\<open>WORKER_ID\<close>, whose arithmetic wraps at 64 bits. The environment of the
  process is a map from variable names to values; \<^verbatim>\<open>os.Getenv\<close> gives the empty string for a
  variable that is not set.
\<close>

type_synonym environ = "string \<rightharpoonup> string"

definition Getenv :: "environ \<Rightarrow> string \<Rightarrow> string" where
  "Getenv env key = (case env key of None \<Rightarrow> [] | Some v \<Rightarrow> v)"

record config =
  MySQLDSN :: string
  RedisAddr :: string
  APIPort :: string
  WSPort :: string
  WorkerID :: int64

definition getEnv :: "environ \<Rightarrow> string \<Rightarrow> string \<Rightarrow> string" where
  "getEnv env key fallback = (let v = Getenv env key in if v \<noteq> [] then v else fallback)"

text \<open>
  The loop of \<^verbatim>\<open>getEnvInt64\<close>, over the bytes of the value: the code ranges over runes, and every
  rune that is not one ASCII byte is above \<^verbatim>\<open>'9'\<close>, as each of its bytes is. The accumulator
  \<open>n\<close> is an \<^verbatim>\<open>int64\<close>.
\<close>

fun parse_digits :: "string \<Rightarrow> int64 \<Rightarrow> int64 \<Rightarrow> int64" where
  "parse_digits [] fallback n = n"
| "parse_digits (c # cs) fallback n =
     (if c < CHR ''0'' \<or> CHR ''9'' < c then fallback
      else parse_digits cs fallback (n * 10 + word_of_nat (of_char c - 48)))"

definition getEnvInt64 :: "environ \<Rightarrow> string \<Rightarrow> int64 \<Rightarrow> int64" where
  "getEnvInt64 env key fallback =
     (let v = Getenv env key in if v = [] then fallback else parse_digits v fallback 0)"

definition Load :: "environ \<Rightarrow> config" where
  "Load env =
     \<lparr>MySQLDSN = getEnv env ''MYSQL_DSN'' ''root:rootpassword@tcp(127.0.0.1:3307)/teamchat?parseTime=true'',
      RedisAddr = getEnv env ''REDIS_ADDR'' ''127.0.0.1:6379'',
      APIPort = getEnv env ''API_PORT'' '':8080'',
      WSPort = getEnv env ''WS_PORT'' '':8081'',
      WorkerID = getEnvInt64 env ''WORKER_ID'' 1\<rparr>"

section \<open>What the digit loop computes\<close>

lemma char_digit_range: "(c < CHR ''0'' \<or> CHR ''9'' < c) \<longleftrightarrow> \<not> is_digit c"
  by (auto simp: is_digit_def less_char_def)

lemma parse_digits_fold:
  "list_all is_digit cs \<Longrightarrow>
     parse_digits cs fallback n = foldl (\<lambda>m c. m * 10 + word_of_nat (digit_val c)) n cs"
  by (induction cs arbitrary: n) (simp_all add: char_digit_range digit_val_def)

lemma parse_digits_bad: "\<not> list_all is_digit cs \<Longrightarrow> parse_digits cs fallback n = fallback"
  by (induction cs arbitrary: n) (auto simp: char_digit_range)

lemma foldl_word_of_nat:
  "foldl (\<lambda>m c. m * 10 + word_of_nat (digit_val c)) (word_of_nat a :: int64) cs =
     word_of_nat (foldl (\<lambda>m c. m * 10 + digit_val c) a cs)"
proof (induction cs arbitrary: a)
  case (Cons c cs)
  have "(word_of_nat a * 10 + word_of_nat (digit_val c) :: int64) = word_of_nat (a * 10 + digit_val c)"
    by simp
  then show ?case by (simp only: foldl_Cons Cons.IH)
qed simp

lemma parse_digits_value: "list_all is_digit cs \<Longrightarrow> parse_digits cs fallback 0 = word_of_nat (dec_val cs)"
  using foldl_word_of_nat [of 0 cs] by (simp add: parse_digits_fold dec_val_def)

section \<open>Properties\<close>

text \<open>
  The whole behaviour of \<open>getEnvInt64\<close>: the fallback for a missing, empty or not all-digit
  value, and otherwise the decimal value of the digits modulo \<open>2^64\<close>.
\<close>

lemma getEnvInt64_spec:
  "getEnvInt64 env key fallback =
     (case env key of None \<Rightarrow> fallback
      | Some v \<Rightarrow> if v \<noteq> [] \<and> list_all is_digit v then word_of_nat (dec_val v) else fallback)"
  by (auto simp: getEnvInt64_def Getenv_def parse_digits_value parse_digits_bad split: option.splits)

text \<open>
  A valid worker number survives configuration: \<^verbatim>\<open>WORKER_ID\<close> set to the decimal text of
  \<open>n \<le> 1023\<close> makes the process's generator use worker number \<open>n\<close>.
\<close>

lemma worker_id_roundtrip:
  assumes "env ''WORKER_ID'' = Some (dec n)" and "n \<le> 1023"
  shows "unat (workerID (NewGenerator (WorkerID (Load env)))) = n"
proof -
  have "WorkerID (Load env) = word_of_nat n"
    using assms(1) by (simp add: Load_def getEnvInt64_def Getenv_def parse_digits_value dec_digits)
  moreover have u: "unat (word_of_nat n :: int64) = n"
    using assms(2) by (simp add: unsigned_of_nat take_bit_nat_eq_self)
  moreover have "workerID (NewGenerator (word_of_nat n)) = (word_of_nat n :: int64)"
    using assms(2) by (intro workerID_NewGenerator) (simp add: word_le_nat_alt u)
  ultimately show ?thesis by simp
qed

text \<open>
  Digits that overflow are not rejected: a \<^verbatim>\<open>WORKER_ID\<close> of \<open>2^64 + n\<close> is accepted as \<open>n\<close>,
  although the value is invalid, so it configures the same node number as \<open>n\<close> does.
\<close>

lemma worker_id_overflow_accepted:
  assumes "env ''WORKER_ID'' = Some (dec (2 ^ 64 + n))"
  shows "WorkerID (Load env) = word_of_nat n"
proof -
  have "WorkerID (Load env) = word_of_nat (2 ^ 64 + n)"
    using assms by (simp add: Load_def getEnvInt64_def Getenv_def parse_digits_value dec_digits)
  also have "\<dots> = (word_of_nat n :: int64)"
    unfolding word_of_nat_eq_iff by (simp add: take_bit_eq_mod)
  finally show ?thesis .
qed

end
