(* ===== verification/Domain.thy ===== *)
theory Domain
  imports TeamChat_Prelude
begin

text \<open>
  The business entities of \<^verbatim>\<open>src/shared/domain\<close> and the error values that the layers pass around: the
  sentinels of \<^verbatim>\<open>errors.go\<close>, the errors of the standard library and of the drivers, and the
  wrapping of \<^verbatim>\<open>fmt.Errorf\<close> with \<^verbatim>\<open>%w\<close>.
\<close>

record user =
  user_ID :: string
  Username :: string
  user_CreatedAt :: gotime

record channel =
  channel_ID :: string
  Name :: string
  Type :: string
  CreatedBy :: string
  channel_CreatedAt :: gotime

record message =
  msg_ID :: uint64
  ConversationID :: string
  SenderID :: string
  Content :: string
  msg_CreatedAt :: gotime

record ack_frame =
  ack_MessageID :: uint64
  ack_ConversationID :: string
  ack_ReceiverID :: string

text \<open>The zero value of \<^verbatim>\<open>time.Time\<close>: the first of January of the year 1.\<close>

definition zero_time :: gotime where
  "zero_time = - 62135596800 * 1000000000"

datatype go_error =
    ErrNotMember | ErrDuplicateRequest | ErrUsernameTaken | ErrChannelNotFound | ErrUserNotFound
  | ErrNoRows                          \<comment> \<open>\<^verbatim>\<open>sql.ErrNoRows\<close>\<close>
  | ErrScan                            \<comment> \<open>\<^verbatim>\<open>rows.Scan\<close>: a column does not fit its destination\<close>
  | ErrExternal string                 \<comment> \<open>an error of MySQL, Redis or the network\<close>
  | ErrInvalidChannelType string       \<comment> \<open>\<^verbatim>\<open>invalid channel type %q: must be DM or GROUP\<close>\<close>
  | ErrDMMembers nat                   \<comment> \<open>\<^verbatim>\<open>DM channel requires exactly 2 members, got %d\<close>\<close>
  | ErrCreateChannel go_error          \<comment> \<open>\<^verbatim>\<open>create channel: %w\<close>\<close>
  | ErrAddMember string go_error       \<comment> \<open>\<^verbatim>\<open>add member %s: %w\<close>\<close>

text \<open>\<^verbatim>\<open>errors.Is\<close>: the error itself or one it wraps is the target.\<close>

fun errors_Is :: "go_error \<Rightarrow> go_error \<Rightarrow> bool" where
  "errors_Is (ErrCreateChannel e) target = (ErrCreateChannel e = target \<or> errors_Is e target)"
| "errors_Is (ErrAddMember u e) target = (ErrAddMember u e = target \<or> errors_Is e target)"
| "errors_Is e target = (e = target)"

text \<open>The errors a server or its driver returns.\<close>

fun external_error :: "go_error \<Rightarrow> bool" where
  "external_error (ErrExternal s) = True"
| "external_error e = False"

text \<open>The errors of the storage layer: of a server, or of reading its result.\<close>

definition storage_error :: "go_error \<Rightarrow> bool" where
  "storage_error e \<longleftrightarrow> external_error e \<or> e = ErrScan \<or> e = ErrNoRows"

lemma storage_error_simps [simp]:
  "storage_error (ErrExternal s)" "storage_error ErrScan" "storage_error ErrNoRows"
  "\<not> storage_error ErrNotMember" "\<not> storage_error ErrDuplicateRequest" "\<not> storage_error ErrUsernameTaken"
  "\<not> storage_error ErrChannelNotFound" "\<not> storage_error ErrUserNotFound"
  "\<not> storage_error (ErrInvalidChannelType t)" "\<not> storage_error (ErrDMMembers n)"
  "\<not> storage_error (ErrCreateChannel e)" "\<not> storage_error (ErrAddMember u e)"
  by (simp_all add: storage_error_def)

lemma external_storage [simp]: "external_error e \<Longrightarrow> storage_error e"
  by (simp add: storage_error_def)

lemma errors_Is_storage: "storage_error e \<Longrightarrow> errors_Is e t \<longleftrightarrow> e = t"
  by (cases e) simp_all

end
