(* ===== verification/Database_Pool.thy ===== *)
theory Database_Pool
  imports Domain
begin

text \<open>
  \<^verbatim>\<open>db.go\<close>: \<open>Connect\<close> opens the pool of MySQL connections and sets its limits. The pool is the one of
  \<^verbatim>\<open>database/sql\<close>: connections that are free, in use or being dialled, and requests that wait for one. What the driver answers to \<^verbatim>\<open>Open\<close>
  and \<^verbatim>\<open>Ping\<close> is a parameter. The properties say what the three limits of \<open>Connect\<close> give: at most 25
  connections to the server, at most 5 of them idle, none handed out that is older than 5 minutes.
\<close>

section \<open>The pool\<close>

text \<open>A connection is known by the time it was opened. A dial is made for its caller or, by the opener, for a waiting request.\<close>

record pool =
  maxOpen :: int
  maxIdleCount :: int
  maxLifetime :: int
  freeConn :: "int list"
  in_use :: "int list"
  dialling :: nat
  opener :: nat
  waiting :: nat

definition numOpen :: "pool \<Rightarrow> int" where
  "numOpen p = int (length (freeConn p) + length (in_use p) + dialling p + opener p)"

definition sql_Open :: pool where
  "sql_Open = \<lparr>maxOpen = 0, maxIdleCount = 0, maxLifetime = 0, freeConn = [], in_use = [], dialling = 0, opener = 0, waiting = 0\<rparr>"

definition maxIdleConns :: "pool \<Rightarrow> int" where
  "maxIdleConns p = (if maxIdleCount p = 0 then 2 else if maxIdleCount p < 0 then 0 else maxIdleCount p)"

definition SetMaxIdleConns :: "int \<Rightarrow> pool \<Rightarrow> pool" where
  "SetMaxIdleConns n p =
     (let p = p\<lparr>maxIdleCount := if n > 0 then n else -1\<rparr>;
          p = (if maxOpen p > 0 \<and> maxIdleConns p > maxOpen p then p\<lparr>maxIdleCount := maxOpen p\<rparr> else p)
      in p\<lparr>freeConn := take (nat (maxIdleConns p)) (freeConn p)\<rparr>)"

definition SetMaxOpenConns :: "int \<Rightarrow> pool \<Rightarrow> pool" where
  "SetMaxOpenConns n p =
     (let p = p\<lparr>maxOpen := if n < 0 then 0 else n\<rparr>
      in if maxOpen p > 0 \<and> maxIdleConns p > maxOpen p then SetMaxIdleConns n p else p)"

definition SetConnMaxLifetime :: "int \<Rightarrow> pool \<Rightarrow> pool" where
  "SetConnMaxLifetime d p = p\<lparr>maxLifetime := if d < 0 then 0 else d\<rparr>"

definition expired :: "int \<Rightarrow> int \<Rightarrow> pool \<Rightarrow> bool" where
  "expired now c p \<longleftrightarrow> maxLifetime p > 0 \<and> c + maxLifetime p < now"

section \<open>Connect\<close>

text \<open>The connection that \<^verbatim>\<open>Ping\<close> opened is free afterwards.\<close>

definition Connect ::
    "(string \<Rightarrow> go_error option) \<Rightarrow> (string \<Rightarrow> go_error option) \<Rightarrow> int \<Rightarrow> string \<Rightarrow> go_error + pool" where
  "Connect open_driver ping now dsn =
     (case open_driver dsn of
        Some err \<Rightarrow> Inl err
      | None \<Rightarrow>
          (let db = SetConnMaxLifetime (5 * 60 * second) (SetMaxIdleConns 5 (SetMaxOpenConns 25 sql_Open))
           in (case ping dsn of
                 Some err \<Rightarrow> Inl err
               | None \<Rightarrow> Inr (db\<lparr>freeConn := [now]\<rparr>))))"

section \<open>Use of the pool\<close>

text \<open>A request for a connection: it gets the free one that was used last, an expired one is closed and the request tried again.\<close>

datatype grab = Got int | Expired | Blocked | Dialing

definition pool_conn :: "int \<Rightarrow> pool \<Rightarrow> grab \<times> pool" where
  "pool_conn now p =
     (if freeConn p \<noteq> [] then
        (let c = last (freeConn p); p = p\<lparr>freeConn := butlast (freeConn p)\<rparr>
         in if expired now c p then (Expired, p) else (Got c, p\<lparr>in_use := c # in_use p\<rparr>))
      else if maxOpen p > 0 \<and> numOpen p \<ge> maxOpen p then (Blocked, p\<lparr>waiting := waiting p + 1\<rparr>)
      else (Dialing, p\<lparr>dialling := dialling p + 1\<rparr>))"

text \<open>\<^verbatim>\<open>maybeOpenNewConnections\<close>: room in the pool is given to the requests that wait.\<close>

definition maybe_open :: "pool \<Rightarrow> pool" where
  "maybe_open p =
     (let n = (if maxOpen p > 0 then min (int (waiting p)) (maxOpen p - numOpen p) else int (waiting p))
      in p\<lparr>opener := opener p + nat n\<rparr>)"

text \<open>\<^verbatim>\<open>putConnDBLocked\<close>: a connection goes to a waiting request, else it stays free, else it is closed.\<close>

definition put_locked :: "int \<Rightarrow> pool \<Rightarrow> pool" where
  "put_locked c p =
     (if waiting p > 0 then p\<lparr>in_use := c # in_use p, waiting := waiting p - 1\<rparr>
      else if int (length (freeConn p)) < maxIdleConns p then p\<lparr>freeConn := freeConn p @ [c]\<rparr>
      else maybe_open p)"

definition putConn :: "int \<Rightarrow> int \<Rightarrow> bool \<Rightarrow> pool \<Rightarrow> pool" where
  "putConn now c bad p =
     (let p = p\<lparr>in_use := remove1 c (in_use p)\<rparr>
      in if bad \<or> expired now c p then maybe_open p else put_locked c p)"

inductive pool_step :: "int \<times> pool \<Rightarrow> int \<times> pool \<Rightarrow> bool" where
  time_passes: "t \<le> t' \<Longrightarrow> pool_step (t, p) (t', p)"
| asks: "pool_conn t p = (g, p') \<Longrightarrow> pool_step (t, p) (t, p')"
| dialed: "dialling p > 0 \<Longrightarrow>
    pool_step (t, p) (t, if ok then p\<lparr>dialling := dialling p - 1, in_use := t # in_use p\<rparr> else maybe_open (p\<lparr>dialling := dialling p - 1\<rparr>))"
| opened: "opener p > 0 \<Longrightarrow>
    pool_step (t, p) (t, let q = p\<lparr>opener := opener p - 1\<rparr> in if ok then put_locked t q else maybe_open q)"
| gives_back: "c \<in> set (in_use p) \<Longrightarrow> pool_step (t, p) (t, putConn t c bad p)"
| gives_up: "waiting p > 0 \<Longrightarrow> pool_step (t, p) (t, p\<lparr>waiting := waiting p - 1\<rparr>)"
| cleaned: "pool_step (t, p) (t, maybe_open (p\<lparr>freeConn := filter (\<lambda>c. \<not> expired t c p) (freeConn p)\<rparr>))"

inductive pool_reach :: "string \<Rightarrow> int \<times> pool \<Rightarrow> bool" for dsn where
  connected: "Connect open_driver ping t dsn = Inr p \<Longrightarrow> pool_reach dsn (t, p)"
| step: "pool_reach dsn s \<Longrightarrow> pool_step s s' \<Longrightarrow> pool_reach dsn s'"

section \<open>The limits\<close>

definition pool_ok :: "pool \<Rightarrow> bool" where
  "pool_ok p \<longleftrightarrow> maxOpen p = 25 \<and> maxIdleCount p = 5 \<and> maxLifetime p = 5 * 60 * second \<and>
     numOpen p \<le> 25 \<and> length (freeConn p) \<le> 5"

lemma pool_ok_fewer:
  "pool_ok p \<Longrightarrow> maxOpen p' = maxOpen p \<Longrightarrow> maxIdleCount p' = maxIdleCount p \<Longrightarrow> maxLifetime p' = maxLifetime p \<Longrightarrow>
   numOpen p' \<le> numOpen p \<Longrightarrow> length (freeConn p') \<le> length (freeConn p) \<Longrightarrow> pool_ok p'"
  by (simp add: pool_ok_def)

lemma maybe_open_ok: "pool_ok p \<Longrightarrow> pool_ok (maybe_open p)"
  by (auto simp: pool_ok_def maybe_open_def numOpen_def)

lemma put_locked_ok: "pool_ok p \<Longrightarrow> numOpen p \<le> 24 \<Longrightarrow> pool_ok (put_locked c p)"
  using maybe_open_ok [of p]
  by (auto simp: pool_ok_def put_locked_def numOpen_def maxIdleConns_def)

lemma pool_conn_ok: "pool_ok p \<Longrightarrow> pool_conn t p = (g, p') \<Longrightarrow> pool_ok p'"
  by (cases "freeConn p" rule: rev_cases) (auto simp: pool_ok_def pool_conn_def Let_def numOpen_def split: if_splits)

lemma Connect_ok: "Connect open_driver ping t dsn = Inr p \<Longrightarrow> pool_ok p"
  by (auto simp: Connect_def Let_def pool_ok_def numOpen_def SetConnMaxLifetime_def SetMaxIdleConns_def SetMaxOpenConns_def
      sql_Open_def maxIdleConns_def second_def split: option.splits)

lemma putConn_ok:
  assumes "pool_ok p" and "c \<in> set (in_use p)"
  shows "pool_ok (putConn t c bad p)"
proof -
  let ?p = "p\<lparr>in_use := remove1 c (in_use p)\<rparr>"
  have "length (in_use p) = Suc (length (in_use ?p))"
    using assms(2) length_pos_if_in_set [OF assms(2)] by (simp add: length_remove1 del: length_greater_0_conv)
  then have "pool_ok ?p" "numOpen ?p \<le> 24" using assms(1) by (auto simp: pool_ok_def numOpen_def)
  then show ?thesis by (simp add: putConn_def Let_def maybe_open_ok put_locked_ok)
qed

lemma pool_step_ok: "pool_step s s' \<Longrightarrow> pool_ok (snd s) \<Longrightarrow> pool_ok (snd s')"
proof (induction rule: pool_step.induct)
  case (asks t p g p')
  then show ?case by (simp add: pool_conn_ok)
next
  case (dialed p t ok)
  then have "pool_ok (p\<lparr>dialling := dialling p - 1\<rparr>)" by (auto simp: pool_ok_def numOpen_def)
  with dialed show ?case by (auto simp: maybe_open_ok) (auto simp: pool_ok_def numOpen_def)
next
  case (opened p t ok)
  then have "pool_ok (p\<lparr>opener := opener p - 1\<rparr>)" "numOpen (p\<lparr>opener := opener p - 1\<rparr>) \<le> 24"
    by (auto simp: pool_ok_def numOpen_def)
  then show ?case by (simp add: Let_def maybe_open_ok put_locked_ok)
next
  case (gives_back c p t bad)
  then show ?case by (simp add: putConn_ok)
next
  case (cleaned t p)
  then have "pool_ok p" by simp
  then have "pool_ok (p\<lparr>freeConn := filter (\<lambda>c. \<not> expired t c p) (freeConn p)\<rparr>)"
    by (rule pool_ok_fewer) (simp_all add: numOpen_def)
  then show ?case by (simp add: maybe_open_ok)
qed (simp_all add: pool_ok_def numOpen_def)

lemma pool_reach_ok: "pool_reach dsn s \<Longrightarrow> pool_ok (snd s)"
  by (induction rule: pool_reach.induct) (auto intro: Connect_ok pool_step_ok)

section \<open>Properties\<close>

text \<open>
  The limits set by \<open>Connect\<close> hold: whatever requests, failures and waits follow a successful \<open>Connect\<close>, the
  process never has more than 25 connections to MySQL, counting those being dialled, and never keeps more than 5 of them
  idle; and a request for a connection is never given one that was opened more than 5 minutes ago.
\<close>

lemma pool_within_limits:
  assumes "pool_reach dsn (t, p)"
  shows "numOpen p \<le> 25 \<and> length (freeConn p) \<le> 5 \<and> (\<forall>c p'. pool_conn t p = (Got c, p') \<longrightarrow> t \<le> c + 5 * 60 * second)"
  using pool_reach_ok [OF assms]
  by (auto simp: pool_ok_def pool_conn_def expired_def Let_def second_def split: if_splits)

end
