(* ===== verification/MySQL.thy ===== *)
theory MySQL
  imports Domain "HOL-Library.Multiset" "HOL-Library.Option_ord"
begin

text \<open>
  The MySQL store. The server itself is not part of the repository: it is a parameter
  \<open>'d sql_db\<close> of every definition that talks to it, over an unknown server state \<open>'d\<close>. What is part
  of the repository is the schema (\<^verbatim>\<open>src/scripts/migrations\<close>) and the statements the Go code sends.
  They are translated here: the tables with the columns of the migrations, one constructor
  per statement text, and what the statement means on the tables. The locale \<open>mysql_server\<close> states
  the documented behaviour the code relies on: a statement that succeeds acts as its SQL says,
  a statement that fails has either acted or changed nothing, a query changes nothing, and the
  errors of the server are none of the values the Go code itself returns. It is
  interpreted on a reference server that runs the statements on the tables and may fail at any
  call.

  Two settings of a server are left open, in \<open>sql_conf\<close>: the collation by which strings are compared
  (\<open>coll\<close> maps a string to its sort key) and the rounding of a time stamp to seconds and to
  milliseconds when it is stored. The column \<^verbatim>\<open>joined_at\<close> is left out: no statement names it.
\<close>

section \<open>The schema\<close>

datatype chan_type = DM | GROUP

record user_row =
  u_id :: string
  u_username :: string
  u_created_at :: "gotime option"

record conv_row =
  c_id :: string
  c_type :: chan_type
  c_name :: "string option"
  c_created_by :: "string option"
  c_created_at :: "gotime option"

record member_row =
  m_channel_id :: string
  m_user_id :: string

record msg_row =
  r_id :: uint64
  r_conversation_id :: string
  r_sender_id :: string
  r_content :: string
  r_created_at :: "gotime option"

record tables =
  users :: "user_row list"
  conversations :: "conv_row list"
  channel_members :: "member_row list"
  messages :: "msg_row list"

definition empty_tables :: tables where
  "empty_tables = \<lparr>users = [], conversations = [], channel_members = [], messages = []\<rparr>"

record sql_conf =
  coll :: "string \<Rightarrow> string"
  ts0 :: "gotime \<Rightarrow> gotime"
  ts3 :: "gotime \<Rightarrow> gotime"

definition same :: "sql_conf \<Rightarrow> string \<Rightarrow> string \<Rightarrow> bool" where
  "same cf a b \<longleftrightarrow> coll cf a = coll cf b"

section \<open>The statements\<close>

datatype sql_stmt =
    INSERT_users string string gotime
  | INSERT_IGNORE_users string string gotime
  | INSERT_conversations string string string string gotime
  | INSERT_IGNORE_channel_members string string
  | DELETE_channel_members string string
  | INSERT_messages uint64 string string string gotime

datatype sql_query =
    SELECT_user string
  | COUNT_users string
  | SELECT_conversation string
  | SELECT_conversations_of_user string
  | SELECT_channel_ids string
  | COUNT_members string string
  | SELECT_messages_since string uint64

text \<open>The cells of a result row; a cell of a nullable column is an option.\<close>

datatype sql_row =
    UserRow string string "gotime option"
  | CountRow int
  | ConvRow string chan_type string string "gotime option"
  | IdRow string
  | MessageRow uint64 string string string "gotime option"

text \<open>A stored enum value: an insert of any other string is an error.\<close>

definition enum_chan_type :: "sql_conf \<Rightarrow> string \<Rightarrow> chan_type option" where
  "enum_chan_type cf s =
     (if same cf s ''DM'' then Some DM else if same cf s ''GROUP'' then Some GROUP else None)"

definition has_user :: "sql_conf \<Rightarrow> tables \<Rightarrow> string \<Rightarrow> bool" where
  "has_user cf t i \<longleftrightarrow> list_ex (\<lambda>u. same cf (u_id u) i) (users t)"

definition has_username :: "sql_conf \<Rightarrow> tables \<Rightarrow> string \<Rightarrow> bool" where
  "has_username cf t n \<longleftrightarrow> list_ex (\<lambda>u. same cf (u_username u) n) (users t)"

definition has_conversation :: "sql_conf \<Rightarrow> tables \<Rightarrow> string \<Rightarrow> bool" where
  "has_conversation cf t i \<longleftrightarrow> list_ex (\<lambda>c. same cf (c_id c) i) (conversations t)"

definition member_matches :: "sql_conf \<Rightarrow> string \<Rightarrow> string \<Rightarrow> member_row \<Rightarrow> bool" where
  "member_matches cf c u m \<longleftrightarrow> same cf (m_channel_id m) c \<and> same cf (m_user_id m) u"

definition has_member :: "sql_conf \<Rightarrow> tables \<Rightarrow> string \<Rightarrow> string \<Rightarrow> bool" where
  "has_member cf t c u \<longleftrightarrow> list_ex (member_matches cf c u) (channel_members t)"

text \<open>
  What a statement does to the tables; \<open>None\<close> is a statement the constraints reject. \<^verbatim>\<open>INSERT IGNORE\<close>
  turns a duplicate key and a missing foreign key into a warning and skips the row.
\<close>

fun sql_exec :: "sql_conf \<Rightarrow> sql_stmt \<Rightarrow> tables \<Rightarrow> tables option" where
  "sql_exec cf (INSERT_users i n c) t =
     (if has_user cf t i \<or> has_username cf t n then None
      else Some (t\<lparr>users := users t @ [\<lparr>u_id = i, u_username = n, u_created_at = Some (ts0 cf c)\<rparr>]\<rparr>))"
| "sql_exec cf (INSERT_IGNORE_users i n c) t =
     (if has_user cf t i \<or> has_username cf t n then Some t
      else Some (t\<lparr>users := users t @ [\<lparr>u_id = i, u_username = n, u_created_at = Some (ts0 cf c)\<rparr>]\<rparr>))"
| "sql_exec cf (INSERT_conversations i ty n b c) t =
     (case enum_chan_type cf ty of
        None \<Rightarrow> None
      | Some k \<Rightarrow>
          if has_conversation cf t i then None
          else Some (t\<lparr>conversations := conversations t @
            [\<lparr>c_id = i, c_type = k, c_name = Some n, c_created_by = Some b, c_created_at = Some (ts0 cf c)\<rparr>]\<rparr>))"
| "sql_exec cf (INSERT_IGNORE_channel_members c u) t =
     (if has_member cf t c u \<or> \<not> has_conversation cf t c \<or> \<not> has_user cf t u then Some t
      else Some (t\<lparr>channel_members := channel_members t @ [\<lparr>m_channel_id = c, m_user_id = u\<rparr>]\<rparr>))"
| "sql_exec cf (DELETE_channel_members c u) t =
     Some (t\<lparr>channel_members := filter (\<lambda>m. \<not> member_matches cf c u m) (channel_members t)\<rparr>)"
| "sql_exec cf (INSERT_messages i c s x w) t =
     (if i \<in> r_id ` set (messages t) \<or> \<not> has_conversation cf t c then None
      else Some (t\<lparr>messages := messages t @ [\<lparr>r_id = i, r_conversation_id = c, r_sender_id = s,
        r_content = x, r_created_at = Some (ts3 cf w)\<rparr>]\<rparr>))"

text \<open>The values bound to \<^verbatim>\<open>VARCHAR\<close> and \<^verbatim>\<open>TEXT\<close> columns fit them (lengths in bytes).\<close>

fun stmt_fits :: "sql_stmt \<Rightarrow> bool" where
  "stmt_fits (INSERT_users i n c) = (length i \<le> 64 \<and> length n \<le> 100)"
| "stmt_fits (INSERT_IGNORE_users i n c) = (length i \<le> 64 \<and> length n \<le> 100)"
| "stmt_fits (INSERT_conversations i ty n b c) = (length i \<le> 64 \<and> length n \<le> 100 \<and> length b \<le> 64)"
| "stmt_fits (INSERT_IGNORE_channel_members c u) = (length c \<le> 64 \<and> length u \<le> 64)"
| "stmt_fits (DELETE_channel_members c u) = True"
| "stmt_fits (INSERT_messages i c s x w) = (length c \<le> 64 \<and> length s \<le> 64 \<and> length x \<le> 65535)"

definition user_cells :: "user_row \<Rightarrow> sql_row" where
  "user_cells u = UserRow (u_id u) (u_username u) (u_created_at u)"

text \<open>\<^verbatim>\<open>SELECT id, type, COALESCE(name,''), COALESCE(created_by,''), created_at\<close>\<close>

definition coalesce :: "string option \<Rightarrow> string" where
  "coalesce x = (case x of None \<Rightarrow> [] | Some s \<Rightarrow> s)"

definition conv_cells :: "conv_row \<Rightarrow> sql_row" where
  "conv_cells c = ConvRow (c_id c) (c_type c) (coalesce (c_name c)) (coalesce (c_created_by c)) (c_created_at c)"

definition msg_cells :: "msg_row \<Rightarrow> sql_row" where
  "msg_cells m = MessageRow (r_id m) (r_conversation_id m) (r_sender_id m) (r_content m) (r_created_at m)"

definition conversations_of_user :: "sql_conf \<Rightarrow> tables \<Rightarrow> string \<Rightarrow> conv_row list" where
  "conversations_of_user cf t u =
     concat (map (\<lambda>c. map (\<lambda>m. c) (filter (member_matches cf (c_id c) u) (channel_members t))) (conversations t))"

definition messages_since :: "sql_conf \<Rightarrow> tables \<Rightarrow> string \<Rightarrow> uint64 \<Rightarrow> msg_row list" where
  "messages_since cf t c l =
     sort_key r_id (filter (\<lambda>m. same cf (r_conversation_id m) c \<and> l < r_id m) (messages t))"

fun sql_select :: "sql_conf \<Rightarrow> sql_query \<Rightarrow> tables \<Rightarrow> sql_row list" where
  "sql_select cf (SELECT_user i) t = map user_cells (filter (\<lambda>u. same cf (u_id u) i) (users t))"
| "sql_select cf (COUNT_users n) t = [CountRow (int (length (filter (\<lambda>u. same cf (u_username u) n) (users t))))]"
| "sql_select cf (SELECT_conversation i) t = map conv_cells (filter (\<lambda>c. same cf (c_id c) i) (conversations t))"
| "sql_select cf (SELECT_conversations_of_user u) t =
     map conv_cells (sort_key c_created_at (conversations_of_user cf t u))"
| "sql_select cf (SELECT_channel_ids u) t =
     map (\<lambda>m. IdRow (m_channel_id m)) (filter (\<lambda>m. same cf (m_user_id m) u) (channel_members t))"
| "sql_select cf (COUNT_members c u) t =
     [CountRow (int (length (filter (member_matches cf c u) (channel_members t))))]"
| "sql_select cf (SELECT_messages_since c l) t = map msg_cells (take 100 (messages_since cf t c l))"

text \<open>
  What a server may answer: \<^verbatim>\<open>ORDER BY created_at\<close> leaves the order of equal keys open, and a
  query without \<^verbatim>\<open>ORDER BY\<close> the whole order.
\<close>

fun row_created_at :: "sql_row \<Rightarrow> gotime option" where
  "row_created_at (ConvRow i ty n b c) = c"
| "row_created_at (UserRow i n c) = c"
| "row_created_at (MessageRow i c s x w) = w"
| "row_created_at (CountRow n) = None"
| "row_created_at (IdRow i) = None"

fun sql_answer :: "sql_conf \<Rightarrow> sql_query \<Rightarrow> tables \<Rightarrow> sql_row list \<Rightarrow> bool" where
  "sql_answer cf (SELECT_conversations_of_user u) t rs \<longleftrightarrow>
     mset rs = mset (sql_select cf (SELECT_conversations_of_user u) t) \<and> sorted (map row_created_at rs)"
| "sql_answer cf (SELECT_channel_ids u) t rs \<longleftrightarrow> mset rs = mset (sql_select cf (SELECT_channel_ids u) t)"
| "sql_answer cf q t rs \<longleftrightarrow> rs = sql_select cf q t"

section \<open>The server as a parameter\<close>

text \<open>
  \<^verbatim>\<open>*sql.DB\<close>: running a statement gives an error or none; running a query gives an error or the
  rows that can be read and the error that ends the iteration, if any (\<^verbatim>\<open>rows.Err()\<close>).
\<close>

type_synonym query_result = "go_error + sql_row list \<times> go_error option"

record 'd sql_db =
  ExecContext :: "sql_stmt \<Rightarrow> 'd \<Rightarrow> go_error option \<times> 'd"
  QueryContext :: "sql_query \<Rightarrow> 'd \<Rightarrow> query_result \<times> 'd"

locale mysql_server =
  fixes db :: "'d sql_db"
    and cf :: sql_conf
    and tabs :: "'d \<Rightarrow> tables"
  assumes exec_ok: "ExecContext db s d = (None, d') \<Longrightarrow> stmt_fits s \<Longrightarrow> sql_exec cf s (tabs d) = Some (tabs d')"
    and exec_err: "ExecContext db s d = (Some e, d') \<Longrightarrow> stmt_fits s \<Longrightarrow>
          tabs d' = tabs d \<or> sql_exec cf s (tabs d) = Some (tabs d')"
    and query_state: "QueryContext db q d = (r, d') \<Longrightarrow> tabs d' = tabs d"
    and query_ok: "QueryContext db q d = (Inr (rs, None), d') \<Longrightarrow> sql_answer cf q (tabs d) rs"
    and exec_error: "ExecContext db s d = (Some e, d') \<Longrightarrow> external_error e"
    and query_error: "QueryContext db q d = (Inl e, d') \<Longrightarrow> external_error e"
    and rows_error: "QueryContext db q d = (Inr (rs, Some e), d') \<Longrightarrow> external_error e"

text \<open>
  The reference server: the tables, and the errors the next calls will meet. A scheduled error is
  returned without running the statement.
\<close>

record ref_server =
  ref_tables :: tables
  ref_faults :: "string option list"

definition ref_fault :: "ref_server \<Rightarrow> go_error option \<times> ref_server" where
  "ref_fault d = (case ref_faults d of [] \<Rightarrow> (None, d) | f # fs \<Rightarrow> (map_option ErrExternal f, d\<lparr>ref_faults := fs\<rparr>))"

definition ref_exec :: "sql_conf \<Rightarrow> sql_stmt \<Rightarrow> ref_server \<Rightarrow> go_error option \<times> ref_server" where
  "ref_exec cf s d =
     (case ref_fault d of
        (Some e, d) \<Rightarrow> (Some e, d)
      | (None, d) \<Rightarrow> (case sql_exec cf s (ref_tables d) of
            None \<Rightarrow> (Some (ErrExternal ''constraint violation''), d)
          | Some t \<Rightarrow> (None, d\<lparr>ref_tables := t\<rparr>)))"

definition ref_query :: "sql_conf \<Rightarrow> sql_query \<Rightarrow> ref_server \<Rightarrow> query_result \<times> ref_server" where
  "ref_query cf q d =
     (case ref_fault d of
        (Some e, d) \<Rightarrow> (Inl e, d)
      | (None, d) \<Rightarrow> (Inr (sql_select cf q (ref_tables d), None), d))"

definition ref_db :: "sql_conf \<Rightarrow> ref_server sql_db" where
  "ref_db cf = \<lparr>ExecContext = ref_exec cf, QueryContext = ref_query cf\<rparr>"

lemma ref_fault_external: "ref_fault d = (Some e, d') \<Longrightarrow> external_error e"
  by (auto simp: ref_fault_def split: list.splits)

lemma ref_fault_tables: "ref_fault d = (f, d') \<Longrightarrow> ref_tables d' = ref_tables d"
  by (auto simp: ref_fault_def split: list.splits)

lemma row_created_at_conv_cells [simp]: "row_created_at (conv_cells c) = c_created_at c"
  by (simp add: conv_cells_def)

lemma sql_answer_select: "sql_answer cf q t (sql_select cf q t)"
  by (cases q) (simp_all add: comp_def)

interpretation ref: mysql_server "ref_db cf" cf ref_tables for cf
proof
  fix s d d' e q r rs
  show "ExecContext (ref_db cf) s d = (None, d') \<Longrightarrow> stmt_fits s \<Longrightarrow>
      sql_exec cf s (ref_tables d) = Some (ref_tables d')"
    by (auto simp: ref_db_def ref_exec_def split: prod.splits option.splits dest: ref_fault_tables)
  show "ExecContext (ref_db cf) s d = (Some e, d') \<Longrightarrow> stmt_fits s \<Longrightarrow>
      ref_tables d' = ref_tables d \<or> sql_exec cf s (ref_tables d) = Some (ref_tables d')"
    by (auto simp: ref_db_def ref_exec_def split: prod.splits option.splits dest: ref_fault_tables)
  show "QueryContext (ref_db cf) q d = (r, d') \<Longrightarrow> ref_tables d' = ref_tables d"
    by (auto simp: ref_db_def ref_query_def split: prod.splits option.splits dest: ref_fault_tables)
  show "QueryContext (ref_db cf) q d = (Inr (rs, None), d') \<Longrightarrow> sql_answer cf q (ref_tables d) rs"
    by (auto simp: ref_db_def ref_query_def sql_answer_select split: prod.splits option.splits
        dest!: ref_fault_tables)
  show "ExecContext (ref_db cf) s d = (Some e, d') \<Longrightarrow> external_error e"
    by (auto simp: ref_db_def ref_exec_def split: prod.splits option.splits dest: ref_fault_external)
  show "QueryContext (ref_db cf) q d = (Inl e, d') \<Longrightarrow> external_error e"
    by (auto simp: ref_db_def ref_query_def split: prod.splits option.splits dest: ref_fault_external)
  show "QueryContext (ref_db cf) q d = (Inr (rs, Some e), d') \<Longrightarrow> external_error e"
    by (auto simp: ref_db_def ref_query_def split: prod.splits option.splits)
qed

section \<open>The constraints of the schema\<close>

text \<open>Primary keys, unique keys and foreign keys of the migrations.\<close>

definition tables_ok :: "sql_conf \<Rightarrow> tables \<Rightarrow> bool" where
  "tables_ok cf t \<longleftrightarrow>
     distinct (map (coll cf \<circ> u_id) (users t)) \<and>
     distinct (map (coll cf \<circ> u_username) (users t)) \<and>
     distinct (map (coll cf \<circ> c_id) (conversations t)) \<and>
     distinct (map (\<lambda>m. (coll cf (m_channel_id m), coll cf (m_user_id m))) (channel_members t)) \<and>
     list_all (\<lambda>m. has_conversation cf t (m_channel_id m) \<and> has_user cf t (m_user_id m)) (channel_members t) \<and>
     distinct (map r_id (messages t)) \<and>
     list_all (\<lambda>m. has_conversation cf t (r_conversation_id m)) (messages t)"

lemmas has_defs = has_user_def has_username_def has_conversation_def has_member_def
  member_matches_def same_def list_ex_iff

lemma same_refl [simp]: "same cf a a"
  by (simp add: same_def)

lemma empty_tables_ok: "tables_ok cf empty_tables"
  by (simp add: tables_ok_def empty_tables_def)

lemma has_mono:
  "set (users t) \<subseteq> set (users t') \<Longrightarrow> has_user cf t i \<Longrightarrow> has_user cf t' i"
  "set (conversations t) \<subseteq> set (conversations t') \<Longrightarrow> has_conversation cf t c \<Longrightarrow> has_conversation cf t' c"
  by (auto simp: has_defs)

text \<open>Users, channels and messages are only ever added; a message row never changes.\<close>

lemma sql_exec_grows:
  "sql_exec cf s t = Some t' \<Longrightarrow>
     set (users t) \<subseteq> set (users t') \<and> set (conversations t) \<subseteq> set (conversations t') \<and>
     set (messages t) \<subseteq> set (messages t')"
  by (cases s) (auto split: if_splits option.splits)

lemma sql_exec_keeps_ok:
  assumes "sql_exec cf s t = Some t'" and "tables_ok cf t"
  shows "tables_ok cf t'"
proof (cases s)
  case (INSERT_users i n c)
  with assms show ?thesis by (auto simp: tables_ok_def has_defs list_all_iff split: if_splits) blast+
next
  case (INSERT_IGNORE_users i n c)
  with assms show ?thesis by (auto simp: tables_ok_def has_defs list_all_iff split: if_splits) blast+
next
  case (INSERT_conversations i ty n b c)
  with assms show ?thesis
    by (auto simp: tables_ok_def has_defs list_all_iff split: if_splits option.splits) blast+
next
  case (INSERT_IGNORE_channel_members c u)
  with assms show ?thesis by (auto simp: tables_ok_def has_defs list_all_iff split: if_splits) fastforce+
next
  case (DELETE_channel_members c u)
  with assms show ?thesis
    by (auto simp: tables_ok_def has_defs list_all_iff intro: distinct_map_filter)
next
  case (INSERT_messages i c x w z)
  with assms show ?thesis by (auto simp: tables_ok_def has_defs list_all_iff split: if_splits) fastforce+
qed

text \<open>What the statements of the program add to membership and lookups.\<close>

lemma has_member_insert:
  "sql_exec cf (INSERT_IGNORE_channel_members c u) t = Some t' \<Longrightarrow>
     has_member cf t' c' u' \<longleftrightarrow> has_member cf t c' u' \<or>
       same cf c c' \<and> same cf u u' \<and> has_conversation cf t c \<and> has_user cf t u"
  by (auto simp: has_defs split: if_splits)

lemma has_member_delete:
  "sql_exec cf (DELETE_channel_members c u) t = Some t' \<Longrightarrow>
     has_member cf t' c' u' \<longleftrightarrow> has_member cf t c' u' \<and> \<not> (same cf c c' \<and> same cf u u')"
  by (auto simp: has_defs)

end
