(* ===== verification/Repository.thy ===== *)
theory Repository
  imports MySQL
begin

text \<open>
  The repositories of \<^verbatim>\<open>src/shared/repository\<close> (users, channels, messages), over a server
  \<open>'d sql_db\<close>: each method sends one statement and turns its result into domain values, with
  the error paths of \<^verbatim>\<open>database/sql\<close>. The contracts of the methods are proved once for every
  server that satisfies \<open>mysql_server\<close>.
\<close>

section \<open>Reading results\<close>

text \<open>
  \<^verbatim>\<open>QueryRowContext(...).Scan(...)\<close>: the error of the query, \<^verbatim>\<open>sql.ErrNoRows\<close> when there is no
  row, else the scanned first row, unless closing the rest of the result fails.
\<close>

definition QueryRowScan :: "(sql_row \<Rightarrow> go_error + 'a) \<Rightarrow> query_result \<Rightarrow> go_error + 'a" where
  "QueryRowScan scan r =
     (case r of
        Inl e \<Rightarrow> Inl e
      | Inr ([], Some e) \<Rightarrow> Inl e
      | Inr ([], None) \<Rightarrow> Inl ErrNoRows
      | Inr (row # rows, fin) \<Rightarrow>
          (case scan row of Inl e \<Rightarrow> Inl e
           | Inr x \<Rightarrow> (case fin of Some e \<Rightarrow> Inl e | None \<Rightarrow> Inr x)))"

text \<open>\<^verbatim>\<open>for rows.Next() { rows.Scan(...); append }; return ..., rows.Err()\<close>\<close>

fun scan_rows :: "(sql_row \<Rightarrow> go_error + 'a) \<Rightarrow> sql_row list \<Rightarrow> go_error + 'a list" where
  "scan_rows scan [] = Inr []"
| "scan_rows scan (row # rows) =
     (case scan row of Inl e \<Rightarrow> Inl e
      | Inr x \<Rightarrow> (case scan_rows scan rows of Inl e \<Rightarrow> Inl e | Inr xs \<Rightarrow> Inr (x # xs)))"

definition QueryScan :: "(sql_row \<Rightarrow> go_error + 'a) \<Rightarrow> query_result \<Rightarrow> go_error + 'a list" where
  "QueryScan scan r =
     (case r of
        Inl e \<Rightarrow> Inl e
      | Inr (rows, fin) \<Rightarrow>
          (case scan_rows scan rows of Inl e \<Rightarrow> Inl e
           | Inr xs \<Rightarrow> (case fin of Some e \<Rightarrow> Inl e | None \<Rightarrow> Inr xs)))"

text \<open>\<^verbatim>\<open>Scan\<close> into the destinations of the code: a \<^verbatim>\<open>NULL\<close> does not fit a \<^verbatim>\<open>time.Time\<close>.\<close>

fun chan_type_string :: "chan_type \<Rightarrow> string" where
  "chan_type_string DM = ''DM''"
| "chan_type_string GROUP = ''GROUP''"

fun scan_user :: "sql_row \<Rightarrow> go_error + user" where
  "scan_user (UserRow i n (Some c)) = Inr \<lparr>user_ID = i, Username = n, user_CreatedAt = c\<rparr>"
| "scan_user r = Inl ErrScan"

fun scan_channel :: "sql_row \<Rightarrow> go_error + channel" where
  "scan_channel (ConvRow i ty n b (Some c)) =
     Inr \<lparr>channel_ID = i, Name = n, Type = chan_type_string ty, CreatedBy = b, channel_CreatedAt = c\<rparr>"
| "scan_channel r = Inl ErrScan"

fun scan_message :: "sql_row \<Rightarrow> go_error + message" where
  "scan_message (MessageRow i c s x (Some w)) =
     Inr \<lparr>msg_ID = i, ConversationID = c, SenderID = s, Content = x, msg_CreatedAt = w\<rparr>"
| "scan_message r = Inl ErrScan"

fun scan_count :: "sql_row \<Rightarrow> go_error + int" where
  "scan_count (CountRow n) = Inr n"
| "scan_count r = Inl ErrScan"

fun scan_id :: "sql_row \<Rightarrow> go_error + string" where
  "scan_id (IdRow i) = Inr i"
| "scan_id r = Inl ErrScan"

section \<open>UserRepository\<close>

definition UserRepository_Create :: "'d sql_db \<Rightarrow> user \<Rightarrow> 'd \<Rightarrow> go_error option \<times> 'd" where
  "UserRepository_Create db u d =
     ExecContext db (INSERT_users (user_ID u) (Username u) (user_CreatedAt u)) d"

definition UserRepository_GetByID :: "'d sql_db \<Rightarrow> string \<Rightarrow> 'd \<Rightarrow> (go_error + user) \<times> 'd" where
  "UserRepository_GetByID db i d =
     (let (r, d) = QueryContext db (SELECT_user i) d
      in (case QueryRowScan scan_user r of
            Inl e \<Rightarrow> if e = ErrNoRows then Inl ErrUserNotFound else Inl e
          | Inr u \<Rightarrow> Inr u, d))"

text \<open>The methods that return \<^verbatim>\<open>(bool, error)\<close>: on an error the count is still 0.\<close>

definition count_positive :: "query_result \<Rightarrow> bool \<times> go_error option" where
  "count_positive r =
     (case QueryRowScan scan_count r of Inl e \<Rightarrow> (False, Some e) | Inr n \<Rightarrow> (n > 0, None))"

definition UsernameExists :: "'d sql_db \<Rightarrow> string \<Rightarrow> 'd \<Rightarrow> (bool \<times> go_error option) \<times> 'd" where
  "UsernameExists db n d = (let (r, d) = QueryContext db (COUNT_users n) d in (count_positive r, d))"

definition UpsertForTest :: "'d sql_db \<Rightarrow> string \<Rightarrow> string \<Rightarrow> gotime \<Rightarrow> 'd \<Rightarrow> go_error option \<times> 'd" where
  "UpsertForTest db i n now d = ExecContext db (INSERT_IGNORE_users i n now) d"

section \<open>ChannelRepository\<close>

definition ChannelRepository_Create :: "'d sql_db \<Rightarrow> channel \<Rightarrow> 'd \<Rightarrow> go_error option \<times> 'd" where
  "ChannelRepository_Create db ch d =
     ExecContext db (INSERT_conversations (channel_ID ch) (Type ch) (Name ch) (CreatedBy ch) (channel_CreatedAt ch)) d"

definition ChannelRepository_GetByID :: "'d sql_db \<Rightarrow> string \<Rightarrow> 'd \<Rightarrow> (go_error + channel) \<times> 'd" where
  "ChannelRepository_GetByID db i d =
     (let (r, d) = QueryContext db (SELECT_conversation i) d
      in (case QueryRowScan scan_channel r of
            Inl e \<Rightarrow> if e = ErrNoRows then Inl ErrChannelNotFound else Inl e
          | Inr ch \<Rightarrow> Inr ch, d))"

definition GetByUser :: "'d sql_db \<Rightarrow> string \<Rightarrow> 'd \<Rightarrow> (go_error + channel list) \<times> 'd" where
  "GetByUser db u d =
     (let (r, d) = QueryContext db (SELECT_conversations_of_user u) d in (QueryScan scan_channel r, d))"

definition GetChannelIDsByUser :: "'d sql_db \<Rightarrow> string \<Rightarrow> 'd \<Rightarrow> (go_error + string list) \<times> 'd" where
  "GetChannelIDsByUser db u d =
     (let (r, d) = QueryContext db (SELECT_channel_ids u) d in (QueryScan scan_id r, d))"

definition AddMember :: "'d sql_db \<Rightarrow> string \<Rightarrow> string \<Rightarrow> 'd \<Rightarrow> go_error option \<times> 'd" where
  "AddMember db c u d = ExecContext db (INSERT_IGNORE_channel_members c u) d"

definition RemoveMember :: "'d sql_db \<Rightarrow> string \<Rightarrow> string \<Rightarrow> 'd \<Rightarrow> go_error option \<times> 'd" where
  "RemoveMember db c u d = ExecContext db (DELETE_channel_members c u) d"

definition IsMember :: "'d sql_db \<Rightarrow> string \<Rightarrow> string \<Rightarrow> 'd \<Rightarrow> (bool \<times> go_error option) \<times> 'd" where
  "IsMember db c u d = (let (r, d) = QueryContext db (COUNT_members c u) d in (count_positive r, d))"

section \<open>MessageRepository\<close>

definition GetMessagesSince :: "'d sql_db \<Rightarrow> string \<Rightarrow> uint64 \<Rightarrow> 'd \<Rightarrow> (go_error + message list) \<times> 'd" where
  "GetMessagesSince db c l d =
     (let (r, d) = QueryContext db (SELECT_messages_since c l) d in (QueryScan scan_message r, d))"

lemmas repository_defs [go_defs] = UserRepository_Create_def UserRepository_GetByID_def UsernameExists_def
  UpsertForTest_def ChannelRepository_Create_def ChannelRepository_GetByID_def GetByUser_def
  GetChannelIDsByUser_def AddMember_def RemoveMember_def IsMember_def GetMessagesSince_def

section \<open>Scanning\<close>

lemma scan_rows_Inr: "scan_rows scan rs = Inr ys \<longleftrightarrow> map scan rs = map Inr ys"
proof (induction rs arbitrary: ys)
  case (Cons r rs)
  then show ?case by (cases ys) (auto simp flip: Cons.IH split: sum.splits)
qed auto

lemma QueryScan_Inr: "QueryScan scan r = Inr ys \<longleftrightarrow> (\<exists>rs. r = Inr (rs, None) \<and> map scan rs = map Inr ys)"
  by (auto simp: QueryScan_def simp flip: scan_rows_Inr split: sum.splits prod.splits option.splits)

lemma QueryRowScan_Inr:
  "QueryRowScan scan r = Inr x \<longleftrightarrow> (\<exists>row rs. r = Inr (row # rs, None) \<and> scan row = Inr x)"
  by (auto simp: QueryRowScan_def split: sum.splits prod.splits list.splits option.splits)

lemma scan_user_iff: "scan_user r = Inr u \<longleftrightarrow> r = UserRow (user_ID u) (Username u) (Some (user_CreatedAt u))"
  by (cases r rule: scan_user.cases) auto

lemma scan_message_iff:
  "scan_message r = Inr m \<longleftrightarrow>
     r = MessageRow (msg_ID m) (ConversationID m) (SenderID m) (Content m) (Some (msg_CreatedAt m))"
  by (cases r rule: scan_message.cases) auto

lemma scan_id_iff: "scan_id r = Inr i \<longleftrightarrow> r = IdRow i"
  by (cases r rule: scan_id.cases) auto

lemma filter_ne_Nil [simp]: "filter P xs \<noteq> [] \<longleftrightarrow> list_ex P xs"
  by (induction xs) auto

text \<open>The message a row of the table stands for, and the rows that can be scanned.\<close>

definition message_of :: "msg_row \<Rightarrow> message" where
  "message_of r = \<lparr>msg_ID = r_id r, ConversationID = r_conversation_id r, SenderID = r_sender_id r,
     Content = r_content r, msg_CreatedAt = the (r_created_at r)\<rparr>"

lemma scan_messages:
  "map scan_message (map msg_cells rs) = map Inr ms \<longleftrightarrow> ms = map message_of rs \<and> (\<forall>r\<in>set rs. r_created_at r \<noteq> None)"
proof (induction rs arbitrary: ms)
  case (Cons r rs)
  have "scan_message (msg_cells r) = Inr m \<longleftrightarrow> m = message_of r \<and> r_created_at r \<noteq> None" for m
    by (auto simp: scan_message_iff msg_cells_def message_of_def)
  then show ?case using Cons.IH by (cases ms) auto
qed simp

text \<open>The channel a row stands for.\<close>

definition channel_of :: "conv_row \<Rightarrow> channel" where
  "channel_of c = \<lparr>channel_ID = c_id c, Name = coalesce (c_name c), Type = chan_type_string (c_type c),
     CreatedBy = coalesce (c_created_by c), channel_CreatedAt = the (c_created_at c)\<rparr>"

lemma scan_conv_cells:
  "scan_channel (conv_cells c) = Inr ch \<longleftrightarrow> ch = channel_of c \<and> c_created_at c \<noteq> None"
  by (cases "c_created_at c") (auto simp: conv_cells_def channel_of_def)

lemma scan_channel_created: "scan_channel r = Inr ch \<Longrightarrow> row_created_at r = Some (channel_CreatedAt ch)"
  by (cases r rule: scan_channel.cases) auto

lemma map_Inr_projr: "map scan rs = map Inr xs \<Longrightarrow> xs = map (projr \<circ> scan) rs"
  by (metis comp_apply map_map list.map_comp map_idI sum.sel(2))

lemma scan_channels:
  assumes "mset rs = mset (map conv_cells cs)" and "map scan_channel rs = map Inr chs"
  shows "mset chs = mset (map channel_of cs)" and "map row_created_at rs = map (Some \<circ> channel_CreatedAt) chs"
proof -
  have ok: "scan_channel (conv_cells c) = Inr (channel_of c)" if "c \<in> set cs" for c
  proof -
    have "conv_cells c \<in> set rs" using that mset_eq_setD [OF assms(1)] by simp
    then have "scan_channel (conv_cells c) \<in> set (map Inr chs)" unfolding assms(2) [symmetric] by simp
    then show ?thesis by (auto simp: scan_conv_cells)
  qed
  have "mset chs = image_mset (projr \<circ> scan_channel) (mset rs)"
    by (subst map_Inr_projr [OF assms(2)]) simp
  also have "\<dots> = mset (map ((projr \<circ> scan_channel) \<circ> conv_cells) cs)"
    by (simp add: assms(1) multiset.map_comp comp_def)
  also have "map ((projr \<circ> scan_channel) \<circ> conv_cells) cs = map channel_of cs"
    using ok by simp
  finally show "mset chs = mset (map channel_of cs)" .
  show "map row_created_at rs = map (Some \<circ> channel_CreatedAt) chs"
    using assms(2)
  proof (induction rs arbitrary: chs)
    case (Cons r rs)
    then show ?case by (cases chs) (auto simp: scan_channel_created)
  qed simp
qed

text \<open>The errors of scanning.\<close>

definition scan_ok :: "(sql_row \<Rightarrow> go_error + 'a) \<Rightarrow> bool" where
  "scan_ok scan \<longleftrightarrow> (\<forall>r e. scan r = Inl e \<longrightarrow> e = ErrScan)"

lemma scan_ok_all [simp]:
  "scan_ok scan_user" "scan_ok scan_channel" "scan_ok scan_message" "scan_ok scan_count" "scan_ok scan_id"
proof -
  show "scan_ok scan_user" by (auto simp: scan_ok_def elim!: scan_user.elims)
  show "scan_ok scan_channel" by (auto simp: scan_ok_def elim!: scan_channel.elims)
  show "scan_ok scan_message" by (auto simp: scan_ok_def elim!: scan_message.elims)
  show "scan_ok scan_count" by (auto simp: scan_ok_def elim!: scan_count.elims)
  show "scan_ok scan_id" by (auto simp: scan_ok_def elim!: scan_id.elims)
qed

lemma scan_okD: "scan_ok scan \<Longrightarrow> scan r = Inl e \<Longrightarrow> e = ErrScan"
  by (simp add: scan_ok_def)

lemma scan_rows_error: "scan_rows scan rs = Inl e \<Longrightarrow> scan_ok scan \<Longrightarrow> e = ErrScan"
  by (induction rs) (auto split: sum.splits simp: scan_ok_def)

section \<open>The contracts of the methods\<close>

text \<open>What a client of the repositories can rely on, for every server that keeps its promises.\<close>

context mysql_server
begin

lemma QueryScan_contract:
  assumes "QueryContext db q d = (r, d')" and "scan_ok scan"
  shows "tabs d' = tabs d"
    and "QueryScan scan r = Inr xs \<Longrightarrow> \<exists>rs. sql_answer cf q (tabs d) rs \<and> map scan rs = map Inr xs"
    and "QueryScan scan r = Inl e \<Longrightarrow> storage_error e"
proof -
  show "tabs d' = tabs d" by (rule query_state [OF assms(1)])
  show "\<exists>rs. sql_answer cf q (tabs d) rs \<and> map scan rs = map Inr xs" if "QueryScan scan r = Inr xs"
    using that assms(1) query_ok unfolding QueryScan_Inr by blast
  show "storage_error e" if "QueryScan scan r = Inl e"
    using that assms query_error rows_error
    by (auto simp: QueryScan_def split: sum.splits prod.splits option.splits dest: scan_rows_error external_storage)
qed

lemma QueryRowScan_contract:
  assumes "QueryContext db q d = (r, d')" and "scan_ok scan"
  shows "tabs d' = tabs d"
    and "QueryRowScan scan r = Inr x \<Longrightarrow> \<exists>row rs. sql_answer cf q (tabs d) (row # rs) \<and> scan row = Inr x"
    and "QueryRowScan scan r = Inl e \<Longrightarrow> storage_error e"
    and "QueryRowScan scan r = Inl ErrNoRows \<Longrightarrow> sql_answer cf q (tabs d) []"
proof -
  show "tabs d' = tabs d" by (rule query_state [OF assms(1)])
  show "\<exists>row rs. sql_answer cf q (tabs d) (row # rs) \<and> scan row = Inr x" if "QueryRowScan scan r = Inr x"
    using that assms(1) query_ok unfolding QueryRowScan_Inr by blast
  show "storage_error e" if "QueryRowScan scan r = Inl e"
    using that assms query_error rows_error
    by (auto simp: QueryRowScan_def split: sum.splits prod.splits option.splits list.splits
        dest: external_storage scan_okD)
  show "sql_answer cf q (tabs d) []" if "QueryRowScan scan r = Inl ErrNoRows"
  proof -
    have "QueryContext db q d \<noteq> (Inl ErrNoRows, d')" "QueryContext db q d \<noteq> (Inr (rs, Some ErrNoRows), d')" for rs
      using query_error [of q d ErrNoRows d'] rows_error [of q d rs ErrNoRows d'] by auto
    with that assms query_ok show ?thesis
      by (auto simp: QueryRowScan_def scan_ok_def split: sum.splits prod.splits option.splits list.splits)
  qed
qed

lemma count_contract:
  assumes "QueryContext db q d = (r, d')" and "count_positive r = (b, e)"
    and "\<And>rs. sql_answer cf q (tabs d) rs \<Longrightarrow> rs = [CountRow (int (length (filter P xs)))]"
  shows "tabs d' = tabs d \<and> (case e of None \<Rightarrow> b = list_ex P xs | Some x \<Rightarrow> \<not> b \<and> storage_error x)"
proof -
  have c: "tabs d' = tabs d"
    "\<And>n. QueryRowScan scan_count r = Inr n \<Longrightarrow> n = int (length (filter P xs))"
    "\<And>x. QueryRowScan scan_count r = Inl x \<Longrightarrow> storage_error x"
    using QueryRowScan_contract [OF assms(1) scan_ok_all(4)] assms(3) by fastforce+
  show ?thesis
    using assms(2) c
    by (auto simp: count_positive_def split: sum.splits option.splits)
qed

lemma IsMember_contract:
  assumes "IsMember db c u d = ((b, e), d')"
  shows "tabs d' = tabs d \<and>
    (case e of None \<Rightarrow> b = has_member cf (tabs d) c u | Some x \<Rightarrow> \<not> b \<and> storage_error x)"
proof -
  obtain r where "QueryContext db (COUNT_members c u) d = (r, d')" "count_positive r = (b, e)"
    using assms by (auto simp: IsMember_def split: prod.splits)
  then show ?thesis unfolding has_member_def by (rule count_contract) simp
qed

lemma UsernameExists_contract:
  assumes "UsernameExists db n d = ((b, e), d')"
  shows "tabs d' = tabs d \<and>
    (case e of None \<Rightarrow> b = has_username cf (tabs d) n | Some x \<Rightarrow> \<not> b \<and> storage_error x)"
proof -
  obtain r where "QueryContext db (COUNT_users n) d = (r, d')" "count_positive r = (b, e)"
    using assms by (auto simp: UsernameExists_def split: prod.splits)
  then show ?thesis unfolding has_username_def by (rule count_contract) simp
qed

lemma GetUserByID_contract:
  assumes "UserRepository_GetByID db i d = (r, d')"
  shows "tabs d' = tabs d"
    and "r = Inr u \<Longrightarrow> \<exists>row\<in>set (users (tabs d)). same cf (u_id row) i \<and> user_ID u = u_id row \<and>
           Username u = u_username row \<and> u_created_at row = Some (user_CreatedAt u)"
    and "r = Inl e \<Longrightarrow> if e = ErrUserNotFound then \<not> has_user cf (tabs d) i else storage_error e"
proof -
  obtain q where q: "QueryContext db (SELECT_user i) d = (q, d')"
    and r: "r = (case QueryRowScan scan_user q of Inl e \<Rightarrow> if e = ErrNoRows then Inl ErrUserNotFound else Inl e
          | Inr u \<Rightarrow> Inr u)"
    using assms by (auto simp: UserRepository_GetByID_def split: prod.splits)
  note c = QueryRowScan_contract [OF q scan_ok_all(1)]
  show "tabs d' = tabs d" by (rule c(1))
  show "\<exists>row\<in>set (users (tabs d)). same cf (u_id row) i \<and> user_ID u = u_id row \<and>
           Username u = u_username row \<and> u_created_at row = Some (user_CreatedAt u)" if "r = Inr u"
  proof -
    from r that have "QueryRowScan scan_user q = Inr u" by (auto split: sum.splits if_splits)
    from c(2) [OF this] obtain row rs where
      rs: "row # rs = map user_cells (filter (\<lambda>u. same cf (u_id u) i) (users (tabs d)))" and row: "scan_user row = Inr u"
      by auto
    have "row \<in> set (map user_cells (filter (\<lambda>u. same cf (u_id u) i) (users (tabs d))))"
      unfolding rs [symmetric] by simp
    with row show ?thesis by (auto simp: scan_user_iff user_cells_def)
  qed
  show "if e = ErrUserNotFound then \<not> has_user cf (tabs d) i else storage_error e" if "r = Inl e"
    using that r c(3,4) by (auto simp: has_user_def list_ex_iff filter_empty_conv split: sum.splits if_splits)
qed

lemma GetChannelByID_contract:
  assumes "ChannelRepository_GetByID db i d = (r, d')"
  shows "tabs d' = tabs d"
    and "r = Inr ch \<Longrightarrow> \<exists>row\<in>set (conversations (tabs d)). same cf (c_id row) i \<and> ch = channel_of row"
    and "r = Inl e \<Longrightarrow> if e = ErrChannelNotFound then \<not> has_conversation cf (tabs d) i else storage_error e"
proof -
  obtain q where q: "QueryContext db (SELECT_conversation i) d = (q, d')"
    and r: "r = (case QueryRowScan scan_channel q of Inl e \<Rightarrow> if e = ErrNoRows then Inl ErrChannelNotFound else Inl e
          | Inr ch \<Rightarrow> Inr ch)"
    using assms by (auto simp: ChannelRepository_GetByID_def split: prod.splits)
  note c = QueryRowScan_contract [OF q scan_ok_all(2)]
  show "tabs d' = tabs d" by (rule c(1))
  show "\<exists>row\<in>set (conversations (tabs d)). same cf (c_id row) i \<and> ch = channel_of row" if "r = Inr ch"
  proof -
    from r that have "QueryRowScan scan_channel q = Inr ch" by (auto split: sum.splits if_splits)
    from c(2) [OF this] obtain row rs where
      rs: "row # rs = map conv_cells (filter (\<lambda>c. same cf (c_id c) i) (conversations (tabs d)))"
      and row: "scan_channel row = Inr ch"
      by auto
    have "row \<in> set (map conv_cells (filter (\<lambda>c. same cf (c_id c) i) (conversations (tabs d))))"
      unfolding rs [symmetric] by simp
    with row show ?thesis by (auto simp: scan_conv_cells)
  qed
  show "if e = ErrChannelNotFound then \<not> has_conversation cf (tabs d) i else storage_error e" if "r = Inl e"
    using that r c(3,4) by (auto simp: has_conversation_def list_ex_iff filter_empty_conv split: sum.splits if_splits)
qed

lemma GetByUser_contract:
  assumes "GetByUser db u d = (r, d')"
  shows "tabs d' = tabs d"
    and "r = Inr chs \<Longrightarrow> mset chs = mset (map channel_of (conversations_of_user cf (tabs d) u)) \<and>
           sorted (map channel_CreatedAt chs)"
    and "r = Inl e \<Longrightarrow> storage_error e"
proof -
  obtain q where q: "QueryContext db (SELECT_conversations_of_user u) d = (q, d')" and r: "r = QueryScan scan_channel q"
    using assms by (auto simp: GetByUser_def split: prod.splits)
  note k = QueryScan_contract [OF q scan_ok_all(2), folded r]
  show "tabs d' = tabs d" by (rule k(1))
  show "mset chs = mset (map channel_of (conversations_of_user cf (tabs d) u)) \<and> sorted (map channel_CreatedAt chs)"
    if "r = Inr chs"
  proof -
    from k(2) [OF that] obtain rs where
      rs: "mset rs = mset (map conv_cells (conversations_of_user cf (tabs d) u))" "map scan_channel rs = map Inr chs"
      and "sorted (map row_created_at rs)" by auto
    with scan_channels [OF rs] have "sorted (map (Some \<circ> channel_CreatedAt) chs)" by simp
    then have "sorted (map channel_CreatedAt chs)" by (simp add: sorted_wrt_map)
    with scan_channels [OF rs] show ?thesis by simp
  qed
  show "storage_error e" if "r = Inl e" using k(3) [OF that] .
qed

lemma GetChannelIDsByUser_contract:
  assumes "GetChannelIDsByUser db u d = (r, d')"
  shows "tabs d' = tabs d"
    and "r = Inr ids \<Longrightarrow> mset ids = mset (map m_channel_id (filter (\<lambda>m. same cf (m_user_id m) u) (channel_members (tabs d))))"
    and "r = Inl e \<Longrightarrow> storage_error e"
proof -
  obtain q where q: "QueryContext db (SELECT_channel_ids u) d = (q, d')" and r: "r = QueryScan scan_id q"
    using assms by (auto simp: GetChannelIDsByUser_def split: prod.splits)
  note k = QueryScan_contract [OF q scan_ok_all(5), folded r]
  show "tabs d' = tabs d" by (rule k(1))
  show "mset ids = mset (map m_channel_id (filter (\<lambda>m. same cf (m_user_id m) u) (channel_members (tabs d))))" if "r = Inr ids"
  proof -
    let ?ms = "filter (\<lambda>m. same cf (m_user_id m) u) (channel_members (tabs d))"
    from k(2) [OF that] obtain rs where "mset rs = mset (map (\<lambda>m. IdRow (m_channel_id m)) ?ms)"
      and "ids = map (projr \<circ> scan_id) rs" by (auto dest: map_Inr_projr)
    then show ?thesis by (simp add: multiset.map_comp comp_def)
  qed
  show "storage_error e" if "r = Inl e" using k(3) [OF that] .
qed

lemma GetMessagesSince_contract:
  assumes "GetMessagesSince db c l d = (r, d')"
  shows "tabs d' = tabs d"
    and "r = Inr ms \<Longrightarrow> ms = map message_of (take 100 (messages_since cf (tabs d) c l))"
    and "r = Inl e \<Longrightarrow> storage_error e"
proof -
  obtain q where q: "QueryContext db (SELECT_messages_since c l) d = (q, d')" and r: "r = QueryScan scan_message q"
    using assms by (auto simp: GetMessagesSince_def split: prod.splits)
  note k = QueryScan_contract [OF q scan_ok_all(3), folded r]
  show "tabs d' = tabs d" by (rule k(1))
  show "ms = map message_of (take 100 (messages_since cf (tabs d) c l))" if "r = Inr ms"
    using k(2) [OF that] scan_messages by auto
  show "storage_error e" if "r = Inl e" using k(3) [OF that] .
qed

end

end
