(* ===== verification/Json.thy ===== *)
theory Json
  imports Domain
begin

text \<open>
  The use the code makes of \<^verbatim>\<open>encoding/json\<close>, on JSON values: which Go value a JSON value decodes to
  (struct fields matched without regard to case, \<^verbatim>\<open>null\<close> a no-op, a value of the wrong kind an
  error, a repeated key overriding) and which JSON value a Go value encodes to. A request body is a
  JSON value, or nothing when it is no JSON text; the text of documents is the subject of \<open>Json_Text\<close>.
  A string is its bytes, a number its literal. The RFC 3339 text of a time is a parameter
  \<open>time_json\<close>, since it depends on the time zone of the host.
\<close>

datatype json = JNull | JBool bool | JNum string | JStr string | JArr "json list" | JObj "(string \<times> json) list"

record time_json =
  time_text :: "gotime \<Rightarrow> string"
  time_parse :: "string \<Rightarrow> gotime option"

section \<open>Decoding\<close>

text \<open>
  Case folding of keys: ASCII letters, and the two code points outside ASCII that fold to one, the
  Kelvin sign and the long s.
\<close>

definition ascii_lower :: "char \<Rightarrow> char" where
  "ascii_lower c = (let n = of_char c in if 65 \<le> n \<and> n \<le> 90 then char_of (n + 32 :: nat) else c)"

fun foldName :: "string \<Rightarrow> string" where
  "foldName (a # b # c # cs) =
     (if a = CHR 0xE2 \<and> b = CHR 0x84 \<and> c = CHR 0xAA
      then CHR ''k'' # foldName cs
      else if a = CHR 0xC5 \<and> b = CHR 0xBF then CHR ''s'' # foldName (c # cs)
      else ascii_lower a # foldName (b # c # cs))"
| "foldName [a, b] =
     (if a = CHR 0xC5 \<and> b = CHR 0xBF then ''s'' else [ascii_lower a, ascii_lower b])"
| "foldName [a] = [ascii_lower a]"
| "foldName [] = []"

text \<open>The value of a struct field after the members of an object; \<open>None\<close> for a wrong kind.\<close>

fun decode_field :: "(json \<Rightarrow> 'a option) \<Rightarrow> string \<Rightarrow> (string \<times> json) list \<Rightarrow> 'a \<Rightarrow> 'a option" where
  "decode_field dec_v name [] acc = Some acc"
| "decode_field dec_v name ((k, v) # kvs) acc =
     (if foldName k = foldName name
      then if v = JNull then decode_field dec_v name kvs acc
           else (case dec_v v of None \<Rightarrow> None | Some x \<Rightarrow> decode_field dec_v name kvs x)
      else decode_field dec_v name kvs acc)"

fun json_string :: "json \<Rightarrow> string option" where
  "json_string (JStr s) = Some s"
| "json_string v = None"

text \<open>\<^verbatim>\<open>strconv.ParseUint(lit, 10, 64)\<close>\<close>

fun json_uint64 :: "json \<Rightarrow> uint64 option" where
  "json_uint64 (JNum lit) =
     (if lit \<noteq> [] \<and> list_all is_digit lit \<and> dec_val lit < 2 ^ 64 then Some (word_of_nat (dec_val lit)) else None)"
| "json_uint64 v = None"

text \<open>\<^verbatim>\<open>[]string\<close>: a \<^verbatim>\<open>null\<close> element leaves the zero value.\<close>

fun json_strings :: "json \<Rightarrow> string list option" where
  "json_strings (JArr vs) =
     those (map (\<lambda>v. if v = JNull then Some [] else json_string v) vs)"
| "json_strings v = None"

text \<open>
  A field of type \<^verbatim>\<open>[]string\<close>: \<^verbatim>\<open>null\<close> sets it to the empty slice. (An object that gives the field twice
  is decoded as if only the last one were there.)
\<close>

fun decode_slice :: "string \<Rightarrow> (string \<times> json) list \<Rightarrow> string list \<Rightarrow> string list option" where
  "decode_slice name [] acc = Some acc"
| "decode_slice name ((k, v) # kvs) acc =
     (if foldName k = foldName name
      then if v = JNull then decode_slice name kvs []
           else (case json_strings v of None \<Rightarrow> None | Some xs \<Rightarrow> decode_slice name kvs xs)
      else decode_slice name kvs acc)"

text \<open>The members a struct is decoded from: \<^verbatim>\<open>null\<close> leaves the struct as it is.\<close>

fun json_members :: "json \<Rightarrow> (string \<times> json) list option" where
  "json_members (JObj kvs) = Some kvs"
| "json_members JNull = Some []"
| "json_members v = None"

text \<open>\<^verbatim>\<open>map[string]uint64\<close>: a \<^verbatim>\<open>null\<close> member stores the zero value; later keys override.\<close>

fun decode_map :: "(string \<times> json) list \<Rightarrow> (string \<rightharpoonup> uint64) \<Rightarrow> (string \<rightharpoonup> uint64) option" where
  "decode_map [] m = Some m"
| "decode_map ((k, v) # kvs) m =
     (if v = JNull then decode_map kvs (m(k \<mapsto> 0))
      else (case json_uint64 v of None \<Rightarrow> None | Some n \<Rightarrow> decode_map kvs (m(k \<mapsto> n))))"

section \<open>Messages on the wire\<close>

text \<open>\<^verbatim>\<open>time.Time.MarshalJSON\<close> refuses a year outside 0 to 9999.\<close>

definition time_in_range :: "gotime \<Rightarrow> bool" where
  "time_in_range t \<longleftrightarrow> - 62167219200 * 1000000000 \<le> t \<and> t < 253402300800 * 1000000000"

definition Marshal_message :: "time_json \<Rightarrow> message \<Rightarrow> go_error + json" where
  "Marshal_message tj m =
     (if time_in_range (msg_CreatedAt m)
      then Inr (JObj [(''id'', JNum (sprintf_d (msg_ID m))),
                      (''conversation_id'', JStr (ConversationID m)),
                      (''sender_id'', JStr (SenderID m)),
                      (''content'', JStr (Content m)),
                      (''created_at'', JStr (time_text tj (msg_CreatedAt m)))])
      else Inl (ErrExternal ''Time.MarshalJSON: year outside of range [0,9999]''))"

definition json_time :: "time_json \<Rightarrow> json \<Rightarrow> gotime option" where
  "json_time tj v = Option.bind (json_string v) (time_parse tj)"

definition Unmarshal_message :: "time_json \<Rightarrow> json \<Rightarrow> message option" where
  "Unmarshal_message tj v = do {
     kvs \<leftarrow> json_members v;
     i \<leftarrow> decode_field json_uint64 ''id'' kvs 0;
     c \<leftarrow> decode_field json_string ''conversation_id'' kvs [];
     s \<leftarrow> decode_field json_string ''sender_id'' kvs [];
     x \<leftarrow> decode_field json_string ''content'' kvs [];
     w \<leftarrow> decode_field (json_time tj) ''created_at'' kvs zero_time;
     Some \<lparr>msg_ID = i, ConversationID = c, SenderID = s, Content = x, msg_CreatedAt = w\<rparr>
   }"

lemma json_uint64_sprintf [simp]: "json_uint64 (JNum (sprintf_d w)) = Some w"
proof -
  have "unat w < 2 ^ 64" using unsigned_less [of w] by simp
  then show ?thesis by (simp add: sprintf_d_def dec_digits)
qed

definition plain_char :: "char \<Rightarrow> bool" where
  "plain_char c \<longleftrightarrow> (of_char c :: nat) < 128 \<and> \<not> (65 \<le> (of_char c :: nat) \<and> (of_char c :: nat) \<le> 90)"

lemma plain_char_fold: "plain_char c \<Longrightarrow> ascii_lower c = c \<and> c \<noteq> CHR 0xE2 \<and> c \<noteq> CHR 0xC5"
  by (auto simp: plain_char_def ascii_lower_def Let_def)

lemma foldName_plain: "list_all plain_char s \<Longrightarrow> foldName s = s"
  by (induction s rule: foldName.induct) (simp_all add: plain_char_fold)

lemma foldName_keys [simp]:
  "foldName ''id'' = ''id''" "foldName ''conversation_id'' = ''conversation_id''"
  "foldName ''sender_id'' = ''sender_id''" "foldName ''content'' = ''content''"
  "foldName ''created_at'' = ''created_at''"
  by (rule foldName_plain, simp add: plain_char_def)+

lemma Unmarshal_Marshal:
  assumes "Marshal_message tj m = Inr v" and "time_parse tj (time_text tj (msg_CreatedAt m)) = Some (msg_CreatedAt m)"
  shows "Unmarshal_message tj v = Some m"
  using assms
  by (auto simp: Marshal_message_def Unmarshal_message_def json_time_def split: if_splits simp del: json_uint64.simps)

end
