(* ===== verification/Json_String.thy ===== *)
theory Json_String
  imports Json
begin

text \<open>
  String literals of JSON, as \<^verbatim>\<open>encoding/json\<close> (Go 1.19) writes and reads them. Strings are bytes; a byte that is not part of a UTF-8
  sequence is replaced by U+FFFD in both directions. Written text is safe in HTML: some characters are escaped that need not be.
  Reading what was written gives the string back, with such bytes replaced, and whatever is read is valid UTF-8.
\<close>

section \<open>UTF-8\<close>

abbreviation byte :: "char \<Rightarrow> nat" where
  "byte c \<equiv> of_char c"

definition cont :: "char \<Rightarrow> bool" where
  "cont c \<longleftrightarrow> 128 \<le> byte c \<and> byte c < 192"

text \<open>The bounds of the second byte for a given first byte.\<close>

definition accept_range :: "nat \<Rightarrow> nat \<times> nat" where
  "accept_range a =
     (if a = 0xE0 then (0xA0, 0xBF) else if a = 0xED then (0x80, 0x9F)
      else if a = 0xF0 then (0x90, 0xBF) else if a = 0xF4 then (0x80, 0x8F) else (0x80, 0xBF))"

definition second_ok :: "char \<Rightarrow> char \<Rightarrow> bool" where
  "second_ok a b \<longleftrightarrow> fst (accept_range (byte a)) \<le> byte b \<and> byte b \<le> snd (accept_range (byte a))"

text \<open>The size of the sequence at the head of a string, 0 when it is none (\<^verbatim>\<open>utf8.DecodeRune\<close>).\<close>

definition rune_len :: "string \<Rightarrow> nat" where
  "rune_len s =
     (case s of
        [] \<Rightarrow> 0
      | a # as \<Rightarrow>
          if byte a < 0x80 then 1
          else if 0xC2 \<le> byte a \<and> byte a \<le> 0xDF then
            (case as of b # bs \<Rightarrow> if cont b then 2 else 0 | _ \<Rightarrow> 0)
          else if 0xE0 \<le> byte a \<and> byte a \<le> 0xEF then
            (case as of b # c # cs \<Rightarrow> if second_ok a b \<and> cont c then 3 else 0 | _ \<Rightarrow> 0)
          else if 0xF0 \<le> byte a \<and> byte a \<le> 0xF4 then
            (case as of b # c # d # ds \<Rightarrow> if second_ok a b \<and> cont c \<and> cont d then 4 else 0 | _ \<Rightarrow> 0)
          else 0)"

text \<open>\<^verbatim>\<open>utf8.AppendRune\<close>; a surrogate or a number beyond U+10FFFF is written as U+FFFD.\<close>

definition utf8 :: "nat \<Rightarrow> string" where
  "utf8 r =
     (if r < 0x80 then [char_of r]
      else if r < 0x800 then [char_of (0xC0 + r div 64), char_of (0x80 + r mod 64)]
      else if 0xD800 \<le> r \<and> r < 0xE000 \<or> 0x10FFFF < r then [CHR 0xEF, CHR 0xBF, CHR 0xBD]
      else if r < 0x10000 then [char_of (0xE0 + r div 4096), char_of (0x80 + r div 64 mod 64), char_of (0x80 + r mod 64)]
      else [char_of (0xF0 + r div 262144), char_of (0x80 + r div 4096 mod 64), char_of (0x80 + r div 64 mod 64), char_of (0x80 + r mod 64)])"

definition replacement :: string where
  "replacement = [CHR 0xEF, CHR 0xBF, CHR 0xBD]"

text \<open>A string with its invalid bytes replaced, and a string without such bytes.\<close>

fun to_valid :: "string \<Rightarrow> string" where
  "to_valid [] = []"
| "to_valid (c # cs) =
     (let n = rune_len (c # cs)
      in if n = 0 then replacement @ to_valid cs else take n (c # cs) @ to_valid (drop (n - 1) cs))"

definition valid_utf8 :: "string \<Rightarrow> bool" where
  "valid_utf8 s \<longleftrightarrow> to_valid s = s"

section \<open>Strings\<close>

definition quote :: char where "quote = CHR 0x22"
definition backslash :: char where "backslash = CHR 0x5C"

definition hex_digit :: "nat \<Rightarrow> char" where
  "hex_digit n = char_of (if n < 10 then 48 + n else 87 + n)"

definition hex_val :: "char \<Rightarrow> nat option" where
  "hex_val c =
     (if 48 \<le> byte c \<and> byte c \<le> 57 then Some (byte c - 48)
      else if 97 \<le> byte c \<and> byte c \<le> 102 then Some (byte c - 87)
      else if 65 \<le> byte c \<and> byte c \<le> 70 then Some (byte c - 55) else None)"

text \<open>The bytes below 128 that \<^verbatim>\<open>json.Marshal\<close> writes as they are (\<^verbatim>\<open>htmlSafeSet\<close>), and the escapes of the others.\<close>

definition html_safe :: "char \<Rightarrow> bool" where
  "html_safe c \<longleftrightarrow> 32 \<le> byte c \<and> byte c < 128 \<and> c \<notin> {quote, backslash, CHR ''<'', CHR ''>'', CHR ''&''}"

definition escape :: "char \<Rightarrow> string" where
  "escape c =
     (if html_safe c then [c]
      else if c = quote \<or> c = backslash then [backslash, c]
      else if byte c = 10 then [backslash, CHR ''n'']
      else if byte c = 13 then [backslash, CHR ''r'']
      else if byte c = 9 then [backslash, CHR ''t'']
      else backslash # ''u00'' @ [hex_digit (byte c div 16), hex_digit (byte c mod 16)])"

fun enc :: "string \<Rightarrow> string" where
  "enc [] = []"
| "enc (c # cs) =
     (if byte c < 128 then escape c @ enc cs
      else let n = rune_len (c # cs)
           in if n = 0 then backslash # ''ufffd'' @ enc cs
              else if take 3 (c # cs) = [CHR 0xE2, CHR 0x80, CHR 0xA8] then backslash # ''u2028'' @ enc (drop 2 cs)
              else if take 3 (c # cs) = [CHR 0xE2, CHR 0x80, CHR 0xA9] then backslash # ''u2029'' @ enc (drop 2 cs)
              else take n (c # cs) @ enc (drop (n - 1) cs))"

fun hex4 :: "string \<Rightarrow> nat option" where
  "hex4 (a # b # c # d # cs) =
     (case (hex_val a, hex_val b, hex_val c, hex_val d) of
        (Some x, Some y, Some z, Some w) \<Rightarrow> Some (((x * 16 + y) * 16 + z) * 16 + w)
      | _ \<Rightarrow> None)"
| "hex4 cs = None"

text \<open>The second half of a surrogate pair.\<close>

definition low_half :: "nat \<Rightarrow> string \<Rightarrow> nat option" where
  "low_half r cs =
     (case cs of
        a # b # es \<Rightarrow>
          if a = backslash \<and> b = CHR ''u'' then
            (case hex4 es of
               Some r' \<Rightarrow> if r < 0xDC00 \<and> 0xDC00 \<le> r' \<and> r' < 0xE000
                         then Some ((r - 0xD800) * 1024 + (r' - 0xDC00) + 0x10000) else None
             | None \<Rightarrow> None)
          else None
      | _ \<Rightarrow> None)"

definition simple_escape :: "char \<Rightarrow> char option" where
  "simple_escape e =
     (if e = quote \<or> e = backslash \<or> e = CHR ''/'' then Some e
      else if e = CHR ''b'' then Some (CHR 0x08) else if e = CHR ''f'' then Some (CHR 0x0C)
      else if e = CHR ''n'' then Some (CHR 0x0A) else if e = CHR ''r'' then Some (CHR 0x0D)
      else if e = CHR ''t'' then Some (CHR 0x09) else None)"

definition prepend :: "string \<Rightarrow> (string \<times> string) option \<Rightarrow> (string \<times> string) option" where
  "prepend xs r = map_option (\<lambda>(ys, rest). (xs @ ys, rest)) r"

text \<open>A string literal after its opening quote: its value and what follows the closing quote.\<close>

function unq :: "string \<Rightarrow> (string \<times> string) option" where
  "unq [] = None"
| "unq (c # cs) =
     (if c = quote then Some ([], cs)
      else if c = backslash then
        (case cs of
           [] \<Rightarrow> None
         | e # es \<Rightarrow>
             if e = CHR ''u'' then
               (case hex4 es of
                  None \<Rightarrow> None
                | Some r \<Rightarrow>
                    if 0xD800 \<le> r \<and> r < 0xE000 then
                      (case low_half r (drop 4 es) of
                         Some r' \<Rightarrow> prepend (utf8 r') (unq (drop 10 es))
                       | None \<Rightarrow> prepend replacement (unq (drop 4 es)))
                    else prepend (utf8 r) (unq (drop 4 es)))
             else (case simple_escape e of
                     None \<Rightarrow> None
                   | Some x \<Rightarrow> prepend [x] (unq es)))
      else if byte c < 32 then None
      else (let n = rune_len (c # cs)
            in if n = 0 then prepend replacement (unq cs) else prepend (take n (c # cs)) (unq (drop (n - 1) cs))))"
  by pat_completeness auto
termination by (relation "measure length") auto

declare unq.simps [simp del] enc.simps [simp del] to_valid.simps [simp del]

section \<open>UTF-8 sequences\<close>

lemma byte_char [simp]: "n < 256 \<Longrightarrow> byte (char_of n) = n"
  by simp

lemma char_byte [simp]: "char_of (byte c) = c"
  by simp

lemma rune_len_ascii [simp]: "byte a < 128 \<Longrightarrow> rune_len (a # as) = 1"
  by (simp add: rune_len_def)

lemma rune_len_le: "rune_len s \<le> length s"
  by (auto simp: rune_len_def split: list.splits)

lemma rune_len_cases:
  assumes "rune_len s \<noteq> 0"
  obtains (one) a as where "s = a # as" "byte a < 0x80"
  | (two) a b bs where "s = a # b # bs" "0xC2 \<le> byte a" "byte a \<le> 0xDF" "cont b"
  | (three) a b c cs where "s = a # b # c # cs" "0xE0 \<le> byte a" "byte a \<le> 0xEF" "second_ok a b" "cont c"
  | (four) a b c d ds where "s = a # b # c # d # ds" "0xF0 \<le> byte a" "byte a \<le> 0xF4" "second_ok a b" "cont c" "cont d"
proof (cases s)
  case Nil
  with assms show thesis by (simp add: rune_len_def)
next
  case (Cons a as)
  show thesis
  proof (cases "byte a < 0x80")
    case True
    with Cons show thesis by (rule one)
  next
    case big: False
    consider "0xC2 \<le> byte a" "byte a \<le> 0xDF" | "0xE0 \<le> byte a" "byte a \<le> 0xEF" | "0xF0 \<le> byte a" "byte a \<le> 0xF4"
      using assms Cons big by (auto simp: rune_len_def split: if_splits)
    then show thesis
    proof cases
      case 1
      obtain b bs where "as = b # bs" "cont b"
        using assms Cons big 1 by (auto simp: rune_len_def split: list.splits if_splits)
      with Cons 1 show thesis by (intro two [of a b bs]) simp_all
    next
      case 2
      obtain b c cs where "as = b # c # cs" "second_ok a b" "cont c"
        using assms Cons big 2 by (auto simp: rune_len_def split: list.splits if_splits)
      with Cons 2 show thesis by (intro three [of a b c cs]) simp_all
    next
      case 3
      obtain b c d ds where "as = b # c # d # ds" "second_ok a b" "cont c" "cont d"
        using assms Cons big 3 by (auto simp: rune_len_def split: list.splits if_splits)
      with Cons 3 show thesis by (intro four [of a b c d ds]) simp_all
    qed
  qed
qed

lemma rune_len_intros [simp]:
  "0xC2 \<le> byte a \<Longrightarrow> byte a \<le> 0xDF \<Longrightarrow> cont b \<Longrightarrow> rune_len (a # b # bs) = 2"
  "0xE0 \<le> byte a \<Longrightarrow> byte a \<le> 0xEF \<Longrightarrow> second_ok a b \<Longrightarrow> cont c \<Longrightarrow> rune_len (a # b # c # cs) = 3"
  "0xF0 \<le> byte a \<Longrightarrow> byte a \<le> 0xF4 \<Longrightarrow> second_ok a b \<Longrightarrow> cont c \<Longrightarrow> cont d \<Longrightarrow> rune_len (a # b # c # d # ds) = 4"
  by (simp_all add: rune_len_def)

lemma rune_len_prefix:
  assumes "rune_len s \<noteq> 0"
  shows "rune_len (take (rune_len s) s @ t) = rune_len s"
  using assms by (cases rule: rune_len_cases) (simp_all add: numeral_2_eq_2 numeral_3_eq_3 eval_nat_numeral)

text \<open>A complete sequence.\<close>

definition rune :: "string \<Rightarrow> bool" where
  "rune xs \<longleftrightarrow> xs \<noteq> [] \<and> rune_len xs = length xs"

lemma rune_append: "rune xs \<Longrightarrow> rune_len (xs @ ys) = length xs"
  using rune_len_prefix [of xs ys] by (simp add: rune_def)

lemma rune_take: "rune_len s \<noteq> 0 \<Longrightarrow> rune (take (rune_len s) s)"
  using rune_len_prefix [of s "[]"] rune_len_le [of s] by (cases s) (auto simp: rune_def)

lemma to_valid_rune: "rune xs \<Longrightarrow> to_valid (xs @ ys) = xs @ to_valid ys"
  using rune_append [of xs ys] by (cases xs) (auto simp: rune_def to_valid.simps Let_def)

lemma utf8_rune3:
  assumes "0x800 \<le> r" "r < 0x10000" "r < 0xD800 \<or> 0xE000 \<le> r"
  shows "rune (utf8 r)"
proof -
  define x a b c where abc: "x = r div 64" "a = x div 64" "b = x mod 64" "c = r mod 64"
  have x: "r = 64 * x + c" "c < 64" "x = 64 * a + b" "b < 64" by (simp_all add: abc)
  with assms have "32 \<le> x" "x < 1024" "x < 864 \<or> 896 \<le> x" by linarith+
  with x have lt: "a < 16" "b < 64" "c < 64" "a = 0 \<Longrightarrow> 32 \<le> b" "a = 13 \<Longrightarrow> b < 32" by linarith+
  then have "second_ok (char_of (0xE0 + a)) (char_of (0x80 + b))" by (auto simp: second_ok_def accept_range_def)
  with lt have "rune [char_of (0xE0 + a), char_of (0x80 + b), char_of (0x80 + c)]" by (simp add: rune_def cont_def)
  moreover have "r div 4096 = a" by (simp add: abc div_mult2_eq [symmetric])
  ultimately show ?thesis using assms by (auto simp: utf8_def abc)
qed

lemma utf8_rune4:
  assumes "0x10000 \<le> r" "r \<le> 0x10FFFF"
  shows "rune (utf8 r)"
proof -
  define x y a b c e where abc: "x = r div 64" "y = x div 64" "a = y div 64" "b = y mod 64" "c = x mod 64" "e = r mod 64"
  have x: "r = 64 * x + e" "e < 64" "x = 64 * y + c" "c < 64" "y = 64 * a + b" "b < 64" by (simp_all add: abc)
  with assms have "1024 \<le> x" "x \<le> 17407" by linarith+
  with x have "16 \<le> y" "y \<le> 271" by linarith+
  with x have lt: "a \<le> 4" "b < 64" "c < 64" "e < 64" "a = 0 \<Longrightarrow> 16 \<le> b" "a = 4 \<Longrightarrow> b < 16" by linarith+
  then have "second_ok (char_of (0xF0 + a)) (char_of (0x80 + b))" by (auto simp: second_ok_def accept_range_def)
  with lt have "rune [char_of (0xF0 + a), char_of (0x80 + b), char_of (0x80 + c), char_of (0x80 + e)]" by (simp add: rune_def cont_def)
  moreover have "r div 262144 = a" "r div 4096 mod 64 = b" by (simp_all add: abc div_mult2_eq [symmetric])
  ultimately show ?thesis using assms by (auto simp: utf8_def abc)
qed

lemma utf8_rune: "rune (utf8 r)"
proof -
  consider "r < 0x80" | "0x80 \<le> r" "r < 0x800" | "0x800 \<le> r" "0xD800 \<le> r \<and> r < 0xE000 \<or> 0x10FFFF < r"
    | "0x800 \<le> r" "r < 0x10000" "r < 0xD800 \<or> 0xE000 \<le> r" | "0x10000 \<le> r" "r \<le> 0x10FFFF" by linarith
  then show ?thesis
  proof cases
    case 1
    then show ?thesis by (simp add: utf8_def rune_def)
  next
    case 2
    then have "2 \<le> r div 64" "r div 64 < 32" by linarith+
    with 2 show ?thesis by (simp add: utf8_def rune_def cont_def)
  next
    case 3
    then have "utf8 r = [CHR 0xEF, CHR 0xBF, CHR 0xBD]" by (auto simp: utf8_def)
    then show ?thesis by (simp add: rune_def cont_def second_ok_def accept_range_def)
  qed (fact utf8_rune3 utf8_rune4)+
qed

lemma replacement_rune: "rune replacement"
  by (simp add: replacement_def rune_def cont_def second_ok_def accept_range_def)

lemma char_rune: "byte c < 128 \<Longrightarrow> rune [c]"
  by (simp add: rune_def)

section \<open>Reading a string that was written\<close>

lemma marks [simp]: "quote \<noteq> backslash" "backslash \<noteq> quote" "quote \<noteq> CHR ''u''" "backslash \<noteq> CHR ''u''"
  by (simp_all add: quote_def backslash_def)

lemma hex_digit_val: "n < 16 \<Longrightarrow> hex_val (hex_digit n) = Some n"
  by (auto simp: hex_val_def hex_digit_def)

lemma unq_plain: "byte c < 128 \<Longrightarrow> 32 \<le> byte c \<Longrightarrow> c \<noteq> quote \<Longrightarrow> c \<noteq> backslash \<Longrightarrow> unq (c # cs) = prepend [c] (unq cs)"
  by (simp add: unq.simps)

lemma unq_u:
  "hex4 es = Some r \<Longrightarrow> r < 0xD800 \<or> 0xE000 \<le> r \<Longrightarrow> unq (backslash # CHR ''u'' # es) = prepend (utf8 r) (unq (drop 4 es))"
  by (auto simp: unq.simps(2) [of backslash] simp del: One_nat_def)

lemma unq_simple: "simple_escape e = Some x \<Longrightarrow> e \<noteq> CHR ''u'' \<Longrightarrow> unq (backslash # e # es) = prepend [x] (unq es)"
  by (simp add: unq.simps(2) [of backslash])

lemma unq_rune:
  assumes "rune xs" and "128 \<le> byte (hd xs)"
  shows "unq (xs @ cs) = prepend xs (unq cs)"
proof -
  obtain c ys where xs: "xs = c # ys" using assms(1) by (cases xs) (auto simp: rune_def)
  have "c \<noteq> quote" "c \<noteq> backslash" using assms(2) by (auto simp: xs quote_def backslash_def)
  with assms(2) rune_append [OF assms(1), of cs] show ?thesis by (simp add: xs unq.simps)
qed

lemma unq_escape:
  assumes "byte c < 128"
  shows "unq (escape c @ cs) = prepend [c] (unq cs)"
proof -
  consider (safe) "html_safe c" | (q) "\<not> html_safe c" "c = quote \<or> c = backslash" | (n) "byte c = 10" | (r) "byte c = 13" | (t) "byte c = 9"
    | (hex) "\<not> html_safe c" "c \<noteq> quote" "c \<noteq> backslash" "byte c \<noteq> 10" "byte c \<noteq> 13" "byte c \<noteq> 9" by blast
  then show ?thesis
  proof cases
    case safe
    then show ?thesis by (auto simp: escape_def html_safe_def unq_plain)
  next
    case q
    then show ?thesis
      by (auto simp: escape_def unq_simple simple_escape_def)
  next
    case n
    then have "c = CHR 0x0A" by (simp add: of_char_eq_iff [symmetric, where 'a = nat])
    then show ?thesis by (simp add: escape_def html_safe_def quote_def backslash_def unq_simple [unfolded backslash_def] simple_escape_def)
  next
    case r
    then have "c = CHR 0x0D" by (simp add: of_char_eq_iff [symmetric, where 'a = nat])
    then show ?thesis by (simp add: escape_def html_safe_def quote_def backslash_def unq_simple [unfolded backslash_def] simple_escape_def)
  next
    case t
    then have "c = CHR 0x09" by (simp add: of_char_eq_iff [symmetric, where 'a = nat])
    then show ?thesis by (simp add: escape_def html_safe_def quote_def backslash_def unq_simple [unfolded backslash_def] simple_escape_def)
  next
    case hex
    let ?h = "[hex_digit (byte c div 16), hex_digit (byte c mod 16)]"
    have "byte c div 16 < 16" using assms by (simp add: div_less_iff_less_mult)
    then have "hex4 (''00'' @ ?h @ cs) = Some (byte c)"
      by (simp add: hex_digit_val) (simp add: hex_val_def)
    from unq_u [OF this] assms hex show ?thesis by (simp add: escape_def utf8_def)
  qed
qed

lemma unq_codes:
  "unq (backslash # ''ufffd'' @ x) = prepend replacement (unq x)"
  "unq (backslash # ''u2028'' @ x) = prepend [CHR 0xE2, CHR 0x80, CHR 0xA8] (unq x)"
  "unq (backslash # ''u2029'' @ x) = prepend [CHR 0xE2, CHR 0x80, CHR 0xA9] (unq x)"
proof -
  have "hex4 (''fffd'' @ x) = Some 0xFFFD" "hex4 (''2028'' @ x) = Some 0x2028" "hex4 (''2029'' @ x) = Some 0x2029"
    by (simp_all add: hex_val_def)
  from this [THEN unq_u] show
    "unq (backslash # ''ufffd'' @ x) = prepend replacement (unq x)"
    "unq (backslash # ''u2028'' @ x) = prepend [CHR 0xE2, CHR 0x80, CHR 0xA8] (unq x)"
    "unq (backslash # ''u2029'' @ x) = prepend [CHR 0xE2, CHR 0x80, CHR 0xA9] (unq x)"
    by (simp_all add: utf8_def replacement_def char_of_def bit_0)
qed

text \<open>The head of a string is written as a text \<open>e\<close> that is read as \<open>xs\<close>, the valid form of the head; \<open>t\<close> is the rest of the string.\<close>

lemma separator_split:
  assumes "take 3 s = [CHR 0xE2, CHR 0x80, z]" and "z = CHR 0xA8 \<or> z = CHR 0xA9"
  obtains t where "s = [CHR 0xE2, CHR 0x80, z] @ t" "rune_len s = 3"
proof
  show s: "s = [CHR 0xE2, CHR 0x80, z] @ drop 3 s" using append_take_drop_id [of 3 s] assms(1) by simp
  show "rune_len s = 3" by (subst s) (use assms(2) in \<open>auto simp: second_ok_def accept_range_def cont_def\<close>)
qed

lemma enc_step:
  assumes "s \<noteq> []"
  obtains e t xs where "enc s = e @ enc t" "to_valid s = xs @ to_valid t" "\<And>y. unq (e @ y) = prepend xs (unq y)" "length t < length s"
proof -
  obtain c cs where s: "s = c # cs" using assms by (cases s) auto
  let ?n = "rune_len (c # cs)"
  consider (ascii) "byte c < 128" | (bad) "\<not> byte c < 128" "?n = 0"
    | (ls) "take 3 (c # cs) = [CHR 0xE2, CHR 0x80, CHR 0xA8]" | (ps) "take 3 (c # cs) = [CHR 0xE2, CHR 0x80, CHR 0xA9]"
    | (plain) "\<not> byte c < 128" "?n \<noteq> 0" "take 3 (c # cs) \<noteq> [CHR 0xE2, CHR 0x80, CHR 0xA8]" "take 3 (c # cs) \<noteq> [CHR 0xE2, CHR 0x80, CHR 0xA9]"
    by blast
  then show thesis
  proof cases
    case ascii
    then show thesis by (intro that [of "escape c" cs "[c]"]) (simp_all add: s enc.simps to_valid.simps unq_escape)
  next
    case bad
    then show thesis
      by (intro that [of "backslash # ''ufffd''" cs replacement]) (use unq_codes(1) in \<open>simp_all add: s enc.simps to_valid.simps\<close>)
  next
    case ls
    then obtain t where "s = [CHR 0xE2, CHR 0x80, CHR 0xA8] @ t" "rune_len s = 3" unfolding s by (rule separator_split) simp
    then show thesis
      by (intro that [of "backslash # ''u2028''" t]) (use unq_codes(2) in \<open>auto simp: enc.simps(2) to_valid.simps(2)\<close>)
  next
    case ps
    then obtain t where "s = [CHR 0xE2, CHR 0x80, CHR 0xA9] @ t" "rune_len s = 3" unfolding s by (rule separator_split) simp
    then show thesis
      by (intro that [of "backslash # ''u2029''" t]) (use unq_codes(3) in \<open>auto simp: enc.simps(2) to_valid.simps(2)\<close>)
  next
    case plain
    show thesis
    proof (rule that)
      show "unq (take ?n (c # cs) @ y) = prepend (take ?n (c # cs)) (unq y)" for y
        by (rule unq_rune) (use rune_take [OF plain(2)] plain in \<open>cases ?n; simp\<close>)+
      show "enc s = take ?n (c # cs) @ enc (drop (?n - 1) cs)" by (simp only: s enc.simps(2) Let_def plain if_False)
    qed (use plain in \<open>simp_all add: s to_valid.simps Let_def\<close>)
  qed
qed

lemma unq_enc: "unq (enc s @ quote # rest) = Some (to_valid s, rest)"
proof (induction "length s" arbitrary: s rule: less_induct)
  case less
  show ?case
  proof (cases "s = []")
    case False
    then obtain e t xs where t: "enc s = e @ enc t" "to_valid s = xs @ to_valid t" "\<And>y. unq (e @ y) = prepend xs (unq y)" "length t < length s"
      by (rule enc_step) blast
    with less [OF t(4)] show ?thesis by (simp add: prepend_def)
  qed (simp add: enc.simps to_valid.simps unq.simps)
qed

text \<open>What is read is valid UTF-8, whatever the text.\<close>

lemma valid_append: "rune xs \<Longrightarrow> valid_utf8 ys \<Longrightarrow> valid_utf8 (xs @ ys)"
  by (simp add: valid_utf8_def to_valid_rune)

lemma prepend_Some: "prepend xs r = Some (x, rest) \<longleftrightarrow> (\<exists>ys. r = Some (ys, rest) \<and> x = xs @ ys)"
  by (auto simp: prepend_def)

lemma simple_escape_rune: "simple_escape e = Some x \<Longrightarrow> rune [x]"
  by (auto simp: simple_escape_def quote_def backslash_def split: if_splits intro!: char_rune)

lemma unq_step:
  assumes "unq s = Some (x, rest)"
  obtains (closed) "s = quote # rest" "x = []"
  | (rune) xs ys t where "rune xs" "x = xs @ ys" "unq t = Some (ys, rest)" "length t < length s"
proof -
  obtain c cs where s: "s = c # cs" using assms by (cases s) (auto simp: unq.simps)
  have step: thesis if "prepend xs (unq t) = Some (x, rest)" "rune xs" "length t < length s" for xs t
    using that rune by (auto simp: prepend_Some)
  consider (q) "c = quote" | (esc) "c \<noteq> quote" "c = backslash" | (char) "c \<noteq> quote" "c \<noteq> backslash" by blast
  then show thesis
  proof cases
    case q
    with assms closed show thesis by (simp add: s unq.simps)
  next
    case esc
    with assms s show thesis
      by (auto simp: unq.simps utf8_rune replacement_rune simple_escape_rune intro: step split: if_splits list.splits option.splits)
  next
    case char
    with assms s rune_take [of s] show thesis
      by (auto simp: unq.simps Let_def replacement_rune intro: step split: if_splits)
  qed
qed

lemma unq_valid: "unq s = Some (x, rest) \<Longrightarrow> valid_utf8 x"
proof (induction "length s" arbitrary: s x rule: less_induct)
  case less
  from less.prems show ?case
    by (cases rule: unq_step) (use less.hyps valid_append in \<open>auto simp: valid_utf8_def to_valid.simps\<close>)
qed

lemma unq_length: "unq s = Some (x, r) \<Longrightarrow> length r < length s"
proof (induction "length s" arbitrary: s x rule: less_induct)
  case less
  from less.prems show ?case by (cases rule: unq_step) (use less.hyps in fastforce)+
qed

end
