(* ===== verification/Json_Text.thy ===== *)
theory Json_Text
  imports Json_String
begin

text \<open>
  The text of JSON documents: \<^verbatim>\<open>json.Marshal\<close> of a value (\<open>render\<close>), \<^verbatim>\<open>json.Unmarshal\<close> (\<open>json_unmarshal\<close>) and the first value of a
  \<^verbatim>\<open>Decoder\<close> (\<open>json_decode\<close>). Reading what was written gives the value back. So the payload that the API server publishes is decoded by the
  WebSocket worker to the message it was made from.
\<close>

section \<open>Values\<close>

text \<open>\<^verbatim>\<open>json.Marshal\<close>: the text of a value, without spaces.\<close>

definition quoted :: "string \<Rightarrow> string" where
  "quoted s = quote # enc s @ [quote]"

fun join :: "string list \<Rightarrow> string" where
  "join [] = []"
| "join [x] = x"
| "join (x # xs) = x @ CHR '','' # join xs"

lemma json_member_size: "(k, v) \<in> set kvs \<Longrightarrow> size v < Suc (size_list (size_prod (\<lambda>x. 0) size) kvs)"
  by (induction kvs) auto

lemma json_element_size: "v \<in> set vs \<Longrightarrow> size v < Suc (size_list size vs)"
  by (induction vs) auto

function render :: "json \<Rightarrow> string" where
  "render JNull = ''null''"
| "render (JBool b) = (if b then ''true'' else ''false'')"
| "render (JNum lit) = lit"
| "render (JStr s) = quoted s"
| "render (JArr vs) = CHR ''['' # join (map render vs) @ '']''"
| "render (JObj kvs) = CHR ''{'' # join (map (\<lambda>(k, v). quoted k @ CHR '':'' # render v) kvs) @ ''}''"
  by pat_completeness auto
termination
  by (relation "measure size") (auto simp: json_member_size json_element_size)

definition is_space :: "char \<Rightarrow> bool" where
  "is_space c \<longleftrightarrow> c = CHR '' '' \<or> byte c = 9 \<or> byte c = 10 \<or> byte c = 13"

definition skip :: "string \<Rightarrow> string" where
  "skip s = dropWhile is_space s"

text \<open>The number at the head of a text: an optional sign, an integer without leading zeros, a fraction, an exponent.\<close>

definition digits1 :: "string \<Rightarrow> (string \<times> string) option" where
  "digits1 s = (let ds = takeWhile is_digit s in if ds = [] then None else Some (ds, dropWhile is_digit s))"

definition int_part :: "string \<Rightarrow> (string \<times> string) option" where
  "int_part s = (case s of c # cs \<Rightarrow> if c = CHR ''0'' then Some (''0'', cs) else digits1 s | [] \<Rightarrow> None)"

definition frac_part :: "string \<Rightarrow> (string \<times> string) option" where
  "frac_part s =
     (case s of c # cs \<Rightarrow> if c = CHR ''.'' then map_option (\<lambda>(ds, r). (c # ds, r)) (digits1 cs) else Some ([], s)
      | [] \<Rightarrow> Some ([], []))"

definition exp_part :: "string \<Rightarrow> (string \<times> string) option" where
  "exp_part s =
     (case s of
        c # cs \<Rightarrow>
          if c = CHR ''e'' \<or> c = CHR ''E'' then
            (let sg = takeWhile (\<lambda>x. x = CHR ''+'' \<or> x = CHR ''-'') (take 1 cs)
             in map_option (\<lambda>(ds, r). (c # sg @ ds, r)) (digits1 (drop (length sg) cs)))
          else Some ([], s)
      | [] \<Rightarrow> Some ([], []))"

definition number :: "string \<Rightarrow> (string \<times> string) option" where
  "number s = do {
     let sg = takeWhile (\<lambda>x. x = CHR ''-'') (take 1 s);
     (i, s) \<leftarrow> int_part (drop (length sg) s);
     (f, s) \<leftarrow> frac_part s;
     (e, s) \<leftarrow> exp_part s;
     Some (sg @ i @ f @ e, s)
   }"

definition literal :: "string \<Rightarrow> json \<Rightarrow> string \<Rightarrow> (json \<times> string) option" where
  "literal lit v s = (if take (length lit) s = lit then Some (v, drop (length lit) s) else None)"

text \<open>
  The value at the head of a text, with what follows it. Objects and arrays nest at most \<open>d\<close> deep; \<open>n\<close> is fuel, and
  twice the length of the text is enough.
\<close>

fun value_at :: "nat \<Rightarrow> nat \<Rightarrow> string \<Rightarrow> (json \<times> string) option"
  and elements_at :: "nat \<Rightarrow> nat \<Rightarrow> string \<Rightarrow> (json list \<times> string) option"
  and members_at :: "nat \<Rightarrow> nat \<Rightarrow> string \<Rightarrow> ((string \<times> json) list \<times> string) option" where
  "value_at 0 d s = None"
| "value_at (Suc n) d s =
     (case skip s of
        [] \<Rightarrow> None
      | c # cs \<Rightarrow>
          if c = quote then map_option (\<lambda>(x, r). (JStr x, r)) (unq cs)
          else if c = CHR ''{'' then
            if d = 0 then None
            else if take 1 (skip cs) = ''}'' then Some (JObj [], drop 1 (skip cs))
            else map_option (\<lambda>(kvs, r). (JObj kvs, r)) (members_at n (d - 1) cs)
          else if c = CHR ''['' then
            if d = 0 then None
            else if take 1 (skip cs) = '']'' then Some (JArr [], drop 1 (skip cs))
            else map_option (\<lambda>(vs, r). (JArr vs, r)) (elements_at n (d - 1) cs)
          else if c = CHR ''t'' then literal ''true'' (JBool True) (c # cs)
          else if c = CHR ''f'' then literal ''false'' (JBool False) (c # cs)
          else if c = CHR ''n'' then literal ''null'' JNull (c # cs)
          else map_option (\<lambda>(lit, r). (JNum lit, r)) (number (c # cs)))"
| "elements_at 0 d s = None"
| "elements_at (Suc n) d s = do {
     (v, r) \<leftarrow> value_at n d s;
     (case skip r of
        [] \<Rightarrow> None
      | c # cs \<Rightarrow>
          if c = CHR '']'' then Some ([v], cs)
          else if c = CHR '','' then map_option (\<lambda>(vs, r). (v # vs, r)) (elements_at n d cs)
          else None)
   }"
| "members_at 0 d s = None"
| "members_at (Suc n) d s =
     (case skip s of
        [] \<Rightarrow> None
      | q # cs \<Rightarrow>
          if q \<noteq> quote then None
          else do {
            (k, r) \<leftarrow> unq cs;
            (case skip r of
               [] \<Rightarrow> None
             | c # cs \<Rightarrow>
                 if c \<noteq> CHR '':'' then None
                 else do {
                   (v, r) \<leftarrow> value_at n d cs;
                   (case skip r of
                      [] \<Rightarrow> None
                    | c # cs \<Rightarrow>
                        if c = CHR ''}'' then Some ([(k, v)], cs)
                        else if c = CHR '','' then map_option (\<lambda>(kvs, r). ((k, v) # kvs, r)) (members_at n d cs)
                        else None)
                 })
          })"

definition maxNestingDepth :: nat where
  "maxNestingDepth = 10000"

text \<open>
  \<^verbatim>\<open>json.Unmarshal\<close> takes a whole document; a \<^verbatim>\<open>Decoder\<close> takes the first value of a stream, and what follows a value other than an
  object or an array has to be separated by a space.
\<close>

definition json_unmarshal :: "string \<Rightarrow> json option" where
  "json_unmarshal t =
     (case value_at (2 * length t + 1) maxNestingDepth t of
        Some (v, r) \<Rightarrow> if skip r = [] then Some v else None
      | None \<Rightarrow> None)"

fun closes_itself :: "json \<Rightarrow> bool" where
  "closes_itself (JObj kvs) = True" | "closes_itself (JArr vs) = True" | "closes_itself v = False"

definition json_decode :: "string \<Rightarrow> json option" where
  "json_decode t =
     (case value_at (2 * length t + 1) maxNestingDepth t of
        Some (v, r) \<Rightarrow> if closes_itself v \<or> r = [] \<or> is_space (hd r) then Some v else None
      | None \<Rightarrow> None)"

section \<open>Fuel\<close>

lemma skip_length: "length (skip s) \<le> length s"
  by (simp add: skip_def length_dropWhile_le)

lemma skip_Cons: "skip s = c # cs \<Longrightarrow> length cs < length s"
  using skip_length [of s] by simp

lemma digits1_length: "digits1 s = Some (x, r) \<Longrightarrow> length r < length s"
proof -
  assume d: "digits1 s = Some (x, r)"
  then have "takeWhile is_digit s \<noteq> []" "r = dropWhile is_digit s" by (auto simp: digits1_def Let_def split: if_splits)
  moreover have "length s = length (takeWhile is_digit s) + length (dropWhile is_digit s)"
    by (metis length_append takeWhile_dropWhile_id)
  ultimately show ?thesis by (cases "takeWhile is_digit s") auto
qed

lemma int_part_length: "int_part s = Some (x, r) \<Longrightarrow> length r < length s"
  by (auto simp: int_part_def dest: digits1_length split: list.splits if_splits)

lemma frac_part_length: "frac_part s = Some (x, r) \<Longrightarrow> length r \<le> length s"
  by (auto simp: frac_part_def dest!: digits1_length split: list.splits if_splits)

lemma exp_part_length: "exp_part s = Some (x, r) \<Longrightarrow> length r \<le> length s"
  by (auto simp: exp_part_def Let_def dest!: digits1_length split: list.splits if_splits)

lemma number_length:
  assumes "number s = Some (x, r)"
  shows "length r < length s"
proof -
  let ?sg = "takeWhile (\<lambda>x. x = CHR ''-'') (take 1 s)"
  obtain i s1 f s2 e where "int_part (drop (length ?sg) s) = Some (i, s1)" "frac_part s1 = Some (f, s2)" "exp_part s2 = Some (e, r)"
    using assms by (auto simp: number_def Let_def bind_eq_Some_conv)
  then show ?thesis using int_part_length frac_part_length exp_part_length by fastforce
qed

lemma literal_length: "literal lit v s = Some (x, r) \<Longrightarrow> lit \<noteq> [] \<Longrightarrow> length r < length s"
  by (cases s) (auto simp: literal_def split: if_splits)

text \<open>What one call of a reader did.\<close>

lemma value_at_cases:
  assumes "value_at (Suc n) d s = Some (v, r)"
  obtains (str) cs x where "skip s = quote # cs" "unq cs = Some (x, r)" "v = JStr x"
  | (none) c cs where "skip s = c # cs" "r = drop 1 (skip cs)" "v = JObj [] \<or> v = JArr []"
  | (obj) c cs kvs where "skip s = c # cs" "members_at n (d - 1) cs = Some (kvs, r)" "v = JObj kvs"
  | (arr) c cs vs where "skip s = c # cs" "elements_at n (d - 1) cs = Some (vs, r)" "v = JArr vs"
  | (lit) w x where "literal w x (skip s) = Some (v, r)" "w \<noteq> []" "x \<in> {JBool True, JBool False, JNull}"
  | (num) x where "number (skip s) = Some (x, r)" "v = JNum x"
proof (cases "skip s")
  case Nil
  with assms show ?thesis by simp
next
  case (Cons c cs)
  note e = assms [unfolded value_at.simps Cons list.case]
  consider "c = quote" | "c \<noteq> quote" "c = CHR ''{''" | "c \<noteq> quote" "c = CHR ''[''"
    | "c \<noteq> quote" "c \<noteq> CHR ''{''" "c \<noteq> CHR ''[''" "c \<in> set ''tfn''" | "c \<noteq> quote" "c \<noteq> CHR ''{''" "c \<noteq> CHR ''[''" "c \<notin> set ''tfn''" by blast
  then show ?thesis
  proof cases
    case 1
    with e Cons show ?thesis by (auto intro: str)
  next
    case 2
    with e Cons show ?thesis by (auto split: if_splits intro: none obj)
  next
    case 3
    with e Cons show ?thesis by (auto split: if_splits intro: none arr)
  next
    case 4
    with e show ?thesis unfolding Cons [symmetric] by (auto split: if_splits intro: lit)
  next
    case 5
    with e show ?thesis unfolding Cons [symmetric] by (auto intro: num)
  qed
qed

lemma elements_at_cases:
  assumes "elements_at (Suc n) d s = Some (vs, r)"
  obtains v r1 c cs ws where "value_at n d s = Some (v, r1)" "skip r1 = c # cs" "vs = v # ws"
    "ws = [] \<and> r = cs \<or> elements_at n d cs = Some (ws, r)"
proof -
  obtain v r1 where v: "value_at n d s = Some (v, r1)" using assms by (auto simp: bind_eq_Some_conv)
  obtain c cs where c: "skip r1 = c # cs" using assms v by (cases "skip r1") auto
  from assms v c have "\<exists>ws. vs = v # ws \<and> (ws = [] \<and> r = cs \<or> elements_at n d cs = Some (ws, r))" by (auto split: if_splits)
  then show ?thesis using that [OF v c] by blast
qed

lemma members_at_cases:
  assumes "members_at (Suc n) d s = Some (kvs, r)"
  obtains q cs k r1 c1 cs1 v r2 c2 cs2 ws where "skip s = q # cs" "unq cs = Some (k, r1)" "skip r1 = c1 # cs1"
    "value_at n d cs1 = Some (v, r2)" "skip r2 = c2 # cs2" "kvs = (k, v) # ws" "ws = [] \<and> r = cs2 \<or> members_at n d cs2 = Some (ws, r)"
proof -
  obtain cs where s: "skip s = quote # cs" using assms by (cases "skip s") (auto split: if_splits)
  obtain k r1 where k: "unq cs = Some (k, r1)" using assms s by (auto simp: bind_eq_Some_conv)
  obtain cs1 where c1: "skip r1 = CHR '':'' # cs1" using assms s k by (cases "skip r1") (auto split: if_splits)
  obtain v r2 where v: "value_at n d cs1 = Some (v, r2)" using assms s k c1 by (auto simp: bind_eq_Some_conv)
  obtain c2 cs2 where c2: "skip r2 = c2 # cs2" using assms s k c1 v by (cases "skip r2") auto
  from assms s k c1 v c2 have "\<exists>ws. kvs = (k, v) # ws \<and> (ws = [] \<and> r = cs2 \<or> members_at n d cs2 = Some (ws, r))"
    by (auto split: if_splits)
  then show ?thesis using that [OF s k c1 v c2] by blast
qed

lemma value_lengths:
  "value_at n d s = Some (v, r) \<Longrightarrow> length r < length s"
  "elements_at n d s = Some (vs, r) \<Longrightarrow> length r < length s"
  "members_at n d s = Some (kvs, r) \<Longrightarrow> length r < length s"
proof (induction n arbitrary: d s v r vs kvs)
  case (Suc n)
  {
    case 1
    then show ?case
    proof (cases rule: value_at_cases)
      case (str cs x)
      then show ?thesis using unq_length [OF str(2)] skip_Cons [OF str(1)] by simp
    next
      case (none c cs)
      then show ?thesis using skip_Cons [of s c cs] skip_length [of cs] by simp
    next
      case (lit w x)
      then show ?thesis using literal_length [of w x "skip s"] skip_length [of s] by simp
    next
      case (num x)
      then show ?thesis using number_length [of "skip s"] skip_length [of s] by simp
    next
      case (obj c cs kvs)
      then show ?thesis using Suc.IH(3) [OF obj(2)] skip_Cons [OF obj(1)] by simp
    next
      case (arr c cs vs)
      then show ?thesis using Suc.IH(2) [OF arr(2)] skip_Cons [OF arr(1)] by simp
    qed
  next
    case 2
    then show ?case
    proof (cases rule: elements_at_cases)
      case (1 v r1 c cs ws)
      have "length cs < length s" using Suc.IH(1) [OF 1(1)] skip_Cons [OF 1(2)] by simp
      then show ?thesis using 1(4) Suc.IH(2) [of d cs ws r] by auto
    qed
  next
    case 3
    then show ?case
    proof (cases rule: members_at_cases)
      case (1 q cs k r1 c1 cs1 v r2 c2 cs2 ws)
      have "length cs2 < length s"
        using skip_Cons [OF 1(1)] unq_length [OF 1(2)] skip_Cons [OF 1(3)] Suc.IH(1) [OF 1(4)] skip_Cons [OF 1(5)] by simp
      then show ?thesis using 1(7) Suc.IH(3) [of d cs2 ws r] by auto
    qed
  }
qed simp_all

text \<open>More fuel than twice the length changes nothing.\<close>

lemma value_at_cong:
  assumes "\<And>cs. length cs < length s \<Longrightarrow> members_at n (d - 1) cs = members_at m (d - 1) cs"
    and "\<And>cs. length cs < length s \<Longrightarrow> elements_at n (d - 1) cs = elements_at m (d - 1) cs"
  shows "value_at (Suc n) d s = value_at (Suc m) d s"
proof (cases "skip s")
  case (Cons c cs)
  have "members_at n (d - 1) cs = members_at m (d - 1) cs" "elements_at n (d - 1) cs = elements_at m (d - 1) cs"
    using assms skip_Cons [OF Cons] by simp_all
  with Cons show ?thesis by simp
qed simp

lemma elements_at_cong:
  assumes "value_at n d s = value_at m d s" and "\<And>cs. length cs < length s \<Longrightarrow> elements_at n d cs = elements_at m d cs"
  shows "elements_at (Suc n) d s = elements_at (Suc m) d s"
proof (cases "value_at m d s")
  case (Some vr)
  obtain v r where vr: "vr = (v, r)" by force
  have "skip r = c # cs \<Longrightarrow> elements_at n d cs = elements_at m d cs" for c cs
    using value_lengths(1) [OF Some [unfolded vr]] skip_Cons [of r c cs] assms(2) by simp
  with assms(1) Some vr show ?thesis by (simp split: list.split)
qed (simp add: assms(1))

lemma members_at_cong:
  assumes "\<And>cs. length cs < length s \<Longrightarrow> value_at n d cs = value_at m d cs"
    and "\<And>cs. length cs < length s \<Longrightarrow> members_at n d cs = members_at m d cs"
  shows "members_at (Suc n) d s = members_at (Suc m) d s"
proof -
  have v: "value_at n d cs1 = value_at m d cs1" if "skip s = q # cs" "unq cs = Some (k, r1)" "skip r1 = c1 # cs1" for q cs k r1 c1 cs1
    using assms(1) skip_Cons [OF that(1)] unq_length [OF that(2)] skip_Cons [OF that(3)] by simp
  have "members_at n d cs2 = members_at m d cs2"
    if "skip s = q # cs" "unq cs = Some (k, r1)" "skip r1 = c1 # cs1" "value_at m d cs1 = Some (x, r2)" "skip r2 = c2 # cs2"
    for q cs k r1 c1 cs1 x r2 c2 cs2
    using assms(2) skip_Cons [OF that(1)] unq_length [OF that(2)] skip_Cons [OF that(3)] value_lengths(1) [OF that(4)] skip_Cons [OF that(5)]
    by simp
  with v show ?thesis by (auto split: list.split intro!: Option.bind_cong)
qed

lemma fuel_enough:
  "2 * length s < n \<Longrightarrow> 2 * length s < m \<Longrightarrow> value_at n d s = value_at m d s"
  "2 * length s + 1 < n \<Longrightarrow> 2 * length s + 1 < m \<Longrightarrow> elements_at n d s = elements_at m d s"
  "2 * length s + 1 < n \<Longrightarrow> 2 * length s + 1 < m \<Longrightarrow> members_at n d s = members_at m d s"
proof (induction n arbitrary: m d s)
  case (Suc n)
  {
    case 1
    then obtain m' where m: "m = Suc m'" by (cases m) auto
    show ?case unfolding m by (rule value_at_cong; rule Suc.IH(2,3); use 1 m in simp)
  next
    case 2
    then obtain m' where m: "m = Suc m'" by (cases m) auto
    show ?case unfolding m by (rule elements_at_cong; rule Suc.IH(1,2); use 2 m in simp)
  next
    case 3
    then obtain m' where m: "m = Suc m'" by (cases m) auto
    show ?case unfolding m by (rule members_at_cong; rule Suc.IH(1,3); use 3 m in simp)
  }
qed simp_all

section \<open>Reading what was written\<close>

text \<open>
  The values the program writes: numbers are natural. Their nesting, and the value with the invalid bytes of its strings replaced.
\<close>

function json_ok :: "json \<Rightarrow> bool" where
  "json_ok (JNum lit) \<longleftrightarrow> lit \<noteq> [] \<and> list_all is_digit lit \<and> (hd lit \<noteq> CHR ''0'' \<or> tl lit = [])"
| "json_ok (JArr vs) \<longleftrightarrow> list_all json_ok vs"
| "json_ok (JObj kvs) \<longleftrightarrow> list_all (\<lambda>(k, v). json_ok v) kvs"
| "json_ok JNull \<longleftrightarrow> True" | "json_ok (JBool b) \<longleftrightarrow> True" | "json_ok (JStr s) \<longleftrightarrow> True"
  by pat_completeness auto
termination
  by (relation "measure size") (auto simp: json_member_size json_element_size)

function nesting :: "json \<Rightarrow> nat" where
  "nesting (JArr vs) = Suc (foldr max (map nesting vs) 0)"
| "nesting (JObj kvs) = Suc (foldr max (map (\<lambda>(k, v). nesting v) kvs) 0)"
| "nesting JNull = 0" | "nesting (JBool b) = 0" | "nesting (JStr s) = 0" | "nesting (JNum lit) = 0"
  by pat_completeness auto
termination
  by (relation "measure size") (auto simp: json_member_size json_element_size)

function sanitize :: "json \<Rightarrow> json" where
  "sanitize (JStr s) = JStr (to_valid s)"
| "sanitize (JArr vs) = JArr (map sanitize vs)"
| "sanitize (JObj kvs) = JObj (map (\<lambda>(k, v). (to_valid k, sanitize v)) kvs)"
| "sanitize JNull = JNull" | "sanitize (JBool b) = JBool b" | "sanitize (JNum lit) = JNum lit"
  by pat_completeness auto
termination
  by (relation "measure size") (auto simp: json_member_size json_element_size)

text \<open>What may follow a number without being taken for a part of it.\<close>

definition follow :: "string \<Rightarrow> bool" where
  "follow x \<longleftrightarrow> (case x of [] \<Rightarrow> True | c # cs \<Rightarrow> \<not> is_digit c \<and> c \<notin> {CHR ''.'', CHR ''e'', CHR ''E''})"

lemma follow_simps [simp]: "follow []" "follow (CHR '','' # x)" "follow (CHR '']'' # x)" "follow (CHR ''}'' # x)"
  by (simp_all add: follow_def is_digit_def)

lemma skip_nonspace [simp]: "\<not> is_space c \<Longrightarrow> skip (c # cs) = c # cs"
  by (simp add: skip_def)

lemma space_marks [simp]: "\<not> is_space quote" "\<not> is_space (CHR ''{'')" "\<not> is_space (CHR ''['')" "\<not> is_space (CHR ''}'')" "\<not> is_space (CHR '']'')"
  "\<not> is_space (CHR '','')" "\<not> is_space (CHR '':'')" "\<not> is_space (CHR ''t'')" "\<not> is_space (CHR ''f'')" "\<not> is_space (CHR ''n'')"
  by (simp_all add: is_space_def quote_def)

lemma digit_marks:
  assumes "is_digit c"
  shows "\<not> is_space c" "c \<noteq> quote" "c \<noteq> CHR ''{''" "c \<noteq> CHR ''[''" "c \<noteq> CHR ''t''" "c \<noteq> CHR ''f''" "c \<noteq> CHR ''n''" "c \<noteq> CHR ''-''"
  using assms by (auto simp: is_digit_def is_space_def quote_def)

lemma number_natural:
  assumes "lit \<noteq> []" "list_all is_digit lit" "hd lit \<noteq> CHR ''0'' \<or> tl lit = []" "follow x"
  shows "number (lit @ x) = Some (lit, x)"
proof -
  obtain c cs where lit: "lit = c # cs" using assms(1) by (cases lit) auto
  have c: "is_digit c" "list_all is_digit cs" using assms(2) by (simp_all add: lit)
  have f: "frac_part x = Some ([], x)" "exp_part x = Some ([], x)"
    using assms(4) by (auto simp: follow_def frac_part_def exp_part_def split: list.splits)
  have w: "takeWhile is_digit (lit @ x) = lit" "dropWhile is_digit (lit @ x) = x"
    using assms(2,4) by (auto simp: follow_def list_all_iff takeWhile_append dropWhile_append split: list.splits)
  have "int_part (lit @ x) = Some (lit, x)"
  proof (cases "c = CHR ''0''")
    case True
    with assms(3) show ?thesis by (simp add: lit int_part_def)
  next
    case False
    with w show ?thesis by (simp add: lit int_part_def digits1_def)
  qed
  with f digit_marks(8) [OF c(1)] show ?thesis by (simp add: number_def lit)
qed

lemma unq_quoted: "value_at (Suc n) d (quoted s @ x) = Some (JStr (to_valid s), x)"
  by (simp add: quoted_def unq_enc)

lemma nesting_le: "v \<in> set vs \<Longrightarrow> nesting v \<le> foldr max (map nesting vs) 0"
  by (induction vs) auto

lemma nesting_member_le: "(k, v) \<in> set kvs \<Longrightarrow> nesting v \<le> foldr max (map (\<lambda>(k, v). nesting v) kvs) 0"
  by (induction kvs) auto

text \<open>A value is read back, with enough fuel and depth.\<close>

definition reads :: "json \<Rightarrow> bool" where
  "reads v \<longleftrightarrow> (\<forall>n d x. json_ok v \<longrightarrow> nesting v \<le> d \<longrightarrow> 2 * length (render v @ x) < n \<longrightarrow> follow x \<longrightarrow>
     value_at n d (render v @ x) = Some (sanitize v, x))"

lemma elements_read:
  assumes "\<And>v. v \<in> set vs \<Longrightarrow> reads v \<and> json_ok v \<and> nesting v \<le> d" and "vs \<noteq> []"
    and "2 * length (join (map render vs) @ CHR '']'' # x) + 1 < n"
  shows "elements_at n d (join (map render vs) @ CHR '']'' # x) = Some (map sanitize vs, x)"
  using assms
proof (induction vs arbitrary: n)
  case (Cons v vs)
  obtain m where n: "n = Suc m" using Cons.prems(3) by (cases n) auto
  have v: "value_at m d (render v @ y) = Some (sanitize v, y)" if "2 * length (render v @ y) < m" "follow y" for y
    using Cons.prems(1) [of v] that by (simp add: reads_def)
  show ?case
  proof (cases vs)
    case Nil
    with Cons.prems(3) v [of "CHR '']'' # x"] show ?thesis by (simp add: n)
  next
    case (Cons w ws)
    let ?y = "join (map render vs) @ CHR '']'' # x"
    have t: "join (map render (v # vs)) @ CHR '']'' # x = render v @ CHR '','' # ?y" by (simp add: Cons)
    have l: "2 * length (render v @ CHR '','' # ?y) < m" using Cons.prems(3) unfolding t n by simp
    then have "2 * length ?y + 1 < m" by simp
    with Cons.IH [of m] Cons.prems(1) Cons have "elements_at m d ?y = Some (map sanitize vs, x)" by simp
    with v [OF l] show ?thesis unfolding t n by simp
  qed
qed simp

lemma members_read:
  assumes "\<And>k v. (k, v) \<in> set kvs \<Longrightarrow> reads v \<and> json_ok v \<and> nesting v \<le> d" and "kvs \<noteq> []"
    and "2 * length (join (map (\<lambda>(k, v). quoted k @ CHR '':'' # render v) kvs) @ CHR ''}'' # x) + 1 < n"
  shows "members_at n d (join (map (\<lambda>(k, v). quoted k @ CHR '':'' # render v) kvs) @ CHR ''}'' # x) =
    Some (map (\<lambda>(k, v). (to_valid k, sanitize v)) kvs, x)"
  using assms
proof (induction kvs arbitrary: n)
  case (Cons kv kvs)
  obtain k v where kv: "kv = (k, v)" by force
  obtain m where n: "n = Suc m" using Cons.prems(3) by (cases n) auto
  have v: "value_at m d (render v @ y) = Some (sanitize v, y)" if "2 * length (render v @ y) < m" "follow y" for y
    using Cons.prems(1) [of k v] kv that by (simp add: reads_def)
  show ?case
  proof (cases kvs)
    case Nil
    have "2 * length (render v @ CHR ''}'' # x) < m" using Cons.prems(3) by (simp add: Nil kv n)
    from v [OF this] show ?thesis by (simp add: n kv Nil quoted_def unq_enc)
  next
    case (Cons w ws)
    let ?y = "join (map (\<lambda>(k, v). quoted k @ CHR '':'' # render v) kvs) @ CHR ''}'' # x"
    have t: "join (map (\<lambda>(k, v). quoted k @ CHR '':'' # render v) (kv # kvs)) @ CHR ''}'' # x =
        quoted k @ CHR '':'' # render v @ CHR '','' # ?y" by (simp add: Cons kv)
    have l: "2 * length (render v @ CHR '','' # ?y) < m" using Cons.prems(3) unfolding t n by simp
    then have f: "2 * length ?y + 1 < m" by simp
    have "members_at m d ?y = Some (map (\<lambda>(k, v). (to_valid k, sanitize v)) kvs, x)"
    proof (rule Cons.IH [OF _ _ f])
      show "reads v \<and> json_ok v \<and> nesting v \<le> d" if "(k, v) \<in> set kvs" for k v
        using that by (intro Cons.prems(1)) auto
    qed (simp add: Cons)
    with v [OF l] show ?thesis unfolding t n by (simp add: quoted_def unq_enc kv)
  qed
qed simp

lemma render_start:
  "json_ok v \<Longrightarrow> \<exists>c cs. render v = c # cs \<and> \<not> is_space c \<and> c \<noteq> CHR '']''"
proof (cases v)
  case (JNum lit)
  assume "json_ok v"
  with JNum obtain c cs where "lit = c # cs" "is_digit c" by (cases lit) auto
  with JNum show ?thesis using digit_marks(1) by (auto simp: is_digit_def)
qed (auto simp: quoted_def is_space_def quote_def)

lemma reads_JNum: "reads (JNum lit)"
  unfolding reads_def
proof (intro allI impI)
  fix n d x
  assume ok: "json_ok (JNum lit)" and n: "2 * length (render (JNum lit) @ x) < n" and f: "follow x"
  obtain c cs where lit: "lit = c # cs" using ok by (cases lit) auto
  obtain m where m: "n = Suc m" using n by (cases n) auto
  have "is_digit c" using ok by (simp add: lit)
  note dm = digit_marks [OF this]
  have "number (c # cs @ x) = Some (c # cs, x)" using number_natural [of lit x] ok f by (simp add: lit)
  with dm show "value_at n d (render (JNum lit) @ x) = Some (sanitize (JNum lit), x)" by (simp add: m lit)
qed

lemma reads_JStr: "reads (JStr s)"
  unfolding reads_def
proof (intro allI impI)
  fix n d x
  assume "2 * length (render (JStr s) @ x) < n"
  then obtain m where "n = Suc m" by (cases n) auto
  then show "value_at n d (render (JStr s) @ x) = Some (sanitize (JStr s), x)"
    using unq_quoted [of m d s x] by (simp del: value_at.simps)
qed

lemma reads_JArr:
  assumes "\<And>v. v \<in> set vs \<Longrightarrow> reads v"
  shows "reads (JArr vs)"
  unfolding reads_def
proof (intro allI impI)
  fix n d x
  assume ok: "json_ok (JArr vs)" and d: "nesting (JArr vs) \<le> d" and n: "2 * length (render (JArr vs) @ x) < n"
  obtain m where m: "n = Suc m" using n by (cases n) auto
  show "value_at n d (render (JArr vs) @ x) = Some (sanitize (JArr vs), x)"
  proof (cases vs)
    case Nil
    with d show ?thesis by (simp add: m quote_def)
  next
    case (Cons w ws)
    have "json_ok w" using ok Cons by simp
    then obtain c cs where c: "render w = c # cs" "\<not> is_space c" "c \<noteq> CHR '']''" using render_start by blast
    then have "\<exists>ds. join (map render vs) @ CHR '']'' # x = c # ds" by (cases ws) (auto simp: Cons)
    with c have s: "take 1 (skip (join (map render vs) @ CHR '']'' # x)) \<noteq> '']''" by auto
    have "elements_at m (d - 1) (join (map render vs) @ CHR '']'' # x) = Some (map sanitize vs, x)"
    proof (rule elements_read)
      show "reads v \<and> json_ok v \<and> nesting v \<le> d - 1" if "v \<in> set vs" for v
        using assms [OF that] ok d that nesting_le [OF that] by (auto simp: list_all_iff)
      show "2 * length (join (map render vs) @ CHR '']'' # x) + 1 < m" using n by (simp add: m)
    qed (simp add: Cons)
    with s d show ?thesis by (simp add: m quote_def)
  qed
qed

lemma reads_JObj:
  assumes "\<And>k v. (k, v) \<in> set kvs \<Longrightarrow> reads v"
  shows "reads (JObj kvs)"
  unfolding reads_def
proof (intro allI impI)
  fix n d x
  assume ok: "json_ok (JObj kvs)" and d: "nesting (JObj kvs) \<le> d" and n: "2 * length (render (JObj kvs) @ x) < n"
  obtain m where m: "n = Suc m" using n by (cases n) auto
  let ?t = "join (map (\<lambda>(k, v). quoted k @ CHR '':'' # render v) kvs) @ CHR ''}'' # x"
  show "value_at n d (render (JObj kvs) @ x) = Some (sanitize (JObj kvs), x)"
  proof (cases kvs)
    case Nil
    with d show ?thesis by (simp add: m quote_def)
  next
    case (Cons w ws)
    then obtain ds where "?t = quote # ds" by (cases w; cases ws) (auto simp: quoted_def)
    then have "take 1 (skip ?t) = [quote]" by simp
    then have s: "take 1 (skip ?t) \<noteq> ''}''" by (simp add: quote_def)
    have "members_at m (d - 1) ?t = Some (map (\<lambda>(k, v). (to_valid k, sanitize v)) kvs, x)"
    proof (rule members_read)
      show "reads v \<and> json_ok v \<and> nesting v \<le> d - 1" if "(k, v) \<in> set kvs" for k v
        using assms [OF that] ok d that nesting_member_le [OF that] by (auto simp: list_all_iff)
      show "2 * length ?t + 1 < m" using n by (simp add: m)
    qed (simp add: Cons)
    with s d show ?thesis by (simp add: m quote_def)
  qed
qed

lemma render_reads: "reads v"
proof (induction v)
  case JNull
  then show ?case by (auto simp: reads_def literal_def quote_def gr0_conv_Suc dest!: gr_implies_not0 [THEN not0_implies_Suc])
next
  case (JBool b)
  then show ?case by (auto simp: reads_def literal_def quote_def dest!: gr_implies_not0 [THEN not0_implies_Suc])
next
  case (JArr vs)
  then show ?case by (rule reads_JArr)
next
  case (JObj kvs)
  show ?case by (rule reads_JObj, rule JObj) auto
qed (rule reads_JNum reads_JStr)+

section \<open>Strings of a text are valid\<close>

function strings_valid :: "json \<Rightarrow> bool" where
  "strings_valid (JStr s) \<longleftrightarrow> valid_utf8 s"
| "strings_valid (JArr vs) \<longleftrightarrow> list_all strings_valid vs"
| "strings_valid (JObj kvs) \<longleftrightarrow> list_all (\<lambda>(k, v). valid_utf8 k \<and> strings_valid v) kvs"
| "strings_valid JNull \<longleftrightarrow> True" | "strings_valid (JBool b) \<longleftrightarrow> True" | "strings_valid (JNum lit) \<longleftrightarrow> True"
  by pat_completeness auto
termination
  by (relation "measure size") (auto simp: json_member_size json_element_size)

lemma literal_valid: "literal lit v s = Some (x, r) \<Longrightarrow> x = v"
  by (auto simp: literal_def split: if_splits)

lemma value_strings_valid:
  "value_at n d s = Some (v, r) \<Longrightarrow> strings_valid v"
  "elements_at n d s = Some (vs, r) \<Longrightarrow> list_all strings_valid vs"
  "members_at n d s = Some (kvs, r) \<Longrightarrow> list_all (\<lambda>(k, v). valid_utf8 k \<and> strings_valid v) kvs"
proof (induction n arbitrary: d s v r vs kvs)
  case (Suc n)
  {
    case 1
    then show ?case
      by (cases rule: value_at_cases) (use Suc.IH(2,3) in \<open>auto dest: unq_valid literal_valid\<close>)
  next
    case 2
    then show ?case by (cases rule: elements_at_cases) (use Suc.IH(1,2) in \<open>fastforce\<close>)
  next
    case 3
    then show ?case by (cases rule: members_at_cases) (use Suc.IH(1,3) unq_valid in \<open>fastforce\<close>)
  }
qed simp_all

lemma decoded_valid: "json_decode t = Some v \<Longrightarrow> strings_valid v" "json_unmarshal t = Some v \<Longrightarrow> strings_valid v"
  by (auto simp: json_decode_def json_unmarshal_def simp del: value_at.simps split: option.splits if_splits dest: value_strings_valid(1))

lemma sanitize_valid: "strings_valid v \<Longrightarrow> sanitize v = v"
proof (induction v)
  case (JArr vs)
  then show ?case by (auto simp: list_all_iff intro: map_idI)
next
  case (JObj kvs)
  have "(\<lambda>(k, v). (to_valid k, sanitize v)) p = p" if "p \<in> set kvs" for p
    using JObj that by (cases p) (auto simp: list_all_iff valid_utf8_def)
  then show ?case by (simp add: map_idI)
qed (simp_all add: valid_utf8_def)

lemma decode_string_valid:
  "list_all (\<lambda>(k, v). valid_utf8 k \<and> strings_valid v) kvs \<Longrightarrow> valid_utf8 acc \<Longrightarrow>
   decode_field json_string name kvs acc = Some x \<Longrightarrow> valid_utf8 x"
proof (induction json_string name kvs acc rule: decode_field.induct)
  case (2 name k v kvs acc)
  have "valid_utf8 y" if "json_string v = Some y" for y using that "2.prems"(1) by (cases v) auto
  with 2 show ?case by (auto split: if_splits option.splits)
qed simp

lemma members_valid:
  "strings_valid v \<Longrightarrow> json_members v = Some kvs \<Longrightarrow> list_all (\<lambda>(k, v). valid_utf8 k \<and> strings_valid v) kvs"
  by (cases v) auto

section \<open>Messages\<close>

lemma ascii_valid: "list_all (\<lambda>c. byte c < 128) s \<Longrightarrow> valid_utf8 s"
  by (induction s) (simp_all add: valid_utf8_def to_valid.simps)

lemma dec_leading: "hd (dec n) = CHR ''0'' \<Longrightarrow> n = 0"
proof (induction n rule: dec.induct)
  case (1 n)
  show ?case
  proof (cases "n < 10")
    case True
    with "1.prems" have "byte (digit_char n) = 48" by (simp add: dec.simps [of n])
    with True show ?thesis by simp
  next
    case False
    with 1 show ?thesis by (simp add: dec.simps [of n])
  qed
qed

lemma id_literal: "json_ok (JNum (sprintf_d w))"
proof -
  have "tl (dec 0) = []" by (simp add: dec.simps)
  then show ?thesis using dec_leading [of "unat w"] by (auto simp: sprintf_d_def dec_digits)
qed

lemma Marshal_message_ok:
  assumes "Marshal_message tj m = Inr v"
  shows "json_ok v" "nesting v \<le> maxNestingDepth"
  using assms id_literal [of "msg_ID m"]
  by (auto simp: Marshal_message_def maxNestingDepth_def split: if_splits)

lemma Marshal_message_valid:
  assumes "Marshal_message tj m = Inr v"
    and "valid_utf8 (ConversationID m)" "valid_utf8 (SenderID m)" "valid_utf8 (Content m)" "valid_utf8 (time_text tj (msg_CreatedAt m))"
  shows "strings_valid v"
proof -
  have "valid_utf8 ''id''" "valid_utf8 ''conversation_id''" "valid_utf8 ''sender_id''" "valid_utf8 ''content''" "valid_utf8 ''created_at''"
    by (rule ascii_valid, simp)+
  with assms show ?thesis by (auto simp: Marshal_message_def split: if_splits)
qed

lemma read_document:
  assumes "json_ok v" and "nesting v \<le> maxNestingDepth" and "follow x"
  shows "value_at (2 * length (render v @ x) + 1) maxNestingDepth (render v @ x) = Some (sanitize v, x)"
  by (rule render_reads [unfolded reads_def, rule_format]) (use assms in simp_all)

lemma unmarshal_render:
  assumes "json_ok v" and "nesting v \<le> maxNestingDepth"
  shows "json_unmarshal (render v) = Some (sanitize v)"
  using read_document [OF assms, of "[]"] by (simp add: json_unmarshal_def skip_def del: value_at.simps)

lemma decode_render:
  assumes "json_ok v" and "nesting v \<le> maxNestingDepth" and "x = [] \<or> closes_itself v \<and> follow x"
  shows "json_decode (render v @ x) = Some (sanitize v)"
proof -
  have "closes_itself v \<Longrightarrow> closes_itself (sanitize v)" by (cases v) simp_all
  then show ?thesis using read_document [OF assms(1,2), of x] assms(3)
    by (auto simp: json_decode_def simp del: value_at.simps)
qed

lemma unmarshal_message_text:
  assumes "Marshal_message tj m = Inr v" and "time_parse tj (time_text tj (msg_CreatedAt m)) = Some (msg_CreatedAt m)"
    and "valid_utf8 (ConversationID m)" "valid_utf8 (SenderID m)" "valid_utf8 (Content m)" "valid_utf8 (time_text tj (msg_CreatedAt m))"
  shows "json_unmarshal (render v) = Some v \<and> Unmarshal_message tj v = Some m"
  using unmarshal_render [OF Marshal_message_ok [OF assms(1)]] sanitize_valid [OF Marshal_message_valid [OF assms(1,3-)]]
    Unmarshal_Marshal [OF assms(1,2)] by simp

section \<open>Properties\<close>



end
