(* ===== verification/Redis.thy ===== *)
theory Redis
  imports Json
begin

text \<open>
  Redis: the cache repository \<^verbatim>\<open>src/shared/repository/cache_repo.go\<close> and the broker
  \<^verbatim>\<open>src/shared/pubsub\<close>. The Redis server is not part of the repository: it is a parameter
  \<open>'r redis\<close> over an unknown state. The locale \<open>redis_server\<close> states what the code relies on:
  \<^verbatim>\<open>SET NX\<close> with a time to live, and publishing to a channel. It is interpreted on a reference
  server with a key table, the log of published messages and a fault schedule.
\<close>

section \<open>The server as a parameter\<close>

text \<open>A duration is in nanoseconds, as \<^verbatim>\<open>time.Duration\<close>; a payload is the JSON value of its text.\<close>

record 'r redis =
  SetNX :: "string \<Rightarrow> string \<Rightarrow> int \<Rightarrow> 'r \<Rightarrow> (go_error + bool) \<times> 'r"
  PublishCmd :: "string \<Rightarrow> json \<Rightarrow> 'r \<Rightarrow> go_error option \<times> 'r"

text \<open>
  The contract, over two observations of a server: \<open>keys r\<close> gives the remaining life of each key
  that exists, \<open>sent r\<close> the messages published so far. A call that reports an error may have
  taken effect all the same.
\<close>

locale redis_server =
  fixes rdb :: "'r redis"
    and keys :: "'r \<Rightarrow> (string \<rightharpoonup> int)"
    and sent :: "'r \<Rightarrow> (string \<times> json) list"
  assumes setnx_true: "SetNX rdb k v ttl r = (Inr True, r') \<Longrightarrow>
            keys r k = None \<and> keys r' = (keys r)(k \<mapsto> ttl) \<and> sent r' = sent r"
    and setnx_false: "SetNX rdb k v ttl r = (Inr False, r') \<Longrightarrow>
            keys r k \<noteq> None \<and> keys r' = keys r \<and> sent r' = sent r"
    and setnx_error: "SetNX rdb k v ttl r = (Inl e, r') \<Longrightarrow>
            external_error e \<and> sent r' = sent r \<and>
            (keys r' = keys r \<or> keys r k = None \<and> keys r' = (keys r)(k \<mapsto> ttl))"
    and publish_ok: "PublishCmd rdb c p r = (None, r') \<Longrightarrow> keys r' = keys r \<and> sent r' = sent r @ [(c, p)]"
    and publish_error: "PublishCmd rdb c p r = (Some e, r') \<Longrightarrow>
            external_error e \<and> keys r' = keys r \<and> (sent r' = sent r \<or> sent r' = sent r @ [(c, p)])"

section \<open>The reference server\<close>

record ref_redis =
  rr_keys :: "(string \<times> int) list"
  rr_sent :: "(string \<times> json) list"
  rr_faults :: "string option list"

definition rr_fault :: "ref_redis \<Rightarrow> go_error option \<times> ref_redis" where
  "rr_fault r = (case rr_faults r of [] \<Rightarrow> (None, r) | f # fs \<Rightarrow> (map_option ErrExternal f, r\<lparr>rr_faults := fs\<rparr>))"

definition rr_setnx :: "string \<Rightarrow> string \<Rightarrow> int \<Rightarrow> ref_redis \<Rightarrow> (go_error + bool) \<times> ref_redis" where
  "rr_setnx k v ttl r =
     (case rr_fault r of
        (Some e, r) \<Rightarrow> (Inl e, r)
      | (None, r) \<Rightarrow> if map_of (rr_keys r) k = None then (Inr True, r\<lparr>rr_keys := (k, ttl) # rr_keys r\<rparr>)
                     else (Inr False, r))"

definition rr_publish :: "string \<Rightarrow> json \<Rightarrow> ref_redis \<Rightarrow> go_error option \<times> ref_redis" where
  "rr_publish c p r =
     (case rr_fault r of
        (Some e, r) \<Rightarrow> (Some e, r)
      | (None, r) \<Rightarrow> (None, r\<lparr>rr_sent := rr_sent r @ [(c, p)]\<rparr>))"

definition ref_rdb :: "ref_redis redis" where
  "ref_rdb = \<lparr>SetNX = rr_setnx, PublishCmd = rr_publish\<rparr>"

lemma rr_fault_keeps: "rr_fault r = (f, r') \<Longrightarrow> rr_keys r' = rr_keys r \<and> rr_sent r' = rr_sent r"
  by (auto simp: rr_fault_def split: list.splits)

lemma rr_fault_external: "rr_fault r = (Some e, r') \<Longrightarrow> external_error e"
  by (auto simp: rr_fault_def split: list.splits)

interpretation rr: redis_server ref_rdb "\<lambda>r. map_of (rr_keys r)" rr_sent
  by unfold_locales
    (auto simp: ref_rdb_def rr_setnx_def rr_publish_def split: prod.splits option.splits if_splits
      dest: rr_fault_keeps rr_fault_external)

section \<open>CacheRepository and RedisBroker\<close>

definition AcquireIdempotencyLock :: "'r redis \<Rightarrow> string \<Rightarrow> int \<Rightarrow> 'r \<Rightarrow> (go_error + bool) \<times> 'r" where
  "AcquireIdempotencyLock rdb key ttl r = SetNX rdb (''idempotency:'' @ key) ''1'' ttl r"

definition Publish :: "'r redis \<Rightarrow> time_json \<Rightarrow> string \<Rightarrow> message \<Rightarrow> 'r \<Rightarrow> go_error option \<times> 'r" where
  "Publish rdb tj channelName payload r =
     (case Marshal_message tj payload of
        Inl e \<Rightarrow> (Some e, r)
      | Inr data \<Rightarrow> PublishCmd rdb channelName data r)"

text \<open>The life of the keys after a time \<open>dt\<close> in which nobody touches them.\<close>

definition age :: "int \<Rightarrow> (string \<rightharpoonup> int) \<Rightarrow> (string \<rightharpoonup> int)" where
  "age dt ks k = (case ks k of None \<Rightarrow> None | Some n \<Rightarrow> if dt < n then Some (n - dt) else None)"

end
