(* ===== verification/Service.thy ===== *)
theory Service
  imports Repository Redis Snowflake
begin

text \<open>
  What the services of \<^verbatim>\<open>src/services/api-server/internal/service\<close> share. The dependencies of a service (database, Redis, clock, time text) are one record; the
  state it runs in is the server states, the process's Snowflake generator and the position in the
  clock. A method that draws an identifier returns \<open>None\<close> if the generator's busy wait never ends.
  The locale \<open>backend\<close> joins the contracts of the two servers; the reference servers give an
  interpretation of it.
\<close>

record ('d, 'r) deps =
  sqldb :: "'d sql_db"
  redis_client :: "'r redis"
  wall_clock :: clock
  tjson :: time_json

record ('d, 'r) world =
  w_db :: 'd
  w_redis :: 'r
  w_gen :: generator
  w_pos :: nat

text \<open>\<^verbatim>\<open>s.snowflake.Next()\<close> and \<^verbatim>\<open>time.Now()\<close> of the process.\<close>

definition next_id :: "('d, 'r) deps \<Rightarrow> ('d, 'r) world \<Rightarrow> (uint64 \<times> ('d, 'r) world) option" where
  "next_id E w = map_option (\<lambda>(i, g, k). (i, w\<lparr>w_gen := g, w_pos := k\<rparr>)) (Next (wall_clock E) (w_gen w) (w_pos w))"

definition time_now :: "('d, 'r) deps \<Rightarrow> ('d, 'r) world \<Rightarrow> gotime \<times> ('d, 'r) world" where
  "time_now E w = (wall_clock E (w_pos w), w\<lparr>w_pos := Suc (w_pos w)\<rparr>)"

lemma next_id_keeps:
  "next_id E w = Some (i, w') \<Longrightarrow> w_db w' = w_db w \<and> w_redis w' = w_redis w"
  by (auto simp: next_id_def)

lemma time_now_keeps: "time_now E w = (t, w') \<Longrightarrow> w_db w' = w_db w \<and> w_redis w' = w_redis w \<and> w_gen w' = w_gen w"
  by (auto simp: time_now_def)

lemma next_id_returns:
  assumes "w_pos w < j" and "lastStamp (w_gen w) <s currentMillis (wall_clock E) j"
  obtains i w' where "next_id E w = Some (i, w')"
  using Next_total [OF assms] by (auto simp: next_id_def)

locale backend = mysql_server "sqldb E" cf tabs + redis_server "redis_client E" keys sent
  for E :: "('d, 'r) deps" and cf :: sql_conf and tabs :: "'d \<Rightarrow> tables"
    and keys :: "'r \<Rightarrow> (string \<rightharpoonup> int)" and sent :: "'r \<Rightarrow> (string \<times> json) list"

definition ref_deps :: "sql_conf \<Rightarrow> clock \<Rightarrow> time_json \<Rightarrow> (ref_server, ref_redis) deps" where
  "ref_deps cf clk tj = \<lparr>sqldb = ref_db cf, redis_client = ref_rdb, wall_clock = clk, tjson = tj\<rparr>"

interpretation rb: backend "ref_deps cf clk tj" cf ref_tables "\<lambda>r. map_of (rr_keys r)" rr_sent for cf clk tj
proof -
  show "backend (ref_deps cf clk tj) cf ref_tables (\<lambda>r. map_of (rr_keys r)) rr_sent"
    unfolding backend_def ref_deps_def by (simp add: ref.mysql_server_axioms rr.redis_server_axioms)
qed

text \<open>A server configuration and a time text for the witnesses: byte-wise collation, no rounding.\<close>

definition plain_conf :: sql_conf where
  "plain_conf = \<lparr>coll = (\<lambda>s. s), ts0 = (\<lambda>t. t), ts3 = (\<lambda>t. t)\<rparr>"

lemma plain_conf_simps: "coll plain_conf s = s" "ts0 plain_conf t = t" "ts3 plain_conf t = t"
  by (simp_all add: plain_conf_def)

definition nano_text :: time_json where
  "nano_text = \<lparr>time_text = (\<lambda>t. dec (nat t)), time_parse = (\<lambda>s. Some (int (dec_val s)))\<rparr>"

text \<open>
  A sample process for the witnesses: reference servers with one user, one channel and one
  membership, and the generator's sample clock.
\<close>

definition sample_tables :: tables where
  "sample_tables =
     \<lparr>users = [\<lparr>u_id = ''7'', u_username = ''alice'', u_created_at = Some 0\<rparr>],
      conversations = [\<lparr>c_id = ''9'', c_type = GROUP, c_name = Some ''eng'', c_created_by = Some ''7'', c_created_at = Some 0\<rparr>],
      channel_members = [\<lparr>m_channel_id = ''9'', m_user_id = ''7''\<rparr>],
      messages = []\<rparr>"

definition sample_deps :: "(ref_server, ref_redis) deps" where
  "sample_deps = ref_deps plain_conf sample_clock nano_text"

definition sample_world :: "(ref_server, ref_redis) world" where
  "sample_world =
     \<lparr>w_db = \<lparr>ref_tables = sample_tables, ref_faults = []\<rparr>,
      w_redis = \<lparr>rr_keys = [], rr_sent = [], rr_faults = []\<rparr>,
      w_gen = \<lparr>workerID = 1, sequence = 0, lastStamp = 0\<rparr>, w_pos = 0\<rparr>"

lemmas sample_defs = sample_tables_def sample_deps_def ref_deps_def sample_world_def plain_conf_def nano_text_def
  ref_db_def ref_exec_def ref_query_def ref_fault_def ref_rdb_def rr_setnx_def rr_publish_def rr_fault_def

lemma sample_backend: "backend sample_deps plain_conf ref_tables (\<lambda>r. map_of (rr_keys r)) rr_sent"
  unfolding sample_deps_def by (rule rb.backend_axioms)

lemma sample_next:
  "Next sample_clock \<lparr>workerID = 1, sequence = 0, lastStamp = 0\<rparr> 0 =
     Some (20975616, \<lparr>workerID = 1, sequence = 0, lastStamp = 5\<rparr>, Suc 0)"
  by (simp add: Next_fresh sample_clock_millis pack_def layout_defs)

lemma sample_now: "sample_clock (Suc 0) = 1704067200005000000"
  by (simp add: sample_clock_def)

lemma sample_id: "sprintf_d 20975616 = ''20975616''"
  by (simp add: sprintf_d_def dec.simps digit_char_def char_of_def bit_0)

end
