(* ===== verification/Message_Service.thy ===== *)
theory Message_Service
  imports Service
begin

text \<open>
  \<^verbatim>\<open>message_service.go\<close>: sending a message. The abstract specification \<open>send_spec\<close> says what one call may do
  to the tables, the idempotency keys and the published messages; every call of the detailed
  \<open>SendMessage\<close> is a step of it, for every pair of servers that keep their contracts. The guarantees of
  the service (persist before publish, members only, at most one send per key) are read off the
  specification.
\<close>

section \<open>SendMessage\<close>

text \<open>
  Step 1 of \<^verbatim>\<open>SendMessage\<close>: without a key the guard is skipped; with one, the lock is taken for 30
  seconds, and an error or a key already there ends the request.
\<close>

definition idempotency_guard :: "('d, 'r) deps \<Rightarrow> string \<Rightarrow> ('d, 'r) world \<Rightarrow> go_error option \<times> ('d, 'r) world" where
  "idempotency_guard E key w =
     (if key \<noteq> []
      then let (acquired, r) = AcquireIdempotencyLock (redis_client E) key (30 * 1000000000) (w_redis w);
               w = w\<lparr>w_redis := r\<rparr>
           in (case acquired of
                 Inl err \<Rightarrow> (Some err, w)
               | Inr ok \<Rightarrow> if \<not> ok then (Some ErrDuplicateRequest, w) else (None, w))
      else (None, w))"

definition SendMessage ::
    "('d, 'r) deps \<Rightarrow> message \<Rightarrow> string \<Rightarrow> ('d, 'r) world \<Rightarrow> (go_error option \<times> message \<times> ('d, 'r) world) option" where
  "SendMessage E msg key w =
     (case idempotency_guard E key w of
        (Some err, w) \<Rightarrow> Some (Some err, msg, w)
      | (None, w) \<Rightarrow>
          (let ((isMember, err), d) = IsMember (sqldb E) (ConversationID msg) (SenderID msg) (w_db w);
               w = w\<lparr>w_db := d\<rparr>
           in if err \<noteq> None then Some (err, msg, w)
              else if \<not> isMember then Some (Some ErrNotMember, msg, w)
              else do {
                (i, w) \<leftarrow> next_id E w;
                let (now, w) = time_now E w;
                let msg = msg\<lparr>msg_ID := i, msg_CreatedAt := now\<rparr>;
                let (err, d) = ExecContext (sqldb E)
                      (INSERT_messages (msg_ID msg) (ConversationID msg) (SenderID msg) (Content msg) (msg_CreatedAt msg))
                      (w_db w);
                let w = w\<lparr>w_db := d\<rparr>;
                (if err \<noteq> None then Some (err, msg, w)
                 else let (err, r) = Publish (redis_client E) (tjson E) (''chat:room:'' @ ConversationID msg) msg (w_redis w)
                      in Some (err, msg, w\<lparr>w_redis := r\<rparr>))
              }))"

section \<open>Abstract specification\<close>

record board =
  b_tabs :: tables
  b_keys :: "string \<rightharpoonup> int"
  b_sent :: "(string \<times> json) list"

definition lock_name :: "string \<Rightarrow> string" where
  "lock_name key = ''idempotency:'' @ key"

definition lock_ttl :: int where
  "lock_ttl = 30 * 1000000000"

text \<open>Taking the lock: nothing without a key, else the key must be free and lives for 30 seconds.\<close>

definition locked :: "string \<Rightarrow> board \<Rightarrow> board \<Rightarrow> bool" where
  "locked key b b' \<longleftrightarrow>
     (if key = [] then b' = b
      else b_keys b (lock_name key) = None \<and> b' = b\<lparr>b_keys := (b_keys b)(lock_name key \<mapsto> lock_ttl)\<rparr>)"

definition insert_stmt :: "message \<Rightarrow> sql_stmt" where
  "insert_stmt m = INSERT_messages (msg_ID m) (ConversationID m) (SenderID m) (Content m) (msg_CreatedAt m)"

definition published :: "time_json \<Rightarrow> message \<Rightarrow> board \<Rightarrow> board \<Rightarrow> bool" where
  "published tj m b b' \<longleftrightarrow> (\<exists>v. Marshal_message tj m = Inr v \<and>
     b' = b\<lparr>b_sent := b_sent b @ [(''chat:room:'' @ ConversationID m, v)]\<rparr>)"

inductive send_spec :: "sql_conf \<Rightarrow> time_json \<Rightarrow> string \<Rightarrow> message \<Rightarrow> board \<Rightarrow> go_error option \<Rightarrow> board \<Rightarrow> bool"
  for cf tj key m where
  duplicate: "key \<noteq> [] \<Longrightarrow> b_keys b (lock_name key) \<noteq> None \<Longrightarrow>
    send_spec cf tj key m b (Some ErrDuplicateRequest) b"
| lock_failed: "key \<noteq> [] \<Longrightarrow> external_error e \<Longrightarrow> b' = b \<or> locked key b b' \<Longrightarrow>
    send_spec cf tj key m b (Some e) b'"
| check_failed: "locked key b b1 \<Longrightarrow> storage_error e \<Longrightarrow> send_spec cf tj key m b (Some e) b1"
| not_member: "locked key b b1 \<Longrightarrow> \<not> has_member cf (b_tabs b) (ConversationID m) (SenderID m) \<Longrightarrow>
    send_spec cf tj key m b (Some ErrNotMember) b1"
| insert_failed: "locked key b b1 \<Longrightarrow> has_member cf (b_tabs b) (ConversationID m) (SenderID m) \<Longrightarrow>
    external_error e \<Longrightarrow> t = b_tabs b \<or> sql_exec cf (insert_stmt m) (b_tabs b) = Some t \<Longrightarrow>
    send_spec cf tj key m b (Some e) (b1\<lparr>b_tabs := t\<rparr>)"
| publish_failed: "locked key b b1 \<Longrightarrow> has_member cf (b_tabs b) (ConversationID m) (SenderID m) \<Longrightarrow>
    sql_exec cf (insert_stmt m) (b_tabs b) = Some t \<Longrightarrow> external_error e \<Longrightarrow>
    b2 = b1\<lparr>b_tabs := t\<rparr> \<or> published tj m (b1\<lparr>b_tabs := t\<rparr>) b2 \<Longrightarrow>
    send_spec cf tj key m b (Some e) b2"
| accepted: "locked key b b1 \<Longrightarrow> has_member cf (b_tabs b) (ConversationID m) (SenderID m) \<Longrightarrow>
    sql_exec cf (insert_stmt m) (b_tabs b) = Some t \<Longrightarrow> published tj m (b1\<lparr>b_tabs := t\<rparr>) b2 \<Longrightarrow>
    send_spec cf tj key m b None b2"

inductive_cases send_specE: "send_spec cf tj key m b r b'"
inductive_cases send_spec_NoneE: "send_spec cf tj key m b None b'"

text \<open>The limits of the columns a message goes to.\<close>

definition message_fits :: "message \<Rightarrow> bool" where
  "message_fits m \<longleftrightarrow> length (ConversationID m) \<le> 64 \<and> length (SenderID m) \<le> 64 \<and> length (Content m) \<le> 65535"

lemma locked_keeps: "locked key b b' \<Longrightarrow> b_tabs b' = b_tabs b \<and> b_sent b' = b_sent b"
  by (auto simp: locked_def split: if_splits)

lemma published_keeps:
  "published tj m b b' \<Longrightarrow> b_tabs b' = b_tabs b \<and> b_keys b' = b_keys b \<and>
     (\<exists>v. Marshal_message tj m = Inr v \<and> b_sent b' = b_sent b @ [(''chat:room:'' @ ConversationID m, v)])"
  by (auto simp: published_def)

text \<open>What the specification guarantees, whatever implements it.\<close>

lemma insert_stmt_exec:
  "sql_exec cf (insert_stmt m) t = Some t' \<Longrightarrow>
     t' = t\<lparr>messages := messages t @ [\<lparr>r_id = msg_ID m, r_conversation_id = ConversationID m,
       r_sender_id = SenderID m, r_content = Content m, r_created_at = Some (ts3 cf (msg_CreatedAt m))\<rparr>]\<rparr> \<and>
     msg_ID m \<notin> r_id ` set (messages t)"
  by (auto simp: insert_stmt_def split: if_splits)

lemma spec_accepted:
  "send_spec cf tj key m b None b' \<Longrightarrow>
     has_member cf (b_tabs b) (ConversationID m) (SenderID m) \<and>
     sql_exec cf (insert_stmt m) (b_tabs b) = Some (b_tabs b') \<and>
     (\<exists>v. Marshal_message tj m = Inr v \<and> b_sent b' = b_sent b @ [(''chat:room:'' @ ConversationID m, v)])"
  by (erule send_spec_NoneE) (auto dest!: locked_keeps published_keeps)

lemma spec_persists:
  "send_spec cf tj key m b r b' \<Longrightarrow> b_sent b' \<noteq> b_sent b \<Longrightarrow> sql_exec cf (insert_stmt m) (b_tabs b) = Some (b_tabs b')"
  by (cases rule: send_spec.cases) (auto dest!: locked_keeps published_keeps)

lemma spec_rejects:
  "send_spec cf tj key m b r b' \<Longrightarrow> \<not> has_member cf (b_tabs b) (ConversationID m) (SenderID m) \<Longrightarrow>
     b_tabs b' = b_tabs b \<and> b_sent b' = b_sent b \<and>
     (\<exists>e. r = Some e \<and> (e = ErrNotMember \<or> e = ErrDuplicateRequest \<or> storage_error e))"
  by (cases rule: send_spec.cases) (auto dest!: locked_keeps)

lemma spec_takes_key:
  "send_spec cf tj key m b r b' \<Longrightarrow> key \<noteq> [] \<Longrightarrow> r = None \<or> r = Some ErrNotMember \<Longrightarrow>
     b_keys b' (lock_name key) = Some lock_ttl"
  by (cases rule: send_spec.cases) (auto simp: locked_def dest!: published_keeps)

lemma spec_duplicate:
  "send_spec cf tj key m b r b' \<Longrightarrow> key \<noteq> [] \<Longrightarrow> b_keys b (lock_name key) \<noteq> None \<Longrightarrow>
     b_tabs b' = b_tabs b \<and> b_sent b' = b_sent b \<and>
     (\<exists>e. r = Some e \<and> (e = ErrDuplicateRequest \<or> external_error e))"
  by (cases rule: send_spec.cases) (auto simp: locked_def)

lemma spec_fresh:
  "send_spec cf tj key m b r b' \<Longrightarrow> key = [] \<or> b_keys b (lock_name key) = None \<Longrightarrow> r \<noteq> Some ErrDuplicateRequest"
  by (cases rule: send_spec.cases) auto

section \<open>SendMessage refines the specification\<close>

text \<open>The part of the state the specification speaks of, given the observations of the servers.\<close>

definition board_of ::
    "('d \<Rightarrow> tables) \<Rightarrow> ('r \<Rightarrow> (string \<rightharpoonup> int)) \<Rightarrow> ('r \<Rightarrow> (string \<times> json) list) \<Rightarrow> ('d, 'r) world \<Rightarrow> board" where
  "board_of tabs keys sent w = \<lparr>b_tabs = tabs (w_db w), b_keys = keys (w_redis w), b_sent = sent (w_redis w)\<rparr>"

lemma board_of_simps:
  "b_tabs (board_of tabs keys sent w) = tabs (w_db w)"
  "b_keys (board_of tabs keys sent w) = keys (w_redis w)"
  "b_sent (board_of tabs keys sent w) = sent (w_redis w)"
  by (simp_all add: board_of_def)

lemma guard_no_key: "idempotency_guard E [] w = (None, w)"
  by (simp add: idempotency_guard_def)

lemma guard_key:
  assumes "key \<noteq> []"
  shows "idempotency_guard E key w =
     (case SetNX (redis_client E) (lock_name key) ''1'' lock_ttl (w_redis w) of
        (Inl e, r) \<Rightarrow> (Some e, w\<lparr>w_redis := r\<rparr>)
      | (Inr ok, r) \<Rightarrow> (if ok then None else Some ErrDuplicateRequest, w\<lparr>w_redis := r\<rparr>))"
  using assms
  by (simp add: idempotency_guard_def AcquireIdempotencyLock_def lock_name_def lock_ttl_def Let_def
      split: prod.split sum.split)

lemma guard_keeps:
  "idempotency_guard E key w = (r, w') \<Longrightarrow> w_db w' = w_db w \<and> w_gen w' = w_gen w \<and> w_pos w' = w_pos w"
  by (cases "key = []") (auto simp: guard_no_key guard_key split: prod.splits sum.splits)

text \<open>After the guard and a positive membership check, the rest of \<open>SendMessage\<close>.\<close>

definition deliver :: "('d, 'r) deps \<Rightarrow> message \<Rightarrow> ('d, 'r) world \<Rightarrow> go_error option \<times> ('d, 'r) world" where
  "deliver E m w =
     (case ExecContext (sqldb E) (insert_stmt m) (w_db w) of
        (Some e, d) \<Rightarrow> (Some e, w\<lparr>w_db := d\<rparr>)
      | (None, d) \<Rightarrow>
          (let (err, r) = Publish (redis_client E) (tjson E) (''chat:room:'' @ ConversationID m) m (w_redis w)
           in (err, w\<lparr>w_db := d, w_redis := r\<rparr>)))"

lemma SendMessage_cases:
  assumes "SendMessage E msg key w = Some (r, m, w')"
  obtains
    (guarded) e where "idempotency_guard E key w = (Some e, w')" "r = Some e" "m = msg"
  | (check_failed) w1 b e d where "idempotency_guard E key w = (None, w1)"
      "IsMember (sqldb E) (ConversationID msg) (SenderID msg) (w_db w1) = ((b, Some e), d)"
      "w' = w1\<lparr>w_db := d\<rparr>" "r = Some e" "m = msg"
  | (not_member) w1 d where "idempotency_guard E key w = (None, w1)"
      "IsMember (sqldb E) (ConversationID msg) (SenderID msg) (w_db w1) = ((False, None), d)"
      "w' = w1\<lparr>w_db := d\<rparr>" "r = Some ErrNotMember" "m = msg"
  | (delivered) w1 d i w2 w3 now where "idempotency_guard E key w = (None, w1)"
      "IsMember (sqldb E) (ConversationID msg) (SenderID msg) (w_db w1) = ((True, None), d)"
      "next_id E (w1\<lparr>w_db := d\<rparr>) = Some (i, w2)" "time_now E w2 = (now, w3)"
      "m = msg\<lparr>msg_ID := i, msg_CreatedAt := now\<rparr>" "deliver E m w3 = (r, w')"
proof -
  obtain g w1 where g: "idempotency_guard E key w = (g, w1)" by force
  obtain b x d where c: "IsMember (sqldb E) (ConversationID msg) (SenderID msg) (w_db w1) = ((b, x), d)"
    by (metis surj_pair)
  consider (1) e where "g = Some e" | (2) e where "g = None" "x = Some e" | (3) "g = None" "x = None" "\<not> b"
    | (4) "g = None" "x = None" "b" by force
  then show thesis
  proof cases
    case 1
    with assms g show ?thesis by (intro guarded) (auto simp: SendMessage_def)
  next
    case 2
    with assms g c show ?thesis by (intro check_failed) (auto simp: SendMessage_def)
  next
    case 3
    with assms g c show ?thesis by (intro not_member) (auto simp: SendMessage_def)
  next
    case 4
    with assms g c obtain i w2 where n: "next_id E (w1\<lparr>w_db := d\<rparr>) = Some (i, w2)"
      by (auto simp: SendMessage_def bind_eq_Some_conv)
    obtain now w3 where t: "time_now E w2 = (now, w3)" by force
    let ?m = "msg\<lparr>msg_ID := i, msg_CreatedAt := now\<rparr>"
    have "SendMessage E msg key w = (case deliver E ?m w3 of (r, w') \<Rightarrow> Some (r, ?m, w'))"
      using 4 g c n t
      by (simp add: SendMessage_def deliver_def insert_stmt_def Let_def split: prod.split option.split)
    with assms have "m = ?m" "deliver E m w3 = (r, w')" by (auto split: prod.splits)
    with 4 g c n t show ?thesis by (intro delivered [OF _ _ n t]) simp_all
  qed
qed

context backend
begin

lemma guard_spec:
  assumes "idempotency_guard E key w = (r, w')"
  shows "r = None \<Longrightarrow> locked key (board_of tabs keys sent w) (board_of tabs keys sent w')"
    and "r = Some e \<Longrightarrow> send_spec cf tj key m (board_of tabs keys sent w) (Some e) (board_of tabs keys sent w')"
proof -
  show "locked key (board_of tabs keys sent w) (board_of tabs keys sent w')" if "r = None"
    using assms that
    by (cases "key = []")
      (auto simp: guard_no_key guard_key locked_def board_of_def split: if_splits prod.splits sum.splits dest!: setnx_true)
  show "send_spec cf tj key m (board_of tabs keys sent w) (Some e) (board_of tabs keys sent w')" if "r = Some e"
  proof -
    from assms that have key: "key \<noteq> []" by (auto simp: guard_no_key)
    obtain a r1 where s: "SetNX (redis_client E) (lock_name key) ''1'' lock_ttl (w_redis w) = (a, r1)" by force
    with assms that key have w': "w' = w\<lparr>w_redis := r1\<rparr>" and e: "a = Inl e \<or> a = Inr False \<and> e = ErrDuplicateRequest"
      by (auto simp: guard_key split: if_splits sum.splits)
    from e show ?thesis
    proof
      assume "a = Inl e"
      with setnx_error s have "external_error e"
        "board_of tabs keys sent w' = board_of tabs keys sent w \<or>
         locked key (board_of tabs keys sent w) (board_of tabs keys sent w')"
        using key by (force simp: board_of_def w' locked_def)+
      then show ?thesis using key by (intro send_spec.lock_failed)
    next
      assume "a = Inr False \<and> e = ErrDuplicateRequest"
      with setnx_false s key show ?thesis
        by (auto simp: board_of_def w' intro!: send_spec.duplicate)
    qed
  qed
qed

lemma deliver_spec:
  assumes "deliver E m w = (r, w')" and "message_fits m"
    and "locked key b (board_of tabs keys sent w)" and "has_member cf (b_tabs b) (ConversationID m) (SenderID m)"
  shows "send_spec cf (tjson E) key m b r (board_of tabs keys sent w')"
proof -
  let ?b = "board_of tabs keys sent"
  obtain x d where x: "ExecContext (sqldb E) (insert_stmt m) (w_db w) = (x, d)" by force
  have fits: "stmt_fits (insert_stmt m)" using assms(2) by (simp add: insert_stmt_def message_fits_def)
  have bt: "b_tabs b = tabs (w_db w)" using locked_keeps [OF assms(3)] by (simp add: board_of_def)
  show ?thesis
  proof (cases x)
    case (Some e)
    with assms(1) x have "r = Some e" "?b w' = (?b w)\<lparr>b_tabs := tabs d\<rparr>"
      by (auto simp: deliver_def board_of_def)
    moreover have "external_error e" "tabs d = b_tabs b \<or> sql_exec cf (insert_stmt m) (b_tabs b) = Some (tabs d)"
      using exec_error exec_err [OF _ fits] x Some by (auto simp: bt)
    ultimately show ?thesis using assms(3,4) by (auto intro: send_spec.insert_failed)
  next
    case None
    obtain err r1 where p: "Publish (redis_client E) (tjson E) (''chat:room:'' @ ConversationID m) m (w_redis w) = (err, r1)"
      by force
    have ins: "sql_exec cf (insert_stmt m) (b_tabs b) = Some (tabs d)"
      using exec_ok [OF _ fits] x None by (simp add: bt)
    from assms(1) x None p have r: "r = err" and w': "w' = w\<lparr>w_db := d, w_redis := r1\<rparr>"
      by (auto simp: deliver_def)
    show ?thesis
    proof (cases err)
      case None
      with p publish_ok have "published (tjson E) m ((?b w)\<lparr>b_tabs := tabs d\<rparr>) (?b w')"
        by (auto simp: Publish_def published_def board_of_def w' split: sum.splits dest!: publish_ok)
      with assms(3,4) ins r None show ?thesis by (auto intro: send_spec.accepted)
    next
      case (Some e)
      with p have "external_error e \<and> (?b w' = (?b w)\<lparr>b_tabs := tabs d\<rparr> \<or>
          published (tjson E) m ((?b w)\<lparr>b_tabs := tabs d\<rparr>) (?b w'))"
        by (auto simp: Publish_def published_def board_of_def w' Marshal_message_def
            split: sum.splits if_splits dest!: publish_error)
      with assms(3,4) ins r Some show ?thesis by (auto intro: send_spec.publish_failed)
    qed
  qed
qed

lemma SendMessage_spec:
  assumes "SendMessage E msg key w = Some (r, m, w')" and "message_fits msg"
  shows "send_spec cf (tjson E) key m (board_of tabs keys sent w) r (board_of tabs keys sent w')"
  using assms(1)
proof (cases rule: SendMessage_cases)
  case (guarded e)
  then show ?thesis using guard_spec(2) by simp
next
  case (check_failed w1 b e d)
  then show ?thesis
    using guard_spec(1) [OF check_failed(1)] IsMember_contract [OF check_failed(2)] check_failed(3)
    by (auto simp: board_of_def intro!: send_spec.check_failed)
next
  case (not_member w1 d)
  then show ?thesis
    using guard_spec(1) [OF not_member(1)] IsMember_contract [OF not_member(2)] guard_keeps [OF not_member(1)] not_member(3)
    by (auto simp: board_of_def intro!: send_spec.not_member)
next
  case (delivered w1 d i w2 w3 now)
  have k: "w_db w3 = d" "w_redis w3 = w_redis w1"
    using next_id_keeps [OF delivered(3)] time_now_keeps [OF delivered(4)] by simp_all
  have mem: "tabs d = tabs (w_db w1)" "has_member cf (tabs (w_db w1)) (ConversationID msg) (SenderID msg)"
    using IsMember_contract [OF delivered(2)] by simp_all
  show ?thesis
  proof (rule deliver_spec [OF delivered(6)])
    show "message_fits m" using assms(2) by (simp add: delivered(5) message_fits_def)
    show "locked key (board_of tabs keys sent w) (board_of tabs keys sent w3)"
      using guard_spec(1) [OF delivered(1)] by (simp add: board_of_def k mem)
    show "has_member cf (b_tabs (board_of tabs keys sent w)) (ConversationID m) (SenderID m)"
      using mem guard_keeps [OF delivered(1)] by (simp add: board_of_def delivered(5))
  qed
qed

end

section \<open>A sample run\<close>

text \<open>
  The sends below are computed on the sample servers.
\<close>

definition sample_msg :: "string \<Rightarrow> message" where
  "sample_msg sender = \<lparr>msg_ID = 0, ConversationID = ''9'', SenderID = sender, Content = ''hi'', msg_CreatedAt = zero_time\<rparr>"

definition sent_msg :: message where
  "sent_msg = (sample_msg ''7'')\<lparr>msg_ID := 20975616, msg_CreatedAt := 1704067200005000000\<rparr>"

definition after_send :: "(ref_server, ref_redis) world" where
  "after_send =
     \<lparr>w_db = \<lparr>ref_tables = sample_tables\<lparr>messages := [\<lparr>r_id = 20975616, r_conversation_id = ''9'', r_sender_id = ''7'',
        r_content = ''hi'', r_created_at = Some 1704067200005000000\<rparr>]\<rparr>, ref_faults = []\<rparr>,
      w_redis = \<lparr>rr_keys = [(lock_name ''k'', lock_ttl)],
        rr_sent = [(''chat:room:9'', JObj [(''id'', JNum (sprintf_d 20975616)), (''conversation_id'', JStr ''9''),
          (''sender_id'', JStr ''7''), (''content'', JStr ''hi''), (''created_at'', JStr (dec 1704067200005000000))])],
        rr_faults = []\<rparr>,
      w_gen = \<lparr>workerID = 1, sequence = 0, lastStamp = 5\<rparr>, w_pos = 2\<rparr>"

lemma sample_send: "SendMessage sample_deps (sample_msg ''7'') ''k'' sample_world = Some (None, sent_msg, after_send)"
proof -
  have g: "idempotency_guard sample_deps ''k'' sample_world =
      (None, sample_world\<lparr>w_redis := \<lparr>rr_keys = [(lock_name ''k'', lock_ttl)], rr_sent = [], rr_faults = []\<rparr>\<rparr>)"
    by (simp add: guard_key sample_defs)
  show ?thesis
    unfolding SendMessage_def g
    by (simp add: IsMember_def count_positive_def QueryRowScan_def sample_defs sample_msg_def
        member_matches_def same_def next_id_def time_now_def sample_next sample_now has_conversation_def Publish_def Marshal_message_def
        time_in_range_def sent_msg_def after_send_def)
qed

definition after_reject :: "(ref_server, ref_redis) world" where
  "after_reject = sample_world\<lparr>w_redis := \<lparr>rr_keys = [(lock_name ''k'', lock_ttl)], rr_sent = [], rr_faults = []\<rparr>\<rparr>"

lemma sample_reject:
  "SendMessage sample_deps (sample_msg ''8'') ''k'' sample_world = Some (Some ErrNotMember, sample_msg ''8'', after_reject)"
proof -
  have g: "idempotency_guard sample_deps ''k'' sample_world = (None, after_reject)"
    by (simp add: guard_key sample_defs after_reject_def)
  show ?thesis
    unfolding SendMessage_def g
    by (simp add: IsMember_def count_positive_def QueryRowScan_def sample_defs sample_msg_def
        member_matches_def same_def after_reject_def)
qed

lemma sample_not_member: "\<not> has_member plain_conf (ref_tables (w_db sample_world)) (ConversationID (sample_msg ''8'')) (SenderID (sample_msg ''8''))"
  by (simp add: has_defs sample_defs sample_msg_def)

section \<open>Properties\<close>

text \<open>
  (C1) Refinement: every call of \<open>SendMessage\<close>, on any MySQL and Redis that keep their contracts, is
  a step of the abstract specification, on every branch, errors included.
\<close>

theorem SendMessage_refines:
  assumes "backend E cf tabs keys sent" and "SendMessage E msg key w = Some (r, m, w')" and "message_fits msg"
  shows "send_spec cf (tjson E) key m (board_of tabs keys sent w) r (board_of tabs keys sent w')"
  by (rule backend.SendMessage_spec [OF assms])

lemma sample_fits: "message_fits (sample_msg ''7'')" "message_fits (sample_msg ''8'')"
  by (simp_all add: message_fits_def sample_msg_def)

theorem SendMessage_refines_witness:
  "send_spec plain_conf (tjson sample_deps) ''k'' sent_msg
     (board_of ref_tables (\<lambda>r. map_of (rr_keys r)) rr_sent sample_world) None
     (board_of ref_tables (\<lambda>r. map_of (rr_keys r)) rr_sent after_send)"
  by (rule SendMessage_refines [OF sample_backend sample_send sample_fits(1)])

text \<open>
  (C2) An accepted message (the handler's 202) is durable and broadcast: the sender is a member, the
  message row is appended to the table and nothing else in the tables changes, and exactly this
  message is published, once, in the channel's room.
\<close>

theorem accepted_stored_and_published:
  assumes "backend E cf tabs keys sent" and "SendMessage E msg key w = Some (None, m, w')" and "message_fits msg"
  shows "has_member cf (tabs (w_db w)) (ConversationID m) (SenderID m)
    \<and> tabs (w_db w') = (tabs (w_db w))\<lparr>messages := messages (tabs (w_db w)) @
          [\<lparr>r_id = msg_ID m, r_conversation_id = ConversationID m, r_sender_id = SenderID m,
            r_content = Content m, r_created_at = Some (ts3 cf (msg_CreatedAt m))\<rparr>]\<rparr>
    \<and> (\<exists>v. Marshal_message (tjson E) m = Inr v \<and>
          sent (w_redis w') = sent (w_redis w) @ [(''chat:room:'' @ ConversationID m, v)])"
  using spec_accepted [OF backend.SendMessage_spec [OF assms]]
  by (auto simp: board_of_simps dest!: insert_stmt_exec)

theorem accepted_stored_and_published_witness:
  "has_member plain_conf (ref_tables (w_db sample_world)) (ConversationID sent_msg) (SenderID sent_msg)
    \<and> (\<exists>v. rr_sent (w_redis after_send) = rr_sent (w_redis sample_world) @ [(''chat:room:'' @ ConversationID sent_msg, v)])"
  using accepted_stored_and_published [OF sample_backend sample_send sample_fits(1)] by blast

text \<open>
  Persist before publish: whatever a call returns, if it published anything then the message it
  published is in the messages table afterwards.
\<close>

lemma persist_before_publish:
  assumes "backend E cf tabs keys sent" and "SendMessage E msg key w = Some (r, m, w')" and "message_fits msg"
    and "sent (w_redis w') \<noteq> sent (w_redis w)"
  shows "\<exists>row\<in>set (messages (tabs (w_db w'))). r_id row = msg_ID m \<and> r_conversation_id row = ConversationID m
    \<and> r_sender_id row = SenderID m \<and> r_content row = Content m"
  using spec_persists [OF backend.SendMessage_spec [OF assms(1-3)]] assms(4)
  by (auto simp: board_of_simps dest!: insert_stmt_exec)

text \<open>
  (C10) Members only: a call for a sender who is not a member of the channel stores nothing, publishes
  nothing and is not accepted; the error is \<open>ErrNotMember\<close>, unless the key was a duplicate or a
  server failed first.
\<close>

theorem non_member_rejected:
  assumes "backend E cf tabs keys sent" and "SendMessage E msg key w = Some (r, m, w')" and "message_fits msg"
    and "\<not> has_member cf (tabs (w_db w)) (ConversationID msg) (SenderID msg)"
  shows "tabs (w_db w') = tabs (w_db w) \<and> sent (w_redis w') = sent (w_redis w) \<and>
    (\<exists>e. r = Some e \<and> (e = ErrNotMember \<or> e = ErrDuplicateRequest \<or> storage_error e))"
proof -
  have "ConversationID m = ConversationID msg" "SenderID m = SenderID msg"
    using assms(2) by (cases rule: SendMessage_cases; simp)+
  then show ?thesis
    using spec_rejects [OF backend.SendMessage_spec [OF assms(1-3)]] assms(4) by (simp add: board_of_simps)
qed

theorem non_member_rejected_witness:
  "ref_tables (w_db after_reject) = ref_tables (w_db sample_world) \<and> rr_sent (w_redis after_reject) = rr_sent (w_redis sample_world)"
  using non_member_rejected [OF sample_backend sample_reject sample_fits(2) sample_not_member] by blast

text \<open>
  (C9) At most one send per key and window: after a call with a key that was accepted, or that was
  rejected for membership, any call with the same key within 30 seconds (the keys having only aged by
  \<open>dt\<close>) stores nothing and publishes nothing; it ends in \<open>ErrDuplicateRequest\<close> unless Redis fails. The
  key is taken before the membership check, so it also blocks the retry of a rejected message.
\<close>

theorem duplicate_suppressed:
  assumes "backend E cf tabs keys sent"
    and "SendMessage E msg key w = Some (r, m, w1)" and "message_fits msg" and "key \<noteq> []"
    and "r = None \<or> r = Some ErrNotMember"
    and "keys (w_redis w2) = age dt (keys (w_redis w1))" and "dt < 30 * 1000000000"
    and "SendMessage E msg' key w2 = Some (r', m', w3)" and "message_fits msg'"
  shows "tabs (w_db w3) = tabs (w_db w2) \<and> sent (w_redis w3) = sent (w_redis w2) \<and>
    (\<exists>e. r' = Some e \<and> (e = ErrDuplicateRequest \<or> external_error e))"
proof -
  have "keys (w_redis w1) (lock_name key) = Some lock_ttl"
    using spec_takes_key [OF backend.SendMessage_spec [OF assms(1-3)]] assms(4,5) by (simp add: board_of_simps)
  with assms(6,7) have "keys (w_redis w2) (lock_name key) \<noteq> None"
    by (simp add: age_def lock_ttl_def)
  then show ?thesis
    using spec_duplicate [OF backend.SendMessage_spec [OF assms(1,8,9)]] assms(4) by (simp add: board_of_simps)
qed

definition later :: "int \<Rightarrow> (ref_server, ref_redis) world" where
  "later ttl = after_reject\<lparr>w_redis := \<lparr>rr_keys = (if ttl > 0 then [(lock_name ''k'', ttl)] else []), rr_sent = [], rr_faults = []\<rparr>\<rparr>"

lemma later_ages:
  "map_of (rr_keys (w_redis (later (lock_ttl - dt)))) = age dt (map_of (rr_keys (w_redis after_reject)))"
  by (auto simp: later_def after_reject_def age_def)

lemma sample_duplicate:
  "0 < ttl \<Longrightarrow> SendMessage sample_deps (sample_msg ''7'') ''k'' (later ttl) =
     Some (Some ErrDuplicateRequest, sample_msg ''7'', later ttl)"
  by (simp add: SendMessage_def guard_key later_def after_reject_def sample_defs)

theorem duplicate_suppressed_witness:
  "\<exists>e. fst (the (SendMessage sample_deps (sample_msg ''7'') ''k'' (later 1))) = Some e \<and>
     (e = ErrDuplicateRequest \<or> external_error e)"
proof -
  have *: "lock_ttl - (lock_ttl - 1) = 1" by simp
  show ?thesis
    using duplicate_suppressed [OF sample_backend sample_reject sample_fits(2) _ _ later_ages [of "lock_ttl - 1", unfolded *]
        _ sample_duplicate sample_fits(1)]
    by (simp add: lock_ttl_def sample_duplicate)
qed

text \<open>
  The window is bounded: once the key has aged 30 seconds it is free again, and the service no
  longer answers \<open>ErrDuplicateRequest\<close>.
\<close>

lemma window_expires:
  assumes "backend E cf tabs keys sent"
    and "SendMessage E msg key w = Some (r, m, w1)" and "message_fits msg" and "key \<noteq> []"
    and "r = None \<or> r = Some ErrNotMember"
    and "keys (w_redis w2) = age dt (keys (w_redis w1))" and "30 * 1000000000 \<le> dt"
    and "SendMessage E msg' key w2 = Some (r', m', w3)" and "message_fits msg'"
  shows "r' \<noteq> Some ErrDuplicateRequest"
proof -
  have "keys (w_redis w1) (lock_name key) = Some lock_ttl"
    using spec_takes_key [OF backend.SendMessage_spec [OF assms(1-3)]] assms(4,5) by (simp add: board_of_simps)
  with assms(6,7) have "keys (w_redis w2) (lock_name key) = None"
    by (simp add: age_def lock_ttl_def)
  then show ?thesis
    using spec_fresh [OF backend.SendMessage_spec [OF assms(1,8,9)]] by (simp add: board_of_simps)
qed

lemma sample_retry:
  "SendMessage sample_deps (sample_msg ''8'') ''k'' (later 0) =
     Some (Some ErrNotMember, sample_msg ''8'', after_reject)"
proof -
  have g: "idempotency_guard sample_deps ''k'' (later 0) = (None, after_reject)"
    by (simp add: guard_key sample_defs after_reject_def later_def)
  show ?thesis
    unfolding SendMessage_def g
    by (simp add: IsMember_def count_positive_def QueryRowScan_def sample_defs sample_msg_def
        member_matches_def same_def after_reject_def)
qed

text \<open>
  (C38) Termination: \<open>SendMessage\<close> returns, whatever the servers answer, as soon as the process's clock
  ever passes the generator's last stamp after the call begins.
\<close>

theorem SendMessage_returns:
  assumes "w_pos w < j" and "lastStamp (w_gen w) <s currentMillis (wall_clock E) j"
  shows "\<exists>r m w'. SendMessage E msg key w = Some (r, m, w')"
proof (cases "idempotency_guard E key w")
  case (Pair g w1)
  obtain b x d where c: "IsMember (sqldb E) (ConversationID msg) (SenderID msg) (w_db w1) = ((b, x), d)"
    by (metis surj_pair)
  obtain i w2 where "next_id E (w1\<lparr>w_db := d\<rparr>) = Some (i, w2)"
    using assms guard_keeps [OF Pair] by (elim next_id_returns [of "w1\<lparr>w_db := d\<rparr>" j E, rotated 2]) simp_all
  with Pair c show ?thesis
    by (cases g) (auto simp: SendMessage_def Let_def split: prod.split)
qed

theorem SendMessage_returns_witness:
  "\<exists>r m w'. SendMessage sample_deps (sample_msg ''7'') ''k'' sample_world = Some (r, m, w')"
  by (rule SendMessage_returns [of _ 1])
    (simp_all add: sample_world_def sample_deps_def ref_deps_def sample_clock_millis word_sless_alt)

end
