(* ===== verification/User_Service.thy ===== *)
theory User_Service
  imports Service
begin

text \<open>
  \<^verbatim>\<open>user_service.go\<close>: registering a user and looking one up. The contract of each method is stated over
  the tables of the server, proved in \<open>backend\<close> for every pair of servers, and used for the properties:
  usernames stay unique, a taken name is refused without a write, and a created user can be read back.
\<close>

section \<open>UserService\<close>

definition CreateUser ::
    "('d, 'r) deps \<Rightarrow> string \<Rightarrow> ('d, 'r) world \<Rightarrow> ((go_error + user) \<times> ('d, 'r) world) option" where
  "CreateUser E username w =
     (let ((exists, err), d) = UsernameExists (sqldb E) username (w_db w); w = w\<lparr>w_db := d\<rparr>
      in (case err of
            Some e \<Rightarrow> Some (Inl e, w)
          | None \<Rightarrow>
              if exists then Some (Inl ErrUsernameTaken, w)
              else do {
                (i, w) \<leftarrow> next_id E w;
                let (now, w) = time_now E w;
                let user = \<lparr>user_ID = sprintf_d i, Username = username, user_CreatedAt = now\<rparr>;
                let (err, d) = UserRepository_Create (sqldb E) user (w_db w);
                let w = w\<lparr>w_db := d\<rparr>;
                (case err of Some e \<Rightarrow> Some (Inl e, w) | None \<Rightarrow> Some (Inr user, w))
              }))"

definition GetUser :: "('d, 'r) deps \<Rightarrow> string \<Rightarrow> ('d, 'r) world \<Rightarrow> (go_error + user) \<times> ('d, 'r) world" where
  "GetUser E i w = (let (r, d) = UserRepository_GetByID (sqldb E) i (w_db w) in (r, w\<lparr>w_db := d\<rparr>))"

section \<open>Contracts\<close>

definition user_row_of :: "sql_conf \<Rightarrow> user \<Rightarrow> user_row" where
  "user_row_of cf u = \<lparr>u_id = user_ID u, u_username = Username u, u_created_at = Some (ts0 cf (user_CreatedAt u))\<rparr>"

definition add_user :: "sql_conf \<Rightarrow> user \<Rightarrow> tables \<Rightarrow> tables" where
  "add_user cf u t = t\<lparr>users := users t @ [user_row_of cf u]\<rparr>"

lemma insert_user_exec:
  "sql_exec cf (INSERT_users (user_ID u) (Username u) (user_CreatedAt u)) t = Some t' \<longleftrightarrow>
     \<not> has_user cf t (user_ID u) \<and> \<not> has_username cf t (Username u) \<and> t' = add_user cf u t"
  by (auto simp: add_user_def user_row_of_def)

text \<open>The specification of a registration: what it may answer and what the tables are afterwards.\<close>

inductive create_user_spec :: "sql_conf \<Rightarrow> string \<Rightarrow> tables \<Rightarrow> go_error + user \<Rightarrow> tables \<Rightarrow> bool"
  for cf n t where
  taken: "has_username cf t n \<Longrightarrow> create_user_spec cf n t (Inl ErrUsernameTaken) t"
| failed: "storage_error e \<Longrightarrow> create_user_spec cf n t (Inl e) t"
| unconfirmed: "storage_error e \<Longrightarrow> \<not> has_username cf t n \<Longrightarrow> Username u = n \<Longrightarrow> \<not> has_user cf t (user_ID u) \<Longrightarrow>
    create_user_spec cf n t (Inl e) (add_user cf u t)"
| created: "\<not> has_username cf t n \<Longrightarrow> Username u = n \<Longrightarrow> \<not> has_user cf t (user_ID u) \<Longrightarrow>
    create_user_spec cf n t (Inr u) (add_user cf u t)"

inductive_cases create_user_InrE: "create_user_spec cf n t (Inr u) t'"
inductive_cases create_user_InlE: "create_user_spec cf n t (Inl e) t'"

lemma CreateUser_cases:
  assumes "CreateUser E n w = Some (r, w')"
  obtains
    (check_failed) b e d where "UsernameExists (sqldb E) n (w_db w) = ((b, Some e), d)"
      "r = Inl e" "w' = w\<lparr>w_db := d\<rparr>"
  | (taken) d where "UsernameExists (sqldb E) n (w_db w) = ((True, None), d)"
      "r = Inl ErrUsernameTaken" "w' = w\<lparr>w_db := d\<rparr>"
  | (inserted) d i w1 now w2 u err d' where "UsernameExists (sqldb E) n (w_db w) = ((False, None), d)"
      "next_id E (w\<lparr>w_db := d\<rparr>) = Some (i, w1)" "time_now E w1 = (now, w2)"
      "u = \<lparr>user_ID = sprintf_d i, Username = n, user_CreatedAt = now\<rparr>"
      "UserRepository_Create (sqldb E) u (w_db w2) = (err, d')" "w' = w2\<lparr>w_db := d'\<rparr>"
      "r = (case err of Some e \<Rightarrow> Inl e | None \<Rightarrow> Inr u)"
proof -
  obtain b x d where c: "UsernameExists (sqldb E) n (w_db w) = ((b, x), d)" by (metis surj_pair)
  consider (1) e where "x = Some e" | (2) "x = None" "b" | (3) "x = None" "\<not> b" by force
  then show thesis
  proof cases
    case 1
    with assms c show ?thesis by (intro check_failed) (auto simp: CreateUser_def)
  next
    case 2
    with assms c show ?thesis by (intro taken) (auto simp: CreateUser_def)
  next
    case 3
    with assms c obtain i w1 where n: "next_id E (w\<lparr>w_db := d\<rparr>) = Some (i, w1)"
      by (auto simp: CreateUser_def bind_eq_Some_conv)
    obtain now w2 where t: "time_now E w1 = (now, w2)" by force
    obtain err d' where i: "UserRepository_Create (sqldb E) \<lparr>user_ID = sprintf_d i, Username = n, user_CreatedAt = now\<rparr>
        (w_db w2) = (err, d')" by force
    from 3 assms c n t i show ?thesis
      by (intro inserted [OF _ n t refl i]) (auto simp: CreateUser_def Let_def split: option.splits)
  qed
qed

context backend
begin

lemma CreateUser_spec:
  assumes "CreateUser E n w = Some (r, w')" and "length n \<le> 100"
  shows "w_redis w' = w_redis w \<and> create_user_spec cf n (tabs (w_db w)) r (tabs (w_db w'))"
  using assms(1)
proof (cases rule: CreateUser_cases)
  case (check_failed b e d)
  then show ?thesis
    using UsernameExists_contract [OF check_failed(1)] by (auto intro: create_user_spec.failed)
next
  case (taken d)
  then show ?thesis
    using UsernameExists_contract [OF taken(1)] by (auto intro: create_user_spec.taken)
next
  case (inserted d i w1 now w2 u err d')
  have k: "w_db w2 = d" "w_redis w2 = w_redis w"
    using next_id_keeps [OF inserted(2)] time_now_keeps [OF inserted(3)] by simp_all
  have t: "tabs d = tabs (w_db w)" "\<not> has_username cf (tabs (w_db w)) n"
    using UsernameExists_contract [OF inserted(1)] by simp_all
  have fits: "stmt_fits (INSERT_users (user_ID u) (Username u) (user_CreatedAt u))"
    using assms(2) length_sprintf_d [of i] by (simp add: inserted(4))
  have n: "Username u = n" by (simp add: inserted(4))
  note x = inserted(5) [unfolded UserRepository_Create_def k]
  show ?thesis
  proof (cases err)
    case None
    with exec_ok [OF x [unfolded None] fits] n k t inserted(6,7) show ?thesis
      by (auto simp: insert_user_exec simp del: sql_exec.simps intro: create_user_spec.created)
  next
    case (Some e)
    have e: "storage_error e" using exec_error [OF x [unfolded Some]] by simp
    have w': "r = Inl e" "w_redis w' = w_redis w" "tabs (w_db w') = tabs d'" using k inserted(6,7) Some by simp_all
    from exec_err [OF x [unfolded Some] fits, unfolded t insert_user_exec] t(2) n show ?thesis
      unfolding w' by (auto intro: create_user_spec.failed [OF e] create_user_spec.unconfirmed [OF e])
  qed
qed

lemma GetUser_contract:
  assumes "GetUser E i w = (r, w')"
  shows "tabs (w_db w') = tabs (w_db w)"
    and "r = Inr u \<Longrightarrow> \<exists>row\<in>set (users (tabs (w_db w))). same cf (u_id row) i \<and> user_ID u = u_id row \<and>
           Username u = u_username row \<and> u_created_at row = Some (user_CreatedAt u)"
    and "r = Inl e \<Longrightarrow> if e = ErrUserNotFound then \<not> has_user cf (tabs (w_db w)) i else storage_error e"
proof -
  obtain d where d: "UserRepository_GetByID (sqldb E) i (w_db w) = (r, d)" and w': "w' = w\<lparr>w_db := d\<rparr>"
    using assms by (auto simp: GetUser_def split: prod.splits)
  from GetUserByID_contract [OF d] w'
  show "tabs (w_db w') = tabs (w_db w)"
    and "r = Inr u \<Longrightarrow> \<exists>row\<in>set (users (tabs (w_db w))). same cf (u_id row) i \<and> user_ID u = u_id row \<and>
           Username u = u_username row \<and> u_created_at row = Some (user_CreatedAt u)"
    and "r = Inl e \<Longrightarrow> if e = ErrUserNotFound then \<not> has_user cf (tabs (w_db w)) i else storage_error e"
    by simp_all
qed

end

lemma add_user_ok:
  assumes "tables_ok cf t" and "\<not> has_user cf t (user_ID u)" and "\<not> has_username cf t (Username u)"
  shows "tables_ok cf (add_user cf u t)"
  by (rule sql_exec_keeps_ok [of cf "INSERT_users (user_ID u) (Username u) (user_CreatedAt u)" t])
    (use assms in \<open>simp_all only: insert_user_exec simp_thms\<close>)

lemma create_user_keeps_ok: "create_user_spec cf n t r t' \<Longrightarrow> tables_ok cf t \<Longrightarrow> tables_ok cf t'"
  by (cases rule: create_user_spec.cases) (auto intro: add_user_ok)

section \<open>Properties\<close>


definition new_user :: user where
  "new_user = \<lparr>user_ID = ''20975616'', Username = ''bob'', user_CreatedAt = 1704067200005000000\<rparr>"

definition after_create :: "(ref_server, ref_redis) world" where
  "after_create = sample_world\<lparr>w_db := \<lparr>ref_tables = add_user plain_conf new_user sample_tables, ref_faults = []\<rparr>,
     w_gen := \<lparr>workerID = 1, sequence = 0, lastStamp = 5\<rparr>, w_pos := 2\<rparr>"

lemma sample_create: "CreateUser sample_deps ''bob'' sample_world = Some (Inr new_user, after_create)"
  by (simp add: CreateUser_def UsernameExists_def count_positive_def QueryRowScan_def sample_defs same_def
      next_id_def time_now_def sample_next sample_now sample_id UserRepository_Create_def has_user_def
      has_username_def new_user_def after_create_def add_user_def user_row_of_def)


text \<open>
  Usernames are unique: a name that is taken (under the server's collation) is never registered
  again; the call writes nothing and answers \<open>ErrUsernameTaken\<close>, unless the database fails.
\<close>

lemma username_taken:
  assumes "backend E cf tabs keys sent" and "CreateUser E n w = Some (r, w')" and "length n \<le> 100"
    and "has_username cf (tabs (w_db w)) n"
  shows "tabs (w_db w') = tabs (w_db w) \<and> (\<exists>e. r = Inl e \<and> (e = ErrUsernameTaken \<or> storage_error e))"
  using backend.CreateUser_spec [OF assms(1-3), THEN conjunct2] assms(4)
  by (cases rule: create_user_spec.cases) auto

text \<open>
  Round trip: a user that \<open>CreateUser\<close> returned is found by \<open>GetUser\<close> under its identifier as long
  as the tables stay as they are; the answer is that user, with the creation time as stored, or an
  error of the database, but never \<open>ErrUserNotFound\<close>.
\<close>

lemma create_get_user:
  assumes "backend E cf tabs keys sent" and "CreateUser E n w = Some (Inr u, w1)" and "length n \<le> 100"
    and "tabs (w_db w2) = tabs (w_db w1)" and "GetUser E (user_ID u) w2 = (r, w3)"
  shows "r = Inr (u\<lparr>user_CreatedAt := ts0 cf (user_CreatedAt u)\<rparr>) \<or> (\<exists>e. r = Inl e \<and> storage_error e)"
proof -
  note c = backend.CreateUser_spec [OF assms(1-3), THEN conjunct2]
  from c have t: "tabs (w_db w1) = add_user cf u (tabs (w_db w))" and new: "\<not> has_user cf (tabs (w_db w)) (user_ID u)"
    by (auto elim: create_user_InrE)
  note g = backend.GetUser_contract [OF assms(1,5)]
  show ?thesis
  proof (cases r)
    case (Inl e)
    have "has_user cf (tabs (w_db w2)) (user_ID u)"
      by (simp add: assms(4) t add_user_def has_user_def user_row_of_def)
    with g(3) [OF Inl] Inl show ?thesis by (auto split: if_splits)
  next
    case (Inr v)
    from g(2) [OF Inr] new have "v = u\<lparr>user_CreatedAt := ts0 cf (user_CreatedAt u)\<rparr>"
      by (auto simp: assms(4) t add_user_def user_row_of_def has_defs)
    with Inr show ?thesis by simp
  qed
qed

end
