(* ===== verification/Channel_Service.thy ===== *)
theory Channel_Service
  imports Service
begin

text \<open>
  \<^verbatim>\<open>channel_service.go\<close>: creating a channel with its members, adding and removing members, listing a
  user's channels. The specification \<open>create_channel_spec\<close> says what one creation may answer and leave
  in the tables, a partly enrolled channel included; the properties give the exact membership of a
  new channel and the effect of the membership operations.
\<close>

section \<open>ChannelService\<close>

fun containsString :: "string list \<Rightarrow> string \<Rightarrow> bool" where
  "containsString [] target = False"
| "containsString (s # ss) target = (if s = target then True else containsString ss target)"

text \<open>The enrolment loop: the first error ends it, wrapped with the user it concerns.\<close>

fun add_members :: "'d sql_db \<Rightarrow> string \<Rightarrow> string list \<Rightarrow> 'd \<Rightarrow> go_error option \<times> 'd" where
  "add_members db c [] d = (None, d)"
| "add_members db c (u # us) d =
     (case AddMember db c u d of
        (Some e, d) \<Rightarrow> (Some (ErrAddMember u e), d)
      | (None, d) \<Rightarrow> add_members db c us d)"

definition CreateChannel ::
    "('d, 'r) deps \<Rightarrow> string \<Rightarrow> string \<Rightarrow> string \<Rightarrow> string list \<Rightarrow> ('d, 'r) world
       \<Rightarrow> ((go_error + channel) \<times> ('d, 'r) world) option" where
  "CreateChannel E name chanType createdBy memberIDs w =
     (if chanType \<noteq> ''DM'' \<and> chanType \<noteq> ''GROUP'' then Some (Inl (ErrInvalidChannelType chanType), w)
      else if chanType = ''DM'' \<and> length memberIDs \<noteq> 2 then Some (Inl (ErrDMMembers (length memberIDs)), w)
      else let memberIDs = (if \<not> containsString memberIDs createdBy then memberIDs @ [createdBy] else memberIDs)
      in do {
        (i, w) \<leftarrow> next_id E w;
        let (now, w) = time_now E w;
        let ch = \<lparr>channel_ID = sprintf_d i, Name = name, Type = chanType, CreatedBy = createdBy, channel_CreatedAt = now\<rparr>;
        let (err, d) = ChannelRepository_Create (sqldb E) ch (w_db w);
        (case err of
           Some e \<Rightarrow> Some (Inl (ErrCreateChannel e), w\<lparr>w_db := d\<rparr>)
         | None \<Rightarrow> (case add_members (sqldb E) (channel_ID ch) memberIDs d of
               (Some e, d) \<Rightarrow> Some (Inl e, w\<lparr>w_db := d\<rparr>)
             | (None, d) \<Rightarrow> Some (Inr ch, w\<lparr>w_db := d\<rparr>)))
      })"

definition GetUserChannels :: "('d, 'r) deps \<Rightarrow> string \<Rightarrow> ('d, 'r) world \<Rightarrow> (go_error + channel list) \<times> ('d, 'r) world" where
  "GetUserChannels E u w = (let (r, d) = GetByUser (sqldb E) u (w_db w) in (r, w\<lparr>w_db := d\<rparr>))"

definition GetChannel :: "('d, 'r) deps \<Rightarrow> string \<Rightarrow> ('d, 'r) world \<Rightarrow> (go_error + channel) \<times> ('d, 'r) world" where
  "GetChannel E i w = (let (r, d) = ChannelRepository_GetByID (sqldb E) i (w_db w) in (r, w\<lparr>w_db := d\<rparr>))"

definition ChannelService_AddMember ::
    "('d, 'r) deps \<Rightarrow> string \<Rightarrow> string \<Rightarrow> ('d, 'r) world \<Rightarrow> go_error option \<times> ('d, 'r) world" where
  "ChannelService_AddMember E c u w = (let (e, d) = AddMember (sqldb E) c u (w_db w) in (e, w\<lparr>w_db := d\<rparr>))"

definition ChannelService_RemoveMember ::
    "('d, 'r) deps \<Rightarrow> string \<Rightarrow> string \<Rightarrow> ('d, 'r) world \<Rightarrow> go_error option \<times> ('d, 'r) world" where
  "ChannelService_RemoveMember E c u w = (let (e, d) = RemoveMember (sqldb E) c u (w_db w) in (e, w\<lparr>w_db := d\<rparr>))"

section \<open>The tables under the channel operations\<close>

text \<open>\<^verbatim>\<open>INSERT IGNORE\<close> of one membership and of a list of them: the statement never fails by itself.\<close>

definition add_member :: "sql_conf \<Rightarrow> string \<Rightarrow> string \<Rightarrow> tables \<Rightarrow> tables" where
  "add_member cf c u t =
     (if has_member cf t c u \<or> \<not> has_conversation cf t c \<or> \<not> has_user cf t u then t
      else t\<lparr>channel_members := channel_members t @ [\<lparr>m_channel_id = c, m_user_id = u\<rparr>]\<rparr>)"

definition enrol :: "sql_conf \<Rightarrow> string \<Rightarrow> string list \<Rightarrow> tables \<Rightarrow> tables" where
  "enrol cf c us t = fold (add_member cf c) us t"

definition channel_row_of :: "sql_conf \<Rightarrow> channel \<Rightarrow> chan_type \<Rightarrow> conv_row" where
  "channel_row_of cf ch k = \<lparr>c_id = channel_ID ch, c_type = k, c_name = Some (Name ch),
     c_created_by = Some (CreatedBy ch), c_created_at = Some (ts0 cf (channel_CreatedAt ch))\<rparr>"

definition add_channel :: "sql_conf \<Rightarrow> channel \<Rightarrow> chan_type \<Rightarrow> tables \<Rightarrow> tables" where
  "add_channel cf ch k t = t\<lparr>conversations := conversations t @ [channel_row_of cf ch k]\<rparr>"

lemma insert_member_exec: "sql_exec cf (INSERT_IGNORE_channel_members c u) t = Some (add_member cf c u t)"
  by (simp add: add_member_def)

lemma insert_channel_exec:
  "sql_exec cf (INSERT_conversations (channel_ID ch) (Type ch) (Name ch) (CreatedBy ch) (channel_CreatedAt ch)) t = Some t' \<longleftrightarrow>
     (\<exists>k. enum_chan_type cf (Type ch) = Some k \<and> \<not> has_conversation cf t (channel_ID ch) \<and> t' = add_channel cf ch k t)"
  by (auto simp: add_channel_def channel_row_of_def split: option.splits)

lemma enrol_simps [simp]: "enrol cf c [] t = t" "enrol cf c (u # us) t = enrol cf c us (add_member cf c u t)"
  by (simp_all add: enrol_def)

lemma add_member_keeps [simp]:
  "users (add_member cf c u t) = users t" "conversations (add_member cf c u t) = conversations t"
  "messages (add_member cf c u t) = messages t"
  "has_user cf (add_member cf c u t) = has_user cf t"
  "has_conversation cf (add_member cf c u t) = has_conversation cf t"
  by (simp_all add: add_member_def has_user_def has_conversation_def fun_eq_iff)

lemma enrol_keeps [simp]:
  "users (enrol cf c us t) = users t" "conversations (enrol cf c us t) = conversations t"
  "messages (enrol cf c us t) = messages t"
  by (induction us arbitrary: t) simp_all

lemma has_member_add:
  "has_member cf (add_member cf c u t) c' u' \<longleftrightarrow> has_member cf t c' u' \<or>
     same cf c c' \<and> same cf u u' \<and> has_conversation cf t c \<and> has_user cf t u"
  by (rule has_member_insert [OF insert_member_exec])

lemma has_member_enrol:
  "has_member cf (enrol cf c us t) c' u' \<longleftrightarrow> has_member cf t c' u' \<or>
     same cf c c' \<and> has_conversation cf t c \<and> list_ex (\<lambda>u. same cf u u' \<and> has_user cf t u) us"
  by (induction us arbitrary: t) (auto simp: has_member_add)

lemma enrol_ok: "tables_ok cf t \<Longrightarrow> tables_ok cf (enrol cf c us t)"
  by (induction us arbitrary: t) (simp_all add: sql_exec_keeps_ok [OF insert_member_exec])

lemma add_channel_ok:
  assumes "tables_ok cf t" and "\<not> has_conversation cf t (channel_ID ch)" and "enum_chan_type cf (Type ch) = Some k"
  shows "tables_ok cf (add_channel cf ch k t)"
  using assms by (auto intro: sql_exec_keeps_ok [OF insert_channel_exec [THEN iffD2]])

lemma add_channel_keeps [simp]:
  "users (add_channel cf ch k t) = users t" "channel_members (add_channel cf ch k t) = channel_members t"
  "messages (add_channel cf ch k t) = messages t" "has_user cf (add_channel cf ch k t) = has_user cf t"
  "has_member cf (add_channel cf ch k t) = has_member cf t"
  "has_conversation cf (add_channel cf ch k t) i \<longleftrightarrow> has_conversation cf t i \<or> same cf (channel_ID ch) i"
  by (auto simp: add_channel_def channel_row_of_def has_user_def has_member_def has_conversation_def fun_eq_iff)

text \<open>A channel that is not in the table has no members, by the foreign key.\<close>

lemma no_channel_no_member: "tables_ok cf t \<Longrightarrow> \<not> has_conversation cf t c \<Longrightarrow> \<not> has_member cf t c u"
  by (auto simp: tables_ok_def has_defs list_all_iff)

section \<open>Specification of a creation\<close>

text \<open>The members the code enrols: the listed ones, and the creator at the end if missing.\<close>

definition with_creator :: "string list \<Rightarrow> string \<Rightarrow> string list" where
  "with_creator us creator = (if creator \<in> set us then us else us @ [creator])"

definition valid_request :: "string \<Rightarrow> string list \<Rightarrow> bool" where
  "valid_request ty us \<longleftrightarrow> (ty = ''DM'' \<and> length us = 2) \<or> ty = ''GROUP''"

text \<open>An enrolment that stopped at an error: the members before it are in, the one that failed may be.\<close>

inductive enrol_failed :: "sql_conf \<Rightarrow> string \<Rightarrow> string list \<Rightarrow> tables \<Rightarrow> go_error \<Rightarrow> tables \<Rightarrow> bool"
  for cf c where
  stop: "external_error e \<Longrightarrow> t' = t \<or> t' = add_member cf c u t \<Longrightarrow> enrol_failed cf c (u # us) t (ErrAddMember u e) t'"
| go_on: "enrol_failed cf c us (add_member cf c u t) e t' \<Longrightarrow> enrol_failed cf c (u # us) t e t'"

lemma enrol_failed_ok: "enrol_failed cf c us t e t' \<Longrightarrow> tables_ok cf t \<Longrightarrow> tables_ok cf t'"
  by (induction rule: enrol_failed.induct) (auto intro: sql_exec_keeps_ok [OF insert_member_exec])

inductive create_channel_spec ::
    "sql_conf \<Rightarrow> string \<Rightarrow> string \<Rightarrow> string \<Rightarrow> string list \<Rightarrow> tables \<Rightarrow> go_error + channel \<Rightarrow> tables \<Rightarrow> bool"
  for cf n ty creator us t where
  invalid_type: "ty \<noteq> ''DM'' \<Longrightarrow> ty \<noteq> ''GROUP'' \<Longrightarrow>
    create_channel_spec cf n ty creator us t (Inl (ErrInvalidChannelType ty)) t"
| invalid_dm: "ty = ''DM'' \<Longrightarrow> length us \<noteq> 2 \<Longrightarrow> create_channel_spec cf n ty creator us t (Inl (ErrDMMembers (length us))) t"
| not_created: "valid_request ty us \<Longrightarrow> external_error e \<Longrightarrow>
    create_channel_spec cf n ty creator us t (Inl (ErrCreateChannel e)) t"
| unconfirmed: "valid_request ty us \<Longrightarrow> external_error e \<Longrightarrow>
    Name ch = n \<Longrightarrow> Type ch = ty \<Longrightarrow> CreatedBy ch = creator \<Longrightarrow>
    enum_chan_type cf ty = Some k \<Longrightarrow> \<not> has_conversation cf t (channel_ID ch) \<Longrightarrow>
    create_channel_spec cf n ty creator us t (Inl (ErrCreateChannel e)) (add_channel cf ch k t)"
| partly_enrolled: "valid_request ty us \<Longrightarrow>
    Name ch = n \<Longrightarrow> Type ch = ty \<Longrightarrow> CreatedBy ch = creator \<Longrightarrow>
    enum_chan_type cf ty = Some k \<Longrightarrow> \<not> has_conversation cf t (channel_ID ch) \<Longrightarrow>
    enrol_failed cf (channel_ID ch) (with_creator us creator) (add_channel cf ch k t) e t' \<Longrightarrow>
    create_channel_spec cf n ty creator us t (Inl e) t'"
| created: "valid_request ty us \<Longrightarrow> Name ch = n \<Longrightarrow> Type ch = ty \<Longrightarrow> CreatedBy ch = creator \<Longrightarrow>
    enum_chan_type cf ty = Some k \<Longrightarrow> \<not> has_conversation cf t (channel_ID ch) \<Longrightarrow>
    create_channel_spec cf n ty creator us t (Inr ch)
      (enrol cf (channel_ID ch) (with_creator us creator) (add_channel cf ch k t))"

lemma set_with_creator [simp]: "set (with_creator us creator) = insert creator (set us)"
  by (auto simp: with_creator_def)

inductive_cases create_channel_InrE: "create_channel_spec cf n ty creator us t (Inr ch) t'"

lemma containsString_iff: "containsString us u \<longleftrightarrow> u \<in> set us"
  by (induction us) auto

text \<open>The creation after the checks.\<close>

definition insert_channel ::
    "('d, 'r) deps \<Rightarrow> channel \<Rightarrow> string list \<Rightarrow> ('d, 'r) world \<Rightarrow> (go_error + channel) \<times> ('d, 'r) world" where
  "insert_channel E ch us w =
     (case ChannelRepository_Create (sqldb E) ch (w_db w) of
        (Some e, d) \<Rightarrow> (Inl (ErrCreateChannel e), w\<lparr>w_db := d\<rparr>)
      | (None, d) \<Rightarrow> (case add_members (sqldb E) (channel_ID ch) us d of
            (Some e, d) \<Rightarrow> (Inl e, w\<lparr>w_db := d\<rparr>)
          | (None, d) \<Rightarrow> (Inr ch, w\<lparr>w_db := d\<rparr>)))"

lemma CreateChannel_cases:
  assumes "CreateChannel E n ty creator us w = Some (r, w')"
  obtains
    (invalid_type) "ty \<noteq> ''DM''" "ty \<noteq> ''GROUP''" "r = Inl (ErrInvalidChannelType ty)" "w' = w"
  | (invalid_dm) "ty = ''DM''" "length us \<noteq> 2" "r = Inl (ErrDMMembers (length us))" "w' = w"
  | (inserted) i w1 now w2 ch where "valid_request ty us" "next_id E w = Some (i, w1)" "time_now E w1 = (now, w2)"
      "ch = \<lparr>channel_ID = sprintf_d i, Name = n, Type = ty, CreatedBy = creator, channel_CreatedAt = now\<rparr>"
      "insert_channel E ch (with_creator us creator) w2 = (r, w')"
proof -
  consider (1) "ty \<noteq> ''DM''" "ty \<noteq> ''GROUP''" | (2) "ty = ''DM''" "length us \<noteq> 2" | (3) "valid_request ty us"
    by (auto simp: valid_request_def)
  then show thesis
  proof cases
    case 1
    with assms show ?thesis by (intro invalid_type) (auto simp: CreateChannel_def)
  next
    case 2
    with assms show ?thesis by (intro invalid_dm) (auto simp: CreateChannel_def)
  next
    case 3
    then have v: "ty = ''DM'' \<or> ty = ''GROUP''" "ty = ''DM'' \<longrightarrow> length us = 2" by (auto simp: valid_request_def)
    with assms obtain i w1 where n: "next_id E w = Some (i, w1)"
      by (auto simp: CreateChannel_def Let_def bind_eq_Some_conv split: if_splits)
    obtain now w2 where t: "time_now E w1 = (now, w2)" by force
    have "insert_channel E \<lparr>channel_ID = sprintf_d i, Name = n, Type = ty, CreatedBy = creator, channel_CreatedAt = now\<rparr>
        (with_creator us creator) w2 = (r, w')"
      using assms v n t
      by (auto simp: CreateChannel_def insert_channel_def with_creator_def containsString_iff Let_def
          split: option.splits prod.splits if_splits)
    with 3 n t show ?thesis by (intro inserted) simp_all
  qed
qed

context backend
begin

lemma AddMember_contract:
  assumes "AddMember (sqldb E) c u d = (r, d')" and "length c \<le> 64" and "length u \<le> 64"
  shows "r = None \<Longrightarrow> tabs d' = add_member cf c u (tabs d)"
    and "r = Some e \<Longrightarrow> external_error e \<and> (tabs d' = tabs d \<or> tabs d' = add_member cf c u (tabs d))"
proof -
  have x: "ExecContext (sqldb E) (INSERT_IGNORE_channel_members c u) d = (r, d')"
    using assms(1) by (simp add: AddMember_def)
  have fits: "stmt_fits (INSERT_IGNORE_channel_members c u)" using assms(2,3) by simp
  show "r = None \<Longrightarrow> tabs d' = add_member cf c u (tabs d)"
    using exec_ok [OF _ fits] x insert_member_exec by (metis option.inject)
  show "r = Some e \<Longrightarrow> external_error e \<and> (tabs d' = tabs d \<or> tabs d' = add_member cf c u (tabs d))"
    using exec_err [OF _ fits] exec_error x insert_member_exec by (metis option.inject)
qed

lemma ChannelRepository_Create_contract:
  assumes "ChannelRepository_Create (sqldb E) ch d = (r, d')"
    and "length (channel_ID ch) \<le> 64" "length (Name ch) \<le> 100" "length (CreatedBy ch) \<le> 64"
  shows "r = None \<Longrightarrow>
      \<exists>k. enum_chan_type cf (Type ch) = Some k \<and> \<not> has_conversation cf (tabs d) (channel_ID ch) \<and> tabs d' = add_channel cf ch k (tabs d)"
    and "r = Some e \<Longrightarrow> external_error e \<and> (tabs d' = tabs d \<or>
      (\<exists>k. enum_chan_type cf (Type ch) = Some k \<and> \<not> has_conversation cf (tabs d) (channel_ID ch) \<and> tabs d' = add_channel cf ch k (tabs d)))"
proof -
  note x = assms(1) [unfolded ChannelRepository_Create_def]
  have fits: "stmt_fits (INSERT_conversations (channel_ID ch) (Type ch) (Name ch) (CreatedBy ch) (channel_CreatedAt ch))"
    using assms(2-) by simp
  show "\<exists>k. enum_chan_type cf (Type ch) = Some k \<and> \<not> has_conversation cf (tabs d) (channel_ID ch) \<and> tabs d' = add_channel cf ch k (tabs d)"
    if "r = None" using exec_ok [OF x [unfolded that] fits] unfolding insert_channel_exec .
  show "external_error e \<and> (tabs d' = tabs d \<or>
      (\<exists>k. enum_chan_type cf (Type ch) = Some k \<and> \<not> has_conversation cf (tabs d) (channel_ID ch) \<and> tabs d' = add_channel cf ch k (tabs d)))"
    if "r = Some e" using exec_error [OF x [unfolded that]] exec_err [OF x [unfolded that] fits] unfolding insert_channel_exec by blast
qed

lemma add_members_contract:
  assumes "add_members (sqldb E) c us d = (r, d')" and "length c \<le> 64" and "list_all (\<lambda>u. length u \<le> 64) us"
  shows "case r of
      None \<Rightarrow> tabs d' = enrol cf c us (tabs d)
    | Some e \<Rightarrow> enrol_failed cf c us (tabs d) e (tabs d')"
  using assms
proof (induction us arbitrary: d)
  case (Cons u us)
  obtain x d1 where a: "AddMember (sqldb E) c u d = (x, d1)" by force
  have len: "length c \<le> 64" "length u \<le> 64" using Cons.prems(2,3) by simp_all
  note k = AddMember_contract [OF a len]
  show ?case
  proof (cases x)
    case None
    with Cons.prems a have "add_members (sqldb E) c us d1 = (r, d')" by simp
    from Cons.IH [OF this] Cons.prems(2,3) k(1) [OF None] show ?thesis
      by (cases r) (auto intro: enrol_failed.go_on)
  next
    case (Some e)
    with Cons.prems a have r: "r = Some (ErrAddMember u e)" "d' = d1" by simp_all
    from k(2) [OF Some] show ?thesis unfolding r by (simp add: enrol_failed.stop)
  qed
qed simp

lemma CreateChannel_spec:
  assumes "CreateChannel E n ty creator us w = Some (r, w')"
    and "length n \<le> 100" and "list_all (\<lambda>u. length u \<le> 64) (creator # us)"
  shows "w_redis w' = w_redis w \<and> create_channel_spec cf n ty creator us (tabs (w_db w)) r (tabs (w_db w'))"
  using assms(1)
proof (cases rule: CreateChannel_cases)
  case invalid_type
  then show ?thesis by (simp add: create_channel_spec.invalid_type)
next
  case invalid_dm
  then show ?thesis using create_channel_spec.invalid_dm by simp
next
  case (inserted i w1 now w2 ch)
  have k: "w_db w2 = w_db w" "w_redis w2 = w_redis w"
    using next_id_keeps [OF inserted(2)] time_now_keeps [OF inserted(3)] by simp_all
  have f: "Name ch = n" "Type ch = ty" "CreatedBy ch = creator" "length (channel_ID ch) \<le> 64"
    using length_sprintf_d [of i] by (simp_all add: inserted(4))
  obtain x d where x: "ChannelRepository_Create (sqldb E) ch (w_db w) = (x, d)" by force
  note c = ChannelRepository_Create_contract [OF x]
  show ?thesis
  proof (cases x)
    case (Some e)
    with inserted(5) x k have w': "r = Inl (ErrCreateChannel e)" "w_redis w' = w_redis w" "w_db w' = d"
      by (auto simp: insert_channel_def)
    from c(2) [OF _ _ _ Some] show ?thesis
      using f assms(2,3) create_channel_spec.not_created [OF inserted(1)] create_channel_spec.unconfirmed [OF inserted(1) _ f(1-3)]
      by (auto simp: w')
  next
    case None
    obtain y d2 where y: "add_members (sqldb E) (channel_ID ch) (with_creator us creator) d = (y, d2)" by force
    obtain kd where t: "enum_chan_type cf ty = Some kd" "\<not> has_conversation cf (tabs (w_db w)) (channel_ID ch)"
      "tabs d = add_channel cf ch kd (tabs (w_db w))"
      using c(1) [OF _ _ _ None] f assms(2,3) by auto
    have "list_all (\<lambda>u. length u \<le> 64) (with_creator us creator)"
      using assms(3) by (auto simp: with_creator_def)
    note am = add_members_contract [OF y f(4) this]
    from inserted(5) x None y k have w': "w_redis w' = w_redis w" "w_db w' = d2" "r = (case y of None \<Rightarrow> Inr ch | Some e \<Rightarrow> Inl e)"
      by (auto simp: insert_channel_def split: option.splits)
    show ?thesis
    proof (cases y)
      case None
      with am t w' show ?thesis using create_channel_spec.created [OF inserted(1) f(1-3) t(1,2)] by simp
    next
      case (Some e)
      with am t(3) w' show ?thesis
        using create_channel_spec.partly_enrolled [OF inserted(1) f(1-3) t(1,2)] by simp
    qed
  qed
qed

end

lemma create_channel_keeps_ok:
  "create_channel_spec cf n ty creator us t r t' \<Longrightarrow> tables_ok cf t \<Longrightarrow> tables_ok cf t'"
  by (cases rule: create_channel_spec.cases) (auto intro!: enrol_ok add_channel_ok elim!: enrol_failed_ok)

section \<open>Membership of a channel\<close>

definition members_of :: "sql_conf \<Rightarrow> tables \<Rightarrow> string \<Rightarrow> member_row list" where
  "members_of cf t c = filter (\<lambda>m. same cf (m_channel_id m) c) (channel_members t)"

lemma members_of_set: "(coll cf \<circ> m_user_id) ` set (members_of cf t c) = coll cf ` {u. has_member cf t c u}"
  by (auto simp: members_of_def has_defs image_iff) metis

lemma members_of_count:
  assumes "tables_ok cf t"
  shows "length (members_of cf t c) = card (coll cf ` {u. has_member cf t c u})"
proof -
  let ?k = "\<lambda>m. (coll cf (m_channel_id m), coll cf (m_user_id m))"
  have d: "distinct (map ?k (members_of cf t c))"
    using assms by (simp add: tables_ok_def members_of_def distinct_map_filter)
  then have "inj_on (coll cf \<circ> m_user_id) (set (members_of cf t c))"
    by (auto simp: distinct_map inj_on_def members_of_def same_def)
  with d have "distinct (map (coll cf \<circ> m_user_id) (members_of cf t c))"
    by (simp add: distinct_map)
  from distinct_card [OF this] show ?thesis unfolding set_map members_of_set by simp
qed

lemma created_members:
  assumes "create_channel_spec cf n ty creator us t (Inr ch) t'" and "tables_ok cf t"
  shows "has_member cf t' (channel_ID ch) u \<longleftrightarrow> (\<exists>v\<in>set (creator # us). same cf v u \<and> has_user cf t v)"
  using assms
  by (auto elim!: create_channel_InrE simp: has_member_enrol no_channel_no_member list_ex_iff)

lemma distinct_constant: "distinct (map f xs) \<Longrightarrow> \<forall>x\<in>set xs. f x = k \<Longrightarrow> xs = [] \<or> (\<exists>x. xs = [x])"
  by (induction xs rule: induct_list012) auto

lemma concat_guard: "concat (map (\<lambda>x. if P x then [x] else []) xs) = filter P xs"
  by (induction xs) auto

text \<open>The channels of a user, when the keys of the tables are unique.\<close>

lemma conversations_of_user_ok:
  assumes "tables_ok cf t"
  shows "conversations_of_user cf t u = filter (\<lambda>c. has_member cf t (c_id c) u) (conversations t)"
proof -
  have one: "filter (member_matches cf c u) (channel_members t) = [] \<or>
      (\<exists>m. filter (member_matches cf c u) (channel_members t) = [m])" for c
  proof -
    let ?ms = "filter (member_matches cf c u) (channel_members t)"
    have "distinct (map (\<lambda>m. (coll cf (m_channel_id m), coll cf (m_user_id m))) ?ms)"
      using assms by (simp add: tables_ok_def distinct_map_filter)
    moreover have "\<forall>m\<in>set ?ms. (coll cf (m_channel_id m), coll cf (m_user_id m)) = (coll cf c, coll cf u)"
      by (auto simp: member_matches_def same_def)
    ultimately show ?thesis by (rule distinct_constant)
  qed
  have eq: "map (\<lambda>m. c) (filter (member_matches cf (c_id c) u) (channel_members t)) =
      (if has_member cf t (c_id c) u then [c] else [])" for c
    using one [of "c_id c"] unfolding has_member_def filter_ne_Nil [symmetric] by (auto simp del: filter_ne_Nil)
  show ?thesis unfolding conversations_of_user_def eq by (rule concat_guard)
qed

section \<open>Properties\<close>

text \<open>A sample: three users, and a DM between the two others that the third one creates.\<close>

definition trio_world :: "(ref_server, ref_redis) world" where
  "trio_world = sample_world\<lparr>w_db := \<lparr>ref_tables = sample_tables\<lparr>users := map (\<lambda>i. \<lparr>u_id = i, u_username = ''u'' @ i,
     u_created_at = Some 0\<rparr>) [''6'', ''7'', ''8'']\<rparr>, ref_faults = []\<rparr>\<rparr>"

definition new_channel :: channel where
  "new_channel = \<lparr>channel_ID = ''20975616'', Name = ''x'', Type = ''DM'', CreatedBy = ''6'', channel_CreatedAt = 1704067200005000000\<rparr>"

definition after_channel :: "(ref_server, ref_redis) world" where
  "after_channel = trio_world\<lparr>w_db := \<lparr>ref_tables = enrol plain_conf ''20975616'' [''7'', ''8'', ''6'']
      (add_channel plain_conf new_channel DM (ref_tables (w_db trio_world))), ref_faults = []\<rparr>,
     w_gen := \<lparr>workerID = 1, sequence = 0, lastStamp = 5\<rparr>, w_pos := 2\<rparr>"

lemma ref_add_members:
  "add_members (ref_db cf) c us \<lparr>ref_tables = t, ref_faults = []\<rparr> = (None, \<lparr>ref_tables = enrol cf c us t, ref_faults = []\<rparr>)"
  by (induction us arbitrary: t)
    (simp_all add: AddMember_def ref_db_def ref_exec_def ref_fault_def insert_member_exec del: sql_exec.simps)

lemma sample_channel:
  "CreateChannel sample_deps ''x'' ''DM'' ''6'' [''7'', ''8''] trio_world = Some (Inr new_channel, after_channel)"
proof -
  have t: "sql_exec plain_conf (INSERT_conversations ''20975616'' ''DM'' ''x'' ''6'' 1704067200005000000) (ref_tables (w_db trio_world)) =
      Some (add_channel plain_conf new_channel DM (ref_tables (w_db trio_world)))"
    by (simp add: enum_chan_type_def add_channel_def channel_row_of_def new_channel_def has_defs sample_defs trio_world_def)
  have d: "w_db trio_world = \<lparr>ref_tables = ref_tables (w_db trio_world), ref_faults = []\<rparr>"
    "w_gen trio_world = \<lparr>workerID = 1, sequence = 0, lastStamp = 0\<rparr>" "w_pos trio_world = 0"
    by (simp_all add: trio_world_def sample_world_def)
  have c: "ChannelRepository_Create (ref_db plain_conf) new_channel (w_db trio_world) =
      (None, \<lparr>ref_tables = add_channel plain_conf new_channel DM (ref_tables (w_db trio_world)), ref_faults = []\<rparr>)"
    by (subst d(1)) (simp add: ChannelRepository_Create_def ref_db_def ref_exec_def ref_fault_def t new_channel_def
        del: sql_exec.simps)
  show ?thesis
    by (simp add: CreateChannel_def sample_deps_def ref_deps_def next_id_def d(2,3) sample_next sample_now time_now_def
        sample_id c [unfolded new_channel_def] ref_add_members after_channel_def new_channel_def Let_def del: add_members.simps)
qed

lemma trio_ok: "tables_ok plain_conf (ref_tables (w_db trio_world))"
  by (simp add: tables_ok_def has_defs sample_defs trio_world_def)

lemma trio_fits: "length ''x'' \<le> 100" "list_all (\<lambda>u. length u \<le> 64) (''6'' # [''7'', ''8''])"
  by simp_all

text \<open>
  (C31) Refinement: every call of \<open>CreateChannel\<close> is a step of the specification: a request of the wrong
  shape changes nothing, a failure in the middle leaves the channel with a prefix of its members, a
  success leaves the channel row and all its known members; Redis is not touched.
\<close>

theorem CreateChannel_refines:
  assumes "backend E cf tabs keys sent" and "CreateChannel E n ty creator us w = Some (r, w')"
    and "length n \<le> 100" and "list_all (\<lambda>u. length u \<le> 64) (creator # us)"
  shows "w_redis w' = w_redis w \<and> create_channel_spec cf n ty creator us (tabs (w_db w)) r (tabs (w_db w'))"
  by (rule backend.CreateChannel_spec [OF assms])

theorem CreateChannel_refines_witness:
  "create_channel_spec plain_conf ''x'' ''DM'' ''6'' [''7'', ''8''] (ref_tables (w_db trio_world)) (Inr new_channel)
     (ref_tables (w_db after_channel))"
  using CreateChannel_refines [OF sample_backend sample_channel trio_fits] by simp

text \<open>
  The members of a new channel are exactly the known users among the creator and the listed
  ones: the creator is always enrolled, listed or not, and nobody else is a member.
\<close>

lemma new_channel_members:
  assumes "backend E cf tabs keys sent" and "CreateChannel E n ty creator us w = Some (Inr ch, w')"
    and "length n \<le> 100" and "list_all (\<lambda>u. length u \<le> 64) (creator # us)"
    and "tables_ok cf (tabs (w_db w))"
  shows "has_member cf (tabs (w_db w')) (channel_ID ch) u \<longleftrightarrow>
    (\<exists>v\<in>set (creator # us). same cf v u \<and> has_user cf (tabs (w_db w)) v)"
  by (rule created_members [OF backend.CreateChannel_spec [OF assms(1-4), THEN conjunct2] assms(5)])

text \<open>
  (C32) The size of a new channel: the number of different known users among the creator and the
  listed ones. The check that a DM lists two users does not make it a channel of two: listing two
  others gives three members, listing oneself twice gives one.
\<close>

theorem new_channel_size:
  assumes "backend E cf tabs keys sent" and "CreateChannel E n ty creator us w = Some (Inr ch, w')"
    and "length n \<le> 100" and "list_all (\<lambda>u. length u \<le> 64) (creator # us)"
    and "tables_ok cf (tabs (w_db w))"
  shows "length (members_of cf (tabs (w_db w')) (channel_ID ch)) =
    card (coll cf ` {v \<in> set (creator # us). has_user cf (tabs (w_db w)) v})"
proof -
  note c = backend.CreateChannel_spec [OF assms(1-4), THEN conjunct2]
  have "coll cf ` {u. has_member cf (tabs (w_db w')) (channel_ID ch) u} =
      coll cf ` {v \<in> set (creator # us). has_user cf (tabs (w_db w)) v}"
    unfolding created_members [OF c assms(5)] by (auto simp: same_def image_iff) metis+
  then show ?thesis
    using members_of_count [OF create_channel_keeps_ok [OF c assms(5)]] by simp
qed

theorem new_channel_size_witness:
  "length (members_of plain_conf (ref_tables (w_db after_channel)) ''20975616'') = 3"
proof -
  have "{v \<in> set [''6'', ''7'', ''8'']. has_user plain_conf (ref_tables (w_db trio_world)) v} = {''6'', ''7'', ''8''}"
    by (auto simp: has_defs sample_defs trio_world_def)
  with new_channel_size [OF sample_backend sample_channel trio_fits trio_ok]
  show ?thesis by (simp add: new_channel_def plain_conf_def)
qed

text \<open>
  Adding a member: after a success the memberships are those before, and the new one if the
  channel and the user exist (an unknown user or channel is a success without effect); users,
  channels and messages are untouched. Adding again changes nothing.
\<close>

lemma AddMember_effect:
  assumes "backend E cf tabs keys sent" and "ChannelService_AddMember E c u w = (None, w')"
    and "length c \<le> 64" and "length u \<le> 64"
  shows "(has_member cf (tabs (w_db w')) c' u' \<longleftrightarrow> has_member cf (tabs (w_db w)) c' u' \<or>
      same cf c c' \<and> same cf u u' \<and> has_conversation cf (tabs (w_db w)) c \<and> has_user cf (tabs (w_db w)) u)
    \<and> tabs (w_db w') = (tabs (w_db w))\<lparr>channel_members := channel_members (tabs (w_db w'))\<rparr>
    \<and> add_member cf c u (tabs (w_db w')) = tabs (w_db w')"
proof -
  have "tabs (w_db w') = add_member cf c u (tabs (w_db w))"
    using assms(2) backend.AddMember_contract(1) [OF assms(1) _ assms(3,4)]
    by (auto simp: ChannelService_AddMember_def split: prod.splits)
  moreover have "add_member cf c u (add_member cf c u t) = add_member cf c u t" for t
    by (simp add: add_member_def has_defs)
  ultimately show ?thesis by (simp add: has_member_add)
qed

text \<open>
  Removing a member: after a success the user is not a member of the channel, every other
  membership is as before, and users, channels and messages are untouched.
\<close>

lemma RemoveMember_effect:
  assumes "backend E cf tabs keys sent" and "ChannelService_RemoveMember E c u w = (None, w')"
  shows "(has_member cf (tabs (w_db w')) c' u' \<longleftrightarrow>
      has_member cf (tabs (w_db w)) c' u' \<and> \<not> (same cf c c' \<and> same cf u u'))
    \<and> tabs (w_db w') = (tabs (w_db w))\<lparr>channel_members := channel_members (tabs (w_db w'))\<rparr>"
proof -
  obtain d where x: "ExecContext (sqldb E) (DELETE_channel_members c u) (w_db w) = (None, d)" and w': "w' = w\<lparr>w_db := d\<rparr>"
    using assms(2) by (auto simp: ChannelService_RemoveMember_def RemoveMember_def split: prod.splits)
  have "sql_exec cf (DELETE_channel_members c u) (tabs (w_db w)) = Some (tabs d)"
    by (rule mysql_server.exec_ok [OF backend.axioms(1) [OF assms(1)] x]) simp
  from has_member_delete [OF this] this [symmetric] w' show ?thesis by simp
qed

text \<open>
  The channel list of a user: exactly the channels the user is a member of, each once, ordered
  by creation time.
\<close>

lemma user_channels_exact:
  assumes "backend E cf tabs keys sent" and "GetUserChannels E u w = (Inr chs, w')"
    and "tables_ok cf (tabs (w_db w))"
  shows "mset chs = mset (map channel_of (filter (\<lambda>c. has_member cf (tabs (w_db w)) (c_id c) u) (conversations (tabs (w_db w)))))
    \<and> sorted (map channel_CreatedAt chs) \<and> tabs (w_db w') = tabs (w_db w)"
proof -
  obtain d where "GetByUser (sqldb E) u (w_db w) = (Inr chs, d)" "w' = w\<lparr>w_db := d\<rparr>"
    using assms(2) by (auto simp: GetUserChannels_def split: prod.splits)
  with mysql_server.GetByUser_contract [OF backend.axioms(1) [OF assms(1)]] conversations_of_user_ok [OF assms(3), of u]
  show ?thesis by simp
qed

text \<open>
  Round trip: a channel that \<open>CreateChannel\<close> returned is found by \<open>GetChannel\<close> under its
  identifier with the type, name and creator it was created with, or the database reports an error;
  it is never \<open>ErrChannelNotFound\<close>.
\<close>

lemma create_get_channel:
  assumes "backend E cf tabs keys sent" and "CreateChannel E n ty creator us w = Some (Inr ch, w1)"
    and "length n \<le> 100" and "list_all (\<lambda>u. length u \<le> 64) (creator # us)" and "\<not> same cf ''GROUP'' ''DM''"
    and "tabs (w_db w2) = tabs (w_db w1)" and "GetChannel E (channel_ID ch) w2 = (r, w3)"
  shows "r = Inr (ch\<lparr>channel_CreatedAt := ts0 cf (channel_CreatedAt ch)\<rparr>) \<or> (\<exists>e. r = Inl e \<and> storage_error e)"
proof -
  obtain k where k: "enum_chan_type cf (Type ch) = Some k" "\<not> has_conversation cf (tabs (w_db w)) (channel_ID ch)"
    "Type ch = ''DM'' \<or> Type ch = ''GROUP''"
    "conversations (tabs (w_db w1)) = conversations (tabs (w_db w)) @ [channel_row_of cf ch k]"
    using backend.CreateChannel_spec [OF assms(1-4), THEN conjunct2]
    by (auto elim!: create_channel_InrE simp: valid_request_def add_channel_def)
  have ty: "chan_type_string k = Type ch" using k(1,3) assms(5) by (auto simp: enum_chan_type_def split: if_splits)
  obtain d where g: "ChannelRepository_GetByID (sqldb E) (channel_ID ch) (w_db w2) = (r, d)"
    using assms(7) by (auto simp: GetChannel_def split: prod.splits)
  note c = mysql_server.GetChannelByID_contract [OF backend.axioms(1) [OF assms(1)] g]
  show ?thesis
  proof (cases r)
    case (Inl e)
    with c(3) [OF Inl] show ?thesis
      by (auto simp: assms(6) k(4) has_conversation_def channel_row_of_def split: if_splits)
  next
    case (Inr x)
    from c(2) [OF Inr] k(2) have "x = channel_of (channel_row_of cf ch k)"
      by (auto simp: assms(6) k(4) has_defs)
    with Inr show ?thesis by (simp add: channel_of_def channel_row_of_def coalesce_def ty)
  qed
qed

end
