(* ===== verification/Sync_Service.thy ===== *)
theory Sync_Service
  imports Service
begin

text \<open>
  \<^verbatim>\<open>sync_service.go\<close>: the catch-up after a client was offline. The result of \<open>SyncDeltas\<close> is given exactly,
  whatever the order in which Go iterates the request map, and paging is shown complete: a
  client that asks again from the last identifier it got receives every stored message once.
\<close>

section \<open>SyncService\<close>

text \<open>
  The loop over the catch-up map, whose entries come in an order Go leaves open: the argument is
  the map's entries in the order of the iteration. The first error ends the request.
\<close>

fun sync_loop ::
    "'d sql_db \<Rightarrow> (string \<times> uint64) list \<Rightarrow> (string \<rightharpoonup> message list) \<Rightarrow> 'd
       \<Rightarrow> (go_error + (string \<rightharpoonup> message list)) \<times> 'd" where
  "sync_loop db [] deltas d = (Inr deltas, d)"
| "sync_loop db ((convID, lastMsgID) # rest) deltas d =
     (case GetMessagesSince db convID lastMsgID d of
        (Inl e, d) \<Rightarrow> (Inl e, d)
      | (Inr missed, d) \<Rightarrow>
          sync_loop db rest (if length missed > 0 then deltas(convID \<mapsto> missed) else deltas) d)"

definition SyncDeltas ::
    "('d, 'r) deps \<Rightarrow> (string \<times> uint64) list \<Rightarrow> ('d, 'r) world
       \<Rightarrow> (go_error + (string \<rightharpoonup> message list)) \<times> ('d, 'r) world" where
  "SyncDeltas E catchUpMap w =
     (let (r, d) = sync_loop (sqldb E) catchUpMap Map.empty (w_db w) in (r, w\<lparr>w_db := d\<rparr>))"

text \<open>A client that pages through one channel: \<open>n\<close> requests, each from the last identifier received.\<close>

fun catch_up :: "'d sql_db \<Rightarrow> string \<Rightarrow> uint64 \<Rightarrow> nat \<Rightarrow> 'd \<Rightarrow> (go_error + message list) \<times> 'd" where
  "catch_up db c l 0 d = (Inr [], d)"
| "catch_up db c l (Suc n) d =
     (case GetMessagesSince db c l d of
        (Inl e, d) \<Rightarrow> (Inl e, d)
      | (Inr [], d) \<Rightarrow> (Inr [], d)
      | (Inr (m # ms), d) \<Rightarrow>
          (case catch_up db c (msg_ID (last (m # ms))) n d of
             (Inl e, d) \<Rightarrow> (Inl e, d)
           | (Inr rest, d) \<Rightarrow> (Inr (m # ms @ rest), d)))"

section \<open>What a page holds\<close>

definition page :: "sql_conf \<Rightarrow> tables \<Rightarrow> string \<Rightarrow> uint64 \<Rightarrow> message list" where
  "page cf t c l = map message_of (take 100 (messages_since cf t c l))"

lemma messages_since_strict:
  assumes "tables_ok cf t"
  shows "sorted_wrt (<) (map r_id (messages_since cf t c l))"
proof -
  have "distinct (map r_id (filter (\<lambda>m. same cf (r_conversation_id m) c \<and> l < r_id m) (messages t)))"
    using assms by (simp add: tables_ok_def distinct_map_filter)
  then have "distinct (map r_id (messages_since cf t c l))" by (simp add: messages_since_def distinct_map)
  then show ?thesis by (simp add: strict_sorted_iff messages_since_def)
qed

lemma messages_since_above: "row \<in> set (messages_since cf t c l) \<Longrightarrow> l < r_id row"
  by (simp add: messages_since_def)

lemma messages_since_later:
  "l \<le> l' \<Longrightarrow> filter (\<lambda>m. l' < r_id m) (messages_since cf t c l) = messages_since cf t c l'"
  by (auto simp: messages_since_def filter_sort intro!: arg_cong [where f = "sort_key r_id"] filter_cong)

lemma filter_after_last:
  assumes "sorted_wrt (<) (map f (ys @ zs))" and "ys \<noteq> []"
  shows "filter (\<lambda>m. (f (last ys) :: uint64) < f m) (ys @ zs) = zs"
proof -
  have "\<not> f (last ys) < f y" if "y \<in> set ys" for y
  proof -
    have "sorted (map f ys)" using assms(1) by (simp add: sorted_wrt_append strict_sorted_iff)
    then show ?thesis
      using that assms(2) by (induction ys) (auto simp: not_less split: if_splits)
  qed
  moreover have "f (last ys) < f z" if "z \<in> set zs" for z
    using assms that by (auto simp: sorted_wrt_append)
  ultimately show ?thesis by (simp add: filter_empty_conv filter_id_conv)
qed

text \<open>The messages after a page are those after its last identifier.\<close>

lemma next_page:
  assumes "tables_ok cf t" and "messages_since cf t c l \<noteq> []"
  shows "messages_since cf t c (r_id (last (take 100 (messages_since cf t c l)))) = drop 100 (messages_since cf t c l)"
proof -
  let ?xs = "messages_since cf t c l" and ?ys = "take 100 (messages_since cf t c l)"
  have ne: "?ys \<noteq> []" using assms(2) by simp
  then have "last ?ys \<in> set ?xs" by (meson in_set_takeD last_in_set)
  then have "l \<le> r_id (last ?ys)" by (auto simp: messages_since_def)
  then have "messages_since cf t c (r_id (last ?ys)) = filter (\<lambda>m. r_id (last ?ys) < r_id m) (?ys @ drop 100 ?xs)"
    by (simp add: messages_since_later)
  also have "\<dots> = drop 100 ?xs"
    by (rule filter_after_last) (use ne messages_since_strict [OF assms(1)] in simp_all)
  finally show ?thesis .
qed

context mysql_server
begin

lemma sync_loop_contract:
  assumes "sync_loop db es deltas d = (r, d')" and "distinct (map fst es)"
  shows "tabs d' = tabs d"
    and "r = Inr ds \<Longrightarrow> ds c = (case map_of es c of None \<Rightarrow> deltas c
           | Some l \<Rightarrow> if page cf (tabs d) c l = [] then deltas c else Some (page cf (tabs d) c l))"
    and "r = Inl e \<Longrightarrow> storage_error e"
proof -
  have "tabs d' = tabs d \<and> (r = Inr ds \<longrightarrow> ds c = (case map_of es c of None \<Rightarrow> deltas c
           | Some l \<Rightarrow> if page cf (tabs d) c l = [] then deltas c else Some (page cf (tabs d) c l))) \<and>
      (r = Inl e \<longrightarrow> storage_error e)"
    using assms
  proof (induction es arbitrary: deltas d)
    case (Cons x es)
    obtain c1 l where x: "x = (c1, l)" by force
    obtain q d1 where q: "GetMessagesSince db c1 l d = (q, d1)" by force
    note g = GetMessagesSince_contract [OF q]
    show ?case
    proof (cases q)
      case (Inl y)
      with Cons.prems x q g show ?thesis by auto
    next
      case (Inr ms)
      have ms: "ms = page cf (tabs d) c1 l" using g(2) [OF Inr] by (simp add: page_def)
      from Cons.prems x q Inr
      have l: "sync_loop db es (if length ms > 0 then deltas(c1 \<mapsto> ms) else deltas) d1 = (r, d')" by simp
      have "c1 \<notin> fst ` set es" using Cons.prems x by auto
      then have "map_of es c1 = None" by (simp add: map_of_eq_None_iff)
      with Cons.IH [OF l] Cons.prems(2) g(1) show ?thesis
        by (auto simp: x ms split: option.splits if_splits)
    qed
  qed auto
  then show "tabs d' = tabs d"
    and "r = Inr ds \<Longrightarrow> ds c = (case map_of es c of None \<Rightarrow> deltas c
           | Some l \<Rightarrow> if page cf (tabs d) c l = [] then deltas c else Some (page cf (tabs d) c l))"
    and "r = Inl e \<Longrightarrow> storage_error e"
    by blast+
qed

lemma catch_up_contract:
  assumes "catch_up db c l n d = (Inr ms, d')" and "tables_ok cf (tabs d)"
    and "length (messages_since cf (tabs d) c l) \<le> 100 * n"
  shows "ms = map message_of (messages_since cf (tabs d) c l)"
  using assms
proof (induction n arbitrary: l ms d)
  case (Suc n)
  obtain q d1 where q: "GetMessagesSince db c l d = (q, d1)" by force
  note g = GetMessagesSince_contract [OF q]
  let ?xs = "messages_since cf (tabs d) c l"
  from Suc.prems(1) q obtain p where p: "q = Inr p" by (auto split: sum.splits)
  have p2: "p = map message_of (take 100 ?xs)" using g(2) [OF p] .
  show ?case
  proof (cases "?xs = []")
    case True
    with p2 q p Suc.prems(1) show ?thesis by simp
  next
    case False
    have id: "msg_ID (last p) = r_id (last (take 100 ?xs))"
      using False by (simp add: p2 last_map message_of_def)
    obtain m ms1 where pm: "p = m # ms1" using False p2 by (cases p) auto
    from Suc.prems(1) q p obtain rest where
      rest: "catch_up db c (msg_ID (last p)) n d1 = (Inr rest, d')" and ms: "ms = p @ rest"
      by (auto simp: pm split: sum.splits prod.splits)
    have "rest = map message_of (messages_since cf (tabs d1) c (msg_ID (last p)))"
      using Suc.prems(2,3) next_page [OF Suc.prems(2) False] by (intro Suc.IH [OF rest]) (simp_all add: g(1) id)
    then show ?thesis
      using next_page [OF Suc.prems(2) False] by (simp add: ms p2 g(1) id [unfolded p2] flip: map_append)
  qed
qed simp

end

section \<open>Properties\<close>

text \<open>A sample: a channel with two messages, stored in the order of arrival.\<close>

definition sync_world :: "(ref_server, ref_redis) world" where
  "sync_world = sample_world\<lparr>w_db := \<lparr>ref_tables = sample_tables\<lparr>messages := map (\<lambda>i. \<lparr>r_id = i, r_conversation_id = ''9'',
     r_sender_id = ''7'', r_content = ''hi'', r_created_at = Some 0\<rparr>) [7, 5]\<rparr>, ref_faults = []\<rparr>\<rparr>"

definition sync_msg :: "uint64 \<Rightarrow> message" where
  "sync_msg i = \<lparr>msg_ID = i, ConversationID = ''9'', SenderID = ''7'', Content = ''hi'', msg_CreatedAt = 0\<rparr>"

lemma sync_page: "page plain_conf (ref_tables (w_db sync_world)) ''9'' 3 = [sync_msg 5, sync_msg 7]"
  "page plain_conf (ref_tables (w_db sync_world)) ''8'' 0 = []"
  by (simp_all add: page_def messages_since_def sync_world_def sample_defs same_def message_of_def sync_msg_def)

lemma sync_ok: "tables_ok plain_conf (ref_tables (w_db sync_world))"
  by (simp add: tables_ok_def has_defs sync_world_def sample_defs)

lemma sample_sync:
  "SyncDeltas sample_deps [(''8'', 0), (''9'', 3)] sync_world = (Inr [''9'' \<mapsto> [sync_msg 5, sync_msg 7]], sync_world)"
  by (simp add: SyncDeltas_def GetMessagesSince_def QueryScan_def sample_defs sync_world_def messages_since_def same_def
      msg_cells_def sync_msg_def)

text \<open>
  (C14) The answer of \<open>SyncDeltas\<close>, exactly: each channel of the request is mapped to the first 100 stored
  messages above the client's last identifier, in order of identifier; a channel with none is left out,
  and nothing else is in the answer. So the answer does not depend on the order of the map iteration.
  Nothing is written.
\<close>

theorem SyncDeltas_exact:
  assumes "backend E cf tabs keys sent" and "SyncDeltas E es w = (Inr ds, w')" and "distinct (map fst es)"
  shows "ds = (\<lambda>c. case map_of es c of None \<Rightarrow> None
      | Some l \<Rightarrow> if page cf (tabs (w_db w)) c l = [] then None else Some (page cf (tabs (w_db w)) c l))
    \<and> tabs (w_db w') = tabs (w_db w) \<and> w_redis w' = w_redis w"
proof -
  obtain d where s: "sync_loop (sqldb E) es Map.empty (w_db w) = (Inr ds, d)" and w': "w' = w\<lparr>w_db := d\<rparr>"
    using assms(2) by (auto simp: SyncDeltas_def split: prod.splits)
  note c = mysql_server.sync_loop_contract [OF backend.axioms(1) [OF assms(1)] s assms(3)]
  show ?thesis using c(1) c(2) [OF refl] by (auto simp: w' fun_eq_iff split: option.splits)
qed

theorem SyncDeltas_exact_witness:
  "[''9'' \<mapsto> [sync_msg 5, sync_msg 7]] = (\<lambda>c. case map_of [(''8'', 0), (''9'', 3)] c of None \<Rightarrow> None
      | Some l \<Rightarrow> if page plain_conf (ref_tables (w_db sync_world)) c l = [] then None
                 else Some (page plain_conf (ref_tables (w_db sync_world)) c l))"
  using SyncDeltas_exact [OF sample_backend sample_sync] by simp

text \<open>
  What a client can rely on for one channel of the answer: a non-empty list of at most 100
  messages of that channel, all above its last identifier and strictly increasing, and without a gap:
  every stored message of the channel between the last identifier and the last message is there.
\<close>

lemma delta_in_order:
  assumes "backend E cf tabs keys sent" and "SyncDeltas E es w = (Inr ds, w')" and "distinct (map fst es)"
    and "tables_ok cf (tabs (w_db w))" and "(c, l) \<in> set es" and "ds c = Some ms"
  shows "ms \<noteq> [] \<and> length ms \<le> 100 \<and> sorted_wrt (<) (map msg_ID ms)
    \<and> (\<forall>m\<in>set ms. l < msg_ID m \<and> same cf (ConversationID m) c)
    \<and> (\<forall>row\<in>set (messages (tabs (w_db w))). same cf (r_conversation_id row) c \<and> l < r_id row \<and> r_id row \<le> msg_ID (last ms)
         \<longrightarrow> message_of row \<in> set ms)"
proof -
  obtain d where s: "sync_loop (sqldb E) es Map.empty (w_db w) = (Inr ds, d)"
    using assms(2) by (auto simp: SyncDeltas_def split: prod.splits)
  let ?xs = "messages_since cf (tabs (w_db w)) c l"
  have ms: "ms = map message_of (take 100 ?xs)" "?xs \<noteq> []"
    using mysql_server.sync_loop_contract(2) [OF backend.axioms(1) [OF assms(1)] s assms(3) refl, of c]
      assms(3,5,6) by (auto simp: map_of_is_SomeI page_def split: if_splits)
  have id: "msg_ID \<circ> message_of = r_id" "ConversationID \<circ> message_of = r_conversation_id"
    by (simp_all add: fun_eq_iff message_of_def)
  have "sorted_wrt (<) (map msg_ID ms)"
    using messages_since_strict [OF assms(4)] by (simp add: ms id sorted_wrt_take flip: take_map)
  moreover have "\<forall>m\<in>set ms. l < msg_ID m \<and> same cf (ConversationID m) c"
    by (auto simp: ms messages_since_def message_of_def dest!: in_set_takeD)
  moreover have "message_of row \<in> set ms"
    if row: "row \<in> set (messages (tabs (w_db w)))" "same cf (r_conversation_id row) c" "l < r_id row" "r_id row \<le> msg_ID (last ms)" for row
  proof -
    have last: "msg_ID (last ms) = r_id (last (take 100 ?xs))"
      using ms(2) by (simp add: ms(1) last_map message_of_def)
    have "row \<in> set ?xs" using row by (simp add: messages_since_def)
    moreover have "row \<notin> set (drop 100 ?xs)"
      using row(4) unfolding next_page [OF assms(4) ms(2), symmetric] last by (auto dest: messages_since_above)
    ultimately have "row \<in> set (take 100 ?xs)" by (metis Un_iff append_take_drop_id set_append)
    then show ?thesis by (simp add: ms(1))
  qed
  ultimately show ?thesis using ms by simp
qed

text \<open>
  (C15) Paging is complete: a client that keeps asking from the last identifier it received gets, after
  enough error-free requests, every stored message of the channel above its starting point, each
  once and in order of identifier. One request per started hundred is enough.
\<close>

theorem catch_up_complete:
  assumes "backend E cf tabs keys sent" and "catch_up (sqldb E) c l n d = (Inr ms, d')" and "tables_ok cf (tabs d)"
    and "length (messages_since cf (tabs d) c l) \<le> 100 * n"
  shows "ms = map message_of (messages_since cf (tabs d) c l)"
  by (rule mysql_server.catch_up_contract [OF backend.axioms(1) [OF assms(1)] assms(2-4)])

theorem catch_up_complete_witness:
  "\<exists>d'. catch_up (sqldb sample_deps) ''9'' 3 2 (w_db sync_world) = (Inr [sync_msg 5, sync_msg 7], d') \<and>
     [sync_msg 5, sync_msg 7] = map message_of (messages_since plain_conf (ref_tables (w_db sync_world)) ''9'' 3)"
proof -
  have r: "catch_up (sqldb sample_deps) ''9'' 3 2 (w_db sync_world) = (Inr [sync_msg 5, sync_msg 7], w_db sync_world)"
    unfolding numeral_2_eq_2 by (simp add: GetMessagesSince_def QueryScan_def sample_defs sync_world_def messages_since_def same_def
      msg_cells_def sync_msg_def)
  have "length (messages_since plain_conf (ref_tables (w_db sync_world)) ''9'' 3) \<le> 100 * 2"
    by (simp add: messages_since_def sync_world_def sample_defs)
  from catch_up_complete [OF sample_backend r sync_ok this] r show ?thesis by simp
qed

end
