(* ===== verification/Http_Handler.thy ===== *)
theory Http_Handler
  imports Message_Service User_Service Channel_Service Sync_Service
begin

text \<open>
  The HTTP layer of the API server: the handlers of \<^verbatim>\<open>message_handler.go\<close>. A request carries what the handlers read of it: method, path, the
  idempotency header and the \<^verbatim>\<open>user_id\<close> parameter (empty when absent), and the first JSON value of the
  body (\<open>None\<close> when there is none). A response is the status, the content type and the body; a JSON
  body is the Go value handed to the encoder, and a text that ends in \<^verbatim>\<open>err.Error()\<close> keeps the error.
\<close>

section \<open>Requests and responses\<close>

record request =
  Method :: string
  Path :: string
  idempotency_header :: string
  query_user_id :: string
  Body :: "json option"

datatype body =
    NoBody
  | Text string
  | ErrorText string go_error
  | JMessage message
  | JUser user
  | JChannel channel
  | JChannels "channel list"
  | JDeltas "string \<rightharpoonup> message list"

record response =
  StatusCode :: nat
  content_type :: string
  resp_body :: body

definition http_Error :: "body \<Rightarrow> nat \<Rightarrow> response" where
  "http_Error b code = \<lparr>StatusCode = code, content_type = ''text/plain; charset=utf-8'', resp_body = b\<rparr>"

definition http_JSON :: "body \<Rightarrow> nat \<Rightarrow> response" where
  "http_JSON b code = \<lparr>StatusCode = code, content_type = ''application/json'', resp_body = b\<rparr>"

definition http_NoContent :: response where
  "http_NoContent = \<lparr>StatusCode = 204, content_type = [], resp_body = NoBody\<rparr>"

definition method_not_allowed :: response where
  "method_not_allowed = http_Error (Text ''Method not allowed'') 405"

section \<open>Strings\<close>

definition TrimPrefix :: "string \<Rightarrow> string \<Rightarrow> string" where
  "TrimPrefix s p = (if take (length p) s = p then drop (length p) s else s)"

text \<open>\<^verbatim>\<open>strings.SplitN(s, "/", n)\<close>\<close>

fun SplitN :: "nat \<Rightarrow> string \<Rightarrow> string list" where
  "SplitN 0 s = []"
| "SplitN (Suc 0) s = [s]"
| "SplitN (Suc (Suc n)) s =
     (case dropWhile (\<lambda>c. c \<noteq> CHR ''/'') s of
        [] \<Rightarrow> [s]
      | _ # rest \<Rightarrow> takeWhile (\<lambda>c. c \<noteq> CHR ''/'') s # SplitN (Suc n) rest)"

text \<open>The white space of \<^verbatim>\<open>unicode.IsSpace\<close>, as UTF-8 bytes.\<close>

definition space_runes :: "string list" where
  "space_runes = map (\<lambda>n. [char_of (n :: nat)]) [9, 10, 11, 12, 13, 32]
     @ [[CHR 0xC2, CHR 0x85], [CHR 0xC2, CHR 0xA0], [CHR 0xE1, CHR 0x9A, CHR 0x80]]
     @ map (\<lambda>n. [CHR 0xE2, CHR 0x80, char_of (n :: nat)]) ([128..<139] @ [168, 169, 175])
     @ [[CHR 0xE2, CHR 0x81, CHR 0x9F], [CHR 0xE3, CHR 0x80, CHR 0x80]]"

definition starts_with :: "string \<Rightarrow> string \<Rightarrow> bool" where
  "starts_with s p \<longleftrightarrow> p \<noteq> [] \<and> take (length p) s = p"

lemma starts_with_shorter: "starts_with s p \<Longrightarrow> length s - length p < length s"
  by (cases s; cases p) (auto simp: starts_with_def)

function trim_left :: "string list \<Rightarrow> string \<Rightarrow> string" where
  "trim_left ps s = (case find (starts_with s) ps of None \<Rightarrow> s | Some p \<Rightarrow> trim_left ps (drop (length p) s))"
  by auto
termination
  by (relation "measure (length \<circ> snd)") (auto simp: find_Some_iff intro: starts_with_shorter)

definition TrimSpace :: "string \<Rightarrow> string" where
  "TrimSpace s = rev (trim_left (map rev space_runes) (rev (trim_left space_runes s)))"

section \<open>MessageHandler and SyncHandler\<close>

definition decode_send :: "json \<Rightarrow> (string \<times> string \<times> string) option" where
  "decode_send v = do {
     kvs \<leftarrow> json_members v;
     c \<leftarrow> decode_field json_string ''conversation_id'' kvs [];
     s \<leftarrow> decode_field json_string ''sender_id'' kvs [];
     x \<leftarrow> decode_field json_string ''content'' kvs [];
     Some (c, s, x)
   }"

definition send_error_response :: "go_error \<Rightarrow> response" where
  "send_error_response err =
     (if errors_Is err ErrDuplicateRequest then http_Error (ErrorText [] err) 409
      else if errors_Is err ErrNotMember then http_Error (Text ''Forbidden: sender is not a member of this channel'') 403
      else http_Error (ErrorText ''Internal server error: '' err) 500)"

definition HandleSendMessage ::
    "('d, 'r) deps \<Rightarrow> request \<Rightarrow> ('d, 'r) world \<Rightarrow> (response \<times> ('d, 'r) world) option" where
  "HandleSendMessage E r w =
     (if Method r \<noteq> ''POST'' then Some (method_not_allowed, w)
      else (case Option.bind (Body r) decode_send of
              None \<Rightarrow> Some (http_Error (Text ''Invalid payload'') 400, w)
            | Some (conv, sender, content) \<Rightarrow>
                if conv = [] \<or> sender = [] \<or> content = []
                then Some (http_Error (Text ''conversation_id, sender_id, and content are required'') 400, w)
                else do {
                  (err, msg, w) \<leftarrow> SendMessage E
                    \<lparr>msg_ID = 0, ConversationID = conv, SenderID = sender, Content = content, msg_CreatedAt = zero_time\<rparr>
                    (idempotency_header r) w;
                  Some (case err of Some e \<Rightarrow> send_error_response e | None \<Rightarrow> http_JSON (JMessage msg) 202, w)
                }))"

text \<open>The body of a catch-up request, as the map it decodes to.\<close>

definition decode_catch_up :: "json \<Rightarrow> (string \<rightharpoonup> uint64) option" where
  "decode_catch_up v = Option.bind (json_members v) (\<lambda>kvs. decode_map kvs Map.empty)"

text \<open>\<open>order\<close> is the order in which Go iterates the decoded map.\<close>

definition HandleDeltaSync ::
    "('d, 'r) deps \<Rightarrow> ((string \<rightharpoonup> uint64) \<Rightarrow> (string \<times> uint64) list) \<Rightarrow> request \<Rightarrow> ('d, 'r) world
       \<Rightarrow> response \<times> ('d, 'r) world" where
  "HandleDeltaSync E order r w =
     (if Method r \<noteq> ''POST'' then (method_not_allowed, w)
      else (case Option.bind (Body r) decode_catch_up of
              None \<Rightarrow> (http_Error (Text ''Invalid payload: expected { channelID: lastMessageID }'') 400, w)
            | Some catchUpMap \<Rightarrow>
                (case SyncDeltas E (order catchUpMap) w of
                   (Inl err, w) \<Rightarrow> (http_Error (ErrorText ''Delta sync failed: '' err) 500, w)
                 | (Inr deltas, w) \<Rightarrow> (http_JSON (JDeltas deltas) 200, w))))"

section \<open>UserHandler\<close>

definition decode_username :: "json \<Rightarrow> string option" where
  "decode_username v = Option.bind (json_members v) (\<lambda>kvs. decode_field json_string ''username'' kvs [])"

definition HandleUsers ::
    "('d, 'r) deps \<Rightarrow> request \<Rightarrow> ('d, 'r) world \<Rightarrow> (response \<times> ('d, 'r) world) option" where
  "HandleUsers E r w =
     (if Method r \<noteq> ''POST'' then Some (method_not_allowed, w)
      else let bad = Some (http_Error (Text ''Invalid payload: username is required'') 400, w)
        in (case Option.bind (Body r) decode_username of
              None \<Rightarrow> bad
            | Some username \<Rightarrow>
                if TrimSpace username = [] then bad
                else do {
                  (res, w) \<leftarrow> CreateUser E (TrimSpace username) w;
                  Some (case res of
                      Inl err \<Rightarrow> if errors_Is err ErrUsernameTaken then http_Error (ErrorText [] err) 409
                                 else http_Error (ErrorText ''Failed to create user: '' err) 500
                    | Inr user \<Rightarrow> http_JSON (JUser user) 201, w)
                }))"

definition HandleUserByID :: "('d, 'r) deps \<Rightarrow> request \<Rightarrow> ('d, 'r) world \<Rightarrow> response \<times> ('d, 'r) world" where
  "HandleUserByID E r w =
     (if Method r \<noteq> ''GET'' then (method_not_allowed, w)
      else let i = TrimPrefix (Path r) ''/api/v1/users/''
        in if i = [] then (http_Error (Text ''User ID is required'') 400, w)
           else (case GetUser E i w of
                   (Inl err, w) \<Rightarrow>
                     (if errors_Is err ErrUserNotFound then http_Error (Text ''User not found'') 404
                      else http_Error (ErrorText ''Failed to fetch user: '' err) 500, w)
                 | (Inr user, w) \<Rightarrow> (http_JSON (JUser user) 200, w)))"

section \<open>ChannelHandler\<close>

definition decode_channel :: "json \<Rightarrow> (string \<times> string \<times> string \<times> string list) option" where
  "decode_channel v = do {
     kvs \<leftarrow> json_members v;
     n \<leftarrow> decode_field json_string ''name'' kvs [];
     ty \<leftarrow> decode_field json_string ''type'' kvs [];
     b \<leftarrow> decode_field json_string ''created_by'' kvs [];
     us \<leftarrow> decode_slice ''member_ids'' kvs [];
     Some (n, ty, b, us)
   }"

definition createChannel ::
    "('d, 'r) deps \<Rightarrow> request \<Rightarrow> ('d, 'r) world \<Rightarrow> (response \<times> ('d, 'r) world) option" where
  "createChannel E r w =
     (case Option.bind (Body r) decode_channel of
        None \<Rightarrow> Some (http_Error (Text ''Invalid payload'') 400, w)
      | Some (name, ty, createdBy, memberIDs) \<Rightarrow>
          if createdBy = [] then Some (http_Error (Text ''created_by is required'') 400, w)
          else let ty = (if ty = [] then ''GROUP'' else ty)
          in do {
            (res, w) \<leftarrow> CreateChannel E name ty createdBy memberIDs w;
            Some (case res of
                Inl err \<Rightarrow> http_Error (ErrorText ''Failed to create channel: '' err) 400
              | Inr ch \<Rightarrow> http_JSON (JChannel ch) 201, w)
          })"

definition listChannels :: "('d, 'r) deps \<Rightarrow> request \<Rightarrow> ('d, 'r) world \<Rightarrow> response \<times> ('d, 'r) world" where
  "listChannels E r w =
     (if query_user_id r = [] then (http_Error (Text ''user_id query param is required'') 400, w)
      else (case GetUserChannels E (query_user_id r) w of
              (Inl err, w) \<Rightarrow> (http_Error (ErrorText ''Failed to fetch channels: '' err) 500, w)
            | (Inr channels, w) \<Rightarrow> (http_JSON (JChannels channels) 200, w)))"

definition HandleChannels ::
    "('d, 'r) deps \<Rightarrow> request \<Rightarrow> ('d, 'r) world \<Rightarrow> (response \<times> ('d, 'r) world) option" where
  "HandleChannels E r w =
     (if Method r = ''POST'' then createChannel E r w
      else if Method r = ''GET'' then Some (listChannels E r w)
      else Some (method_not_allowed, w))"

definition decode_user_id :: "json \<Rightarrow> string option" where
  "decode_user_id v = Option.bind (json_members v) (\<lambda>kvs. decode_field json_string ''user_id'' kvs [])"

definition HandleChannelRoute :: "('d, 'r) deps \<Rightarrow> request \<Rightarrow> ('d, 'r) world \<Rightarrow> response \<times> ('d, 'r) world" where
  "HandleChannelRoute E r w =
     (let parts = SplitN 3 (TrimPrefix (Path r) ''/api/v1/channels/''); channelID = parts ! 0
      in if channelID = [] then (http_Error (Text ''Channel ID is required'') 400, w)
         else if length parts = 1 then
           if Method r \<noteq> ''GET'' then (method_not_allowed, w)
           else (case GetChannel E channelID w of
                   (Inl err, w) \<Rightarrow>
                     (if errors_Is err ErrChannelNotFound then http_Error (Text ''Channel not found'') 404
                      else http_Error (ErrorText ''Failed to fetch channel: '' err) 500, w)
                 | (Inr ch, w) \<Rightarrow> (http_JSON (JChannel ch) 200, w))
         else if parts ! 1 \<noteq> ''members'' then (http_Error (Text ''Unknown resource path'') 404, w)
         else if Method r = ''POST'' then
           (case Option.bind (Body r) decode_user_id of
              None \<Rightarrow> (http_Error (Text ''user_id is required'') 400, w)
            | Some u \<Rightarrow>
                if u = [] then (http_Error (Text ''user_id is required'') 400, w)
                else (case ChannelService_AddMember E channelID u w of
                        (Some err, w) \<Rightarrow> (http_Error (ErrorText ''Failed to add member: '' err) 500, w)
                      | (None, w) \<Rightarrow> (http_NoContent, w)))
         else if Method r = ''DELETE'' then
           if length parts < 3 \<or> parts ! 2 = [] then (http_Error (Text ''user_id is required in path for DELETE'') 400, w)
           else (case ChannelService_RemoveMember E channelID (parts ! 2) w of
                   (Some err, w) \<Rightarrow> (http_Error (ErrorText ''Failed to remove member: '' err) 500, w)
                 | (None, w) \<Rightarrow> (http_NoContent, w))
         else (method_not_allowed, w))"

section \<open>The requests of the handlers\<close>

definition request_message :: "string \<times> string \<times> string \<Rightarrow> message" where
  "request_message = (\<lambda>(c, s, x). \<lparr>msg_ID = 0, ConversationID = c, SenderID = s, Content = x, msg_CreatedAt = zero_time\<rparr>)"

text \<open>The requests that reach the service, and the message they carry.\<close>

definition send_request :: "request \<Rightarrow> message option" where
  "send_request r =
     (if Method r \<noteq> ''POST'' then None
      else (case Option.bind (Body r) decode_send of
              None \<Rightarrow> None
            | Some (c, s, x) \<Rightarrow> if c = [] \<or> s = [] \<or> x = [] then None else Some (request_message (c, s, x))))"

lemma HandleSendMessage_cases:
  assumes "HandleSendMessage E r w = Some (resp, w')"
  obtains
    (refused) "send_request r = None" "StatusCode resp = 400 \<or> StatusCode resp = 405" "w' = w"
  | (failed) msg err m where "send_request r = Some msg"
      "SendMessage E msg (idempotency_header r) w = Some (Some err, m, w')" "resp = send_error_response err"
  | (accepted) msg m where "send_request r = Some msg"
      "SendMessage E msg (idempotency_header r) w = Some (None, m, w')" "resp = http_JSON (JMessage m) 202"
proof (cases "send_request r")
  case None
  with assms show ?thesis
    by (intro refused) (auto simp: HandleSendMessage_def send_request_def method_not_allowed_def http_Error_def
        split: if_splits option.splits)
next
  case (Some msg)
  then have "HandleSendMessage E r w = Option.bind (SendMessage E msg (idempotency_header r) w)
      (\<lambda>(err, m, w'). Some (case err of Some e \<Rightarrow> send_error_response e | None \<Rightarrow> http_JSON (JMessage m) 202, w'))"
    by (auto simp: HandleSendMessage_def send_request_def request_message_def split: if_splits option.splits)
  with assms obtain err m where s: "SendMessage E msg (idempotency_header r) w = Some (err, m, w')"
    and resp: "resp = (case err of Some e \<Rightarrow> send_error_response e | None \<Rightarrow> http_JSON (JMessage m) 202)"
    by (auto simp: bind_eq_Some_conv)
  show ?thesis
  proof (cases err)
    case None
    with Some s resp show ?thesis by (intro accepted) simp_all
  next
    case (Some e)
    with \<open>send_request r = Some msg\<close> s resp show ?thesis by (intro failed) simp_all
  qed
qed

lemma send_error_status:
  "StatusCode (send_error_response e) =
     (if errors_Is e ErrDuplicateRequest then 409 else if errors_Is e ErrNotMember then 403 else 500)"
  by (simp add: send_error_response_def http_Error_def)

text \<open>The errors of the specification, by the status they are mapped to.\<close>

lemma spec_status:
  assumes "send_spec cf tj key m b (Some e) b'"
  shows "errors_Is e ErrDuplicateRequest \<Longrightarrow> e = ErrDuplicateRequest \<and> key \<noteq> [] \<and> b_keys b (lock_name key) \<noteq> None \<and> b' = b"
    and "errors_Is e ErrNotMember \<Longrightarrow> e = ErrNotMember \<and> \<not> has_member cf (b_tabs b) (ConversationID m) (SenderID m) \<and> locked key b b'"
proof -
  show "errors_Is e ErrDuplicateRequest \<Longrightarrow> e = ErrDuplicateRequest \<and> key \<noteq> [] \<and> b_keys b (lock_name key) \<noteq> None \<and> b' = b"
    using assms by (cases rule: send_spec.cases) (auto simp: errors_Is_storage)
  show "errors_Is e ErrNotMember \<Longrightarrow> e = ErrNotMember \<and> \<not> has_member cf (b_tabs b) (ConversationID m) (SenderID m) \<and> locked key b b'"
    using assms by (cases rule: send_spec.cases) (auto simp: errors_Is_storage)
qed

lemma SplitN_slash:
  "CHR ''/'' \<notin> set a \<Longrightarrow> SplitN (Suc (Suc n)) (a @ CHR ''/'' # b) = a # SplitN (Suc n) b"
proof -
  assume "CHR ''/'' \<notin> set a"
  then have "\<forall>x\<in>set a. x \<noteq> CHR ''/''" by metis
  then have "dropWhile (\<lambda>c. c \<noteq> CHR ''/'') (a @ CHR ''/'' # b) = CHR ''/'' # b"
    "takeWhile (\<lambda>c. c \<noteq> CHR ''/'') (a @ CHR ''/'' # b) = a"
    by (simp_all add: dropWhile_append2 takeWhile_append2)
  then show ?thesis by simp
qed

declare trim_left.simps [simp del]

lemma trim_left_suffix: "\<exists>p. s = p @ trim_left ps s"
proof (induction ps s rule: trim_left.induct)
  case (1 ps s)
  show ?case
  proof (cases "find (starts_with s) ps")
    case None
    then show ?thesis by (simp add: trim_left.simps)
  next
    case (Some q)
    then have "s = q @ drop (length q) s"
      by (metis append_take_drop_id find_Some_iff starts_with_def)
    moreover obtain p where "drop (length q) s = p @ trim_left ps (drop (length q) s)"
      using "1.IH" [OF Some] by blast
    ultimately have "s = (q @ p) @ trim_left ps s"
      using Some by (simp add: trim_left.simps [of ps s])
    then show ?thesis by blast
  qed
qed

lemma length_TrimSpace: "length (TrimSpace s) \<le> length s"
proof -
  have *: "length (trim_left ps s) \<le> length s" for ps s
    using trim_left_suffix [of s ps] by (metis le_add2 length_append)
  show ?thesis
    using * [of space_runes s] * [of "map rev space_runes" "rev (trim_left space_runes s)"] by (simp add: TrimSpace_def)
qed

section \<open>Properties\<close>

text \<open>
  (C21) What a client learns from \<^verbatim>\<open>POST /api/v1/messages\<close>. 202: the body is the stored message, with the
  request's channel, sender and text, and the sender is a member. 403: the sender is not a member.
  409: a key was given and is in use. 400 and 405: the request did not carry a message. After any of
  400, 403, 405 and 409 nothing has been stored or published.
\<close>

theorem send_responses:
  assumes "backend E cf tabs keys sent" and "HandleSendMessage E r w = Some (resp, w')"
    and "\<forall>msg. send_request r = Some msg \<longrightarrow> message_fits msg"
  shows "(StatusCode resp = 202 \<and>
      (\<exists>msg m. send_request r = Some msg \<and> resp_body resp = JMessage m \<and> ConversationID m = ConversationID msg \<and>
         SenderID m = SenderID msg \<and> Content m = Content msg \<and>
         has_member cf (tabs (w_db w)) (ConversationID m) (SenderID m) \<and>
         sql_exec cf (insert_stmt m) (tabs (w_db w)) = Some (tabs (w_db w')) \<and>
         (\<exists>v. Marshal_message (tjson E) m = Inr v \<and>
            sent (w_redis w') = sent (w_redis w) @ [(''chat:room:'' @ ConversationID m, v)])))
    \<or> tabs (w_db w') = tabs (w_db w) \<and> sent (w_redis w') = sent (w_redis w) \<and>
      (StatusCode resp \<in> {400, 405} \<and> send_request r = None
       \<or> StatusCode resp = 403 \<and> (\<exists>msg. send_request r = Some msg \<and>
           \<not> has_member cf (tabs (w_db w)) (ConversationID msg) (SenderID msg))
       \<or> StatusCode resp = 409 \<and> idempotency_header r \<noteq> [] \<and>
           keys (w_redis w) (lock_name (idempotency_header r)) \<noteq> None)
    \<or> StatusCode resp = 500"
  using assms(2)
proof (cases rule: HandleSendMessage_cases)
  case refused
  then show ?thesis by auto
next
  case (failed msg err m)
  have fits: "message_fits msg" using assms(3) failed(1) by blast
  have same: "ConversationID m = ConversationID msg" "SenderID m = SenderID msg"
    using failed(2) by (cases rule: SendMessage_cases; simp)+
  note s = spec_status [OF backend.SendMessage_spec [OF assms(1) failed(2) fits]]
  show ?thesis
  proof (cases "errors_Is err ErrDuplicateRequest \<or> errors_Is err ErrNotMember")
    case True
    with s failed(1) show ?thesis
      by (auto simp: failed(3) send_error_status board_of_simps same board_of_def dest!: locked_keeps)
  next
    case False
    then show ?thesis by (simp add: failed(3) send_error_status)
  qed
next
  case (accepted msg m)
  have fits: "message_fits msg" using assms(3) accepted(1) by blast
  have same: "ConversationID m = ConversationID msg" "SenderID m = SenderID msg" "Content m = Content msg"
    using accepted(2) by (cases rule: SendMessage_cases; simp)+
  have "send_request r = Some msg \<and> resp_body resp = JMessage m \<and> StatusCode resp = 202"
    using accepted by (simp add: http_JSON_def)
  with same spec_accepted [OF backend.SendMessage_spec [OF assms(1) accepted(2) fits]] show ?thesis
    by (simp add: board_of_simps)
qed

definition sample_request :: "string \<Rightarrow> request" where
  "sample_request sender = \<lparr>Method = ''POST'', Path = ''/api/v1/messages'', idempotency_header = ''k'', query_user_id = [],
     Body = Some (JObj [(''conversation_id'', JStr ''9''), (''sender_id'', JStr sender), (''content'', JStr ''hi'')])\<rparr>"

lemma sample_send_request: "sender \<noteq> [] \<Longrightarrow> send_request (sample_request sender) = Some (sample_msg sender)"
  by (simp add: send_request_def sample_request_def decode_send_def request_message_def sample_msg_def)

theorem send_responses_witness:
  "(\<exists>w'. HandleSendMessage sample_deps (sample_request ''7'') sample_world = Some (http_JSON (JMessage sent_msg) 202, w')) \<and>
   has_member plain_conf (ref_tables (w_db sample_world)) (ConversationID sent_msg) (SenderID sent_msg)"
proof -
  have h: "HandleSendMessage sample_deps (sample_request ''7'') sample_world = Some (http_JSON (JMessage sent_msg) 202, after_send)"
    using sample_send
    by (simp add: HandleSendMessage_def sample_request_def decode_send_def sample_msg_def)
  from send_responses [OF sample_backend h] show ?thesis
    using h by (auto simp: sample_send_request sample_fits http_JSON_def)
qed

text \<open>
  What a client learns from \<^verbatim>\<open>POST /api/v1/users\<close>. 201: the body is the new user, whose name is the
  requested one without surrounding white space, not empty and new; it has been added and nothing else
  has changed. 409: the name is taken. 400 and 405: no name was given or the method is wrong. Unless the answer is 201 or
  500, nothing has changed in the tables.
\<close>

lemma user_responses:
  assumes "backend E cf tabs keys sent" and "HandleUsers E r w = Some (resp, w')"
    and "\<forall>n. Option.bind (Body r) decode_username = Some n \<longrightarrow> length n \<le> 100"
  shows "(StatusCode resp = 201 \<and>
      (\<exists>n u. Option.bind (Body r) decode_username = Some n \<and> resp_body resp = JUser u \<and> Username u = TrimSpace n \<and>
         Username u \<noteq> [] \<and> \<not> has_username cf (tabs (w_db w)) (Username u) \<and>
         tabs (w_db w') = add_user cf u (tabs (w_db w))))
    \<or> tabs (w_db w') = tabs (w_db w) \<and>
      (StatusCode resp \<in> {400, 405} \<or> StatusCode resp = 409 \<and>
         (\<exists>n. Option.bind (Body r) decode_username = Some n \<and> has_username cf (tabs (w_db w)) (TrimSpace n)))
    \<or> StatusCode resp = 500"
proof (cases "Method r = ''POST'' \<and> (\<exists>n. Option.bind (Body r) decode_username = Some n \<and> TrimSpace n \<noteq> [])")
  case False
  with assms(2) show ?thesis
    by (auto simp: HandleUsers_def method_not_allowed_def http_Error_def Let_def split: if_splits option.splits)
next
  case True
  then obtain n where n: "Method r = ''POST''" "Option.bind (Body r) decode_username = Some n" "TrimSpace n \<noteq> []" by blast
  with assms(2) obtain res where c: "CreateUser E (TrimSpace n) w = Some (res, w')"
    and resp: "resp = (case res of
        Inl err \<Rightarrow> if errors_Is err ErrUsernameTaken then http_Error (ErrorText [] err) 409
                   else http_Error (ErrorText ''Failed to create user: '' err) 500
      | Inr user \<Rightarrow> http_JSON (JUser user) 201)"
    by (auto simp: HandleUsers_def Let_def bind_eq_Some_conv)
  have "length (TrimSpace n) \<le> 100" using assms(3) n(2) length_TrimSpace [of n] by fastforce
  from backend.CreateUser_spec [OF assms(1) c this, THEN conjunct2] show ?thesis
    by (cases rule: create_user_spec.cases) (use n resp in \<open>auto simp: http_JSON_def http_Error_def errors_Is_storage\<close>)
qed

lemma sample_trim: "TrimSpace '' bob'' = ''bob''"
  by (simp add: TrimSpace_def trim_left.simps space_runes_def starts_with_def upt_rec char_of_def bit_0)

text \<open>
  The member route: for a channel identifier without a slash, \<^verbatim>\<open>DELETE\<close> on
  \<^verbatim>\<open>/api/v1/channels/{id}/members/{userID}\<close> runs exactly \<open>RemoveMember\<close> on that channel and user (the user
  identifier is everything after the third slash), and answers 204 on success, 500 on an error.
\<close>

lemma delete_member_route:
  assumes "c \<noteq> []" and "CHR ''/'' \<notin> set c" and "u \<noteq> []"
    and "Method r = ''DELETE''" and "Path r = ''/api/v1/channels/'' @ c @ ''/members/'' @ u"
  shows "HandleChannelRoute E r w =
    (case ChannelService_RemoveMember E c u w of
       (None, w') \<Rightarrow> (http_NoContent, w')
     | (Some err, w') \<Rightarrow> (http_Error (ErrorText ''Failed to remove member: '' err) 500, w'))"
proof -
  have "SplitN 3 (TrimPrefix (Path r) ''/api/v1/channels/'') = [c, ''members'', u]"
    using SplitN_slash [OF assms(2), of 1 "''members/'' @ u"] SplitN_slash [of "''members''" 0 u]
    by (simp add: assms(5) TrimPrefix_def numeral_3_eq_3 del: SplitN.simps(3))
  with assms(1,3,4) show ?thesis
    by (simp add: HandleChannelRoute_def Let_def split: prod.split option.split)
qed

end
