(* ===== verification/Api_Server.thy ===== *)
theory Api_Server
  imports Http_Handler
begin

text \<open>
  The API server as a whole: the routes of \<^verbatim>\<open>api-server/main.go\<close> over the handlers, and the server as a
  state machine whose steps are served requests and the writes of the other API nodes that share the
  database. The invariants of the store are proved once for the statements and carried to every
  reachable state.
\<close>

section \<open>Routes\<close>

datatype endpoint = Messages | SyncEndpoint | Users | UserByID | Channels | ChannelRoute | NotFound

text \<open>
  The patterns of \<^verbatim>\<open>main\<close>: a pattern that ends in a slash matches its subtree. Paths that are not
  clean (empty, \<^verbatim>\<open>.\<close> or \<^verbatim>\<open>..\<close> segments) are redirected by \<^verbatim>\<open>net/http\<close> before they get here.
\<close>

definition route :: "string \<Rightarrow> endpoint" where
  "route p =
     (if p = ''/api/v1/messages'' then Messages
      else if p = ''/api/v1/sync/deltas'' then SyncEndpoint
      else if p = ''/api/v1/users'' then Users
      else if starts_with p ''/api/v1/users/'' then UserByID
      else if p = ''/api/v1/channels'' then Channels
      else if starts_with p ''/api/v1/channels/'' then ChannelRoute
      else NotFound)"

definition ServeHTTP ::
    "('d, 'r) deps \<Rightarrow> ((string \<rightharpoonup> uint64) \<Rightarrow> (string \<times> uint64) list) \<Rightarrow> request \<Rightarrow> ('d, 'r) world
       \<Rightarrow> (response \<times> ('d, 'r) world) option" where
  "ServeHTTP E order r w =
     (case route (Path r) of
        Messages \<Rightarrow> HandleSendMessage E r w
      | SyncEndpoint \<Rightarrow> Some (HandleDeltaSync E order r w)
      | Users \<Rightarrow> HandleUsers E r w
      | UserByID \<Rightarrow> Some (HandleUserByID E r w)
      | Channels \<Rightarrow> HandleChannels E r w
      | ChannelRoute \<Rightarrow> Some (HandleChannelRoute E r w)
      | NotFound \<Rightarrow> Some (http_Error (Text ''404 page not found'') 404, w))"

section \<open>Histories of statements\<close>

text \<open>What any number of statements can make of the tables.\<close>

inductive sql_steps :: "sql_conf \<Rightarrow> tables \<Rightarrow> tables \<Rightarrow> bool" for cf where
  none [intro]: "sql_steps cf t t"
| more: "sql_exec cf s t = Some t1 \<Longrightarrow> sql_steps cf t1 t2 \<Longrightarrow> sql_steps cf t t2"

lemma sql_steps_one: "sql_exec cf s t = Some t' \<Longrightarrow> sql_steps cf t t'"
  by (rule sql_steps.more [OF _ sql_steps.none])

lemma sql_steps_trans: "sql_steps cf t t1 \<Longrightarrow> sql_steps cf t1 t2 \<Longrightarrow> sql_steps cf t t2"
  by (induction rule: sql_steps.induct) (auto intro: sql_steps.more)

lemma sql_steps_ok: "sql_steps cf t t' \<Longrightarrow> tables_ok cf t \<Longrightarrow> tables_ok cf t'"
  by (induction rule: sql_steps.induct) (auto dest: sql_exec_keeps_ok)

lemma steps_add_member: "sql_steps cf t (add_member cf c u t)"
  by (rule sql_steps_one [OF insert_member_exec])

lemma steps_enrol: "sql_steps cf t (enrol cf c us t)"
  by (induction us arbitrary: t) (auto intro: sql_steps_trans [OF steps_add_member])

lemma steps_enrol_failed: "enrol_failed cf c us t e t' \<Longrightarrow> sql_steps cf t t'"
  by (induction rule: enrol_failed.induct) (auto intro: steps_add_member sql_steps_trans [OF steps_add_member])

lemma steps_add_user:
  "\<not> has_user cf t (user_ID u) \<Longrightarrow> \<not> has_username cf t (Username u) \<Longrightarrow> sql_steps cf t (add_user cf u t)"
  by (rule sql_steps_one [OF insert_user_exec [THEN iffD2]]) blast

lemma steps_create_user: "create_user_spec cf n t r t' \<Longrightarrow> sql_steps cf t t'"
  by (cases rule: create_user_spec.cases) (auto intro: steps_add_user)

lemma steps_add_channel:
  "enum_chan_type cf (Type ch) = Some k \<Longrightarrow> \<not> has_conversation cf t (channel_ID ch) \<Longrightarrow> sql_steps cf t (add_channel cf ch k t)"
  by (rule sql_steps_one [OF insert_channel_exec [THEN iffD2]]) blast

lemma steps_create_channel: "create_channel_spec cf n ty b us t r t' \<Longrightarrow> sql_steps cf t t'"
  by (cases rule: create_channel_spec.cases)
    (auto intro: steps_add_channel sql_steps_trans [OF steps_add_channel steps_enrol]
      sql_steps_trans [OF steps_add_channel steps_enrol_failed])

lemma steps_send: "send_spec cf tj key m b r b' \<Longrightarrow> sql_steps cf (b_tabs b) (b_tabs b')"
  by (cases rule: send_spec.cases) (auto dest!: locked_keeps published_keeps intro: sql_steps_one)

text \<open>The fields of a request fit the columns they are stored in.\<close>

definition request_fits :: "request \<Rightarrow> bool" where
  "request_fits r \<longleftrightarrow>
     (case send_request r of None \<Rightarrow> True | Some msg \<Rightarrow> message_fits msg) \<and>
     (case Option.bind (Body r) decode_username of None \<Rightarrow> True | Some n \<Rightarrow> length n \<le> 100) \<and>
     (case Option.bind (Body r) decode_channel of None \<Rightarrow> True
      | Some (n, ty, b, us) \<Rightarrow> length n \<le> 100 \<and> list_all (\<lambda>u. length u \<le> 64) (b # us)) \<and>
     (case Option.bind (Body r) decode_user_id of None \<Rightarrow> True | Some u \<Rightarrow> length u \<le> 64) \<and>
     length (SplitN 3 (TrimPrefix (Path r) ''/api/v1/channels/'') ! 0) \<le> 64"

context backend
begin

lemma read_only:
  "GetUser E i w = (a, w') \<Longrightarrow> tabs (w_db w') = tabs (w_db w) \<and> w_redis w' = w_redis w \<and> w_gen w' = w_gen w"
  "GetChannel E i w = (b, w') \<Longrightarrow> tabs (w_db w') = tabs (w_db w) \<and> w_redis w' = w_redis w \<and> w_gen w' = w_gen w"
  "GetUserChannels E i w = (c, w') \<Longrightarrow> tabs (w_db w') = tabs (w_db w) \<and> w_redis w' = w_redis w \<and> w_gen w' = w_gen w"
  by (auto simp: GetUser_def GetChannel_def GetUserChannels_def split: prod.splits
      dest: GetUserByID_contract(1) GetChannelByID_contract(1) GetByUser_contract(1))

lemma sync_read_only:
  "SyncDeltas E es w = (r, w') \<Longrightarrow> tabs (w_db w') = tabs (w_db w) \<and> w_redis w' = w_redis w \<and> w_gen w' = w_gen w"
proof -
  have loop: "sync_loop (sqldb E) es ds d = (r, d') \<Longrightarrow> tabs d' = tabs d" for es ds d r d'
    by (induction es arbitrary: ds d)
      (auto split: prod.splits sum.splits dest: GetMessagesSince_contract(1))
  show "SyncDeltas E es w = (r, w') \<Longrightarrow> tabs (w_db w') = tabs (w_db w) \<and> w_redis w' = w_redis w \<and> w_gen w' = w_gen w"
    by (auto simp: SyncDeltas_def split: prod.splits dest: loop)
qed

lemma HandleSendMessage_steps:
  assumes "HandleSendMessage E r w = Some (resp, w')" and "request_fits r"
  shows "sql_steps cf (tabs (w_db w)) (tabs (w_db w'))"
  using assms(1)
proof (cases rule: HandleSendMessage_cases)
  case refused
  then show ?thesis by auto
next
  case (failed msg err m)
  then show ?thesis
    using steps_send [OF SendMessage_spec [OF failed(2)]] assms(2) by (simp add: request_fits_def board_of_simps)
next
  case (accepted msg m)
  then show ?thesis
    using steps_send [OF SendMessage_spec [OF accepted(2)]] assms(2) by (simp add: request_fits_def board_of_simps)
qed

lemma HandleUsers_steps:
  assumes "HandleUsers E r w = Some (resp, w')" and "request_fits r"
  shows "sql_steps cf (tabs (w_db w)) (tabs (w_db w'))"
proof (cases "w' = w")
  case True
  then show ?thesis by auto
next
  case False
  with assms(1) obtain n res where n: "Option.bind (Body r) decode_username = Some n"
    and c: "CreateUser E (TrimSpace n) w = Some (res, w')"
    by (auto simp: HandleUsers_def Let_def bind_eq_Some_conv split: if_splits option.splits)
  have "length (TrimSpace n) \<le> 100" using assms(2) n length_TrimSpace [of n] by (simp add: request_fits_def)
  with CreateUser_spec [OF c] show ?thesis by (auto intro: steps_create_user)
qed

lemma HandleChannels_steps:
  assumes "HandleChannels E r w = Some (resp, w')" and "request_fits r"
  shows "sql_steps cf (tabs (w_db w)) (tabs (w_db w'))"
proof (cases "Method r = ''POST'' \<and> w' \<noteq> w")
  case True
  with assms(1) obtain n ty b us ty' res where n: "Option.bind (Body r) decode_channel = Some (n, ty, b, us)"
    and c: "CreateChannel E n ty' b us w = Some (res, w')"
    by (auto simp: HandleChannels_def createChannel_def Let_def bind_eq_Some_conv split: if_splits option.splits)
  have "length n \<le> 100" "list_all (\<lambda>u. length u \<le> 64) (b # us)"
    using assms(2) n by (simp_all add: request_fits_def)
  with CreateChannel_spec [OF c] show ?thesis by (auto intro: steps_create_channel)
next
  case False
  with assms(1) show ?thesis
    by (auto simp: HandleChannels_def listChannels_def split: if_splits prod.splits sum.splits dest!: read_only(3))
qed

lemma RemoveMember_steps:
  assumes "ChannelService_RemoveMember E c u w = (r, w')"
  shows "sql_steps cf (tabs (w_db w)) (tabs (w_db w'))"
proof -
  obtain d where x: "ExecContext (sqldb E) (DELETE_channel_members c u) (w_db w) = (r, d)" and w': "w' = w\<lparr>w_db := d\<rparr>"
    using assms by (auto simp: ChannelService_RemoveMember_def RemoveMember_def split: prod.splits)
  have "tabs d = tabs (w_db w) \<or> sql_exec cf (DELETE_channel_members c u) (tabs (w_db w)) = Some (tabs d)"
    using exec_ok [of "DELETE_channel_members c u"] exec_err [of "DELETE_channel_members c u"] x
    by (cases r) (simp_all only: stmt_fits.simps, blast+)
  then show ?thesis by (auto simp: w' simp del: sql_exec.simps intro: sql_steps_one)
qed

lemma AddMember_steps:
  assumes "ChannelService_AddMember E c u w = (r, w')" and "length c \<le> 64" and "length u \<le> 64"
  shows "sql_steps cf (tabs (w_db w)) (tabs (w_db w'))"
proof -
  obtain d where "AddMember (sqldb E) c u (w_db w) = (r, d)" and w': "w' = w\<lparr>w_db := d\<rparr>"
    using assms(1) by (auto simp: ChannelService_AddMember_def split: prod.splits)
  from AddMember_contract [OF this(1) assms(2,3)] show ?thesis
    by (cases r) (auto simp: w' intro: steps_add_member)
qed

lemma HandleChannelRoute_steps:
  assumes "HandleChannelRoute E r w = (resp, w')" and "request_fits r"
  shows "sql_steps cf (tabs (w_db w)) (tabs (w_db w'))"
proof -
  have len: "length (SplitN 3 (TrimPrefix (Path r) ''/api/v1/channels/'') ! 0) \<le> 64"
    "\<And>u. Option.bind (Body r) decode_user_id = Some u \<Longrightarrow> length u \<le> 64"
    using assms(2) by (auto simp: request_fits_def)
  show ?thesis
    using assms(1) unfolding HandleChannelRoute_def Let_def
    by (auto split: if_splits option.splits prod.splits sum.splits dest!: read_only(2) dest: RemoveMember_steps
        AddMember_steps [OF _ len])
qed

lemma ServeHTTP_steps:
  assumes "ServeHTTP E order r w = Some (resp, w')" and "request_fits r"
  shows "sql_steps cf (tabs (w_db w)) (tabs (w_db w'))"
  using assms
  by (auto simp: ServeHTTP_def HandleDeltaSync_def HandleUserByID_def Let_def HandleSendMessage_steps HandleUsers_steps
      HandleChannels_steps split: endpoint.splits if_splits option.splits prod.splits sum.splits
      dest!: sync_read_only read_only(1) dest: HandleChannelRoute_steps)

end

section \<open>The server as a state machine\<close>

text \<open>
  The states of an API node: it starts on an empty store, serves requests, and between two requests
  the other nodes run statements on the same database and Redis changes in any way.
\<close>

inductive api_reach ::
    "('d, 'r) deps \<Rightarrow> sql_conf \<Rightarrow> ('d \<Rightarrow> tables) \<Rightarrow> ((string \<rightharpoonup> uint64) \<Rightarrow> (string \<times> uint64) list) \<Rightarrow> ('d, 'r) world \<Rightarrow> bool"
  for E cf tabs order where
  start: "tabs (w_db w) = empty_tables \<Longrightarrow> api_reach E cf tabs order w"
| served: "api_reach E cf tabs order w \<Longrightarrow> ServeHTTP E order r w = Some (resp, w') \<Longrightarrow> request_fits r \<Longrightarrow>
    api_reach E cf tabs order w'"
| others: "api_reach E cf tabs order w \<Longrightarrow> sql_steps cf (tabs (w_db w)) (tabs d) \<Longrightarrow>
    api_reach E cf tabs order (w\<lparr>w_db := d, w_redis := x\<rparr>)"

inductive_cases api_reachE: "api_reach E cf tabs order w"

lemma sql_exec_messages: "sql_exec cf s t = Some t' \<Longrightarrow> \<exists>ms. messages t' = messages t @ ms"
  by (cases s) (auto split: if_splits option.splits)

lemma sql_steps_messages: "sql_steps cf t t' \<Longrightarrow> \<exists>ms. messages t' = messages t @ ms"
  by (induction rule: sql_steps.induct) (auto dest!: sql_exec_messages)

section \<open>Properties\<close>


definition empty_world :: "(ref_server, ref_redis) world" where
  "empty_world = sample_world\<lparr>w_db := \<lparr>ref_tables = empty_tables, ref_faults = []\<rparr>\<rparr>"

definition bob_request :: request where
  "bob_request = \<lparr>Method = ''POST'', Path = ''/api/v1/users'', idempotency_header = [], query_user_id = [],
      Body = Some (JObj [(''username'', JStr ''bob'')])\<rparr>"

definition bob_world :: "(ref_server, ref_redis) world" where
  "bob_world = empty_world\<lparr>w_db := \<lparr>ref_tables = add_user plain_conf new_user empty_tables, ref_faults = []\<rparr>,
     w_gen := \<lparr>workerID = 1, sequence = 0, lastStamp = 5\<rparr>, w_pos := 2\<rparr>"

lemma bob_trim: "TrimSpace ''bob'' = ''bob''"
  by (simp add: TrimSpace_def trim_left.simps space_runes_def starts_with_def upt_rec char_of_def bit_0)

lemma bob_served: "ServeHTTP sample_deps order bob_request empty_world = Some (http_JSON (JUser new_user) 201, bob_world)"
  by (simp add: ServeHTTP_def route_def bob_request_def HandleUsers_def decode_username_def bob_trim empty_world_def
      CreateUser_def UsernameExists_def count_positive_def QueryRowScan_def sample_defs empty_tables_def
      next_id_def time_now_def sample_next sample_now sample_id UserRepository_Create_def has_user_def
      has_username_def new_user_def bob_world_def add_user_def user_row_of_def)

lemma bob_fits: "request_fits bob_request"
  by (simp add: request_fits_def bob_request_def send_request_def decode_send_def decode_username_def decode_channel_def
      decode_user_id_def TrimPrefix_def eval_nat_numeral)

lemma bob_reach: "api_reach sample_deps plain_conf ref_tables order bob_world"
proof (rule api_reach.served [OF _ bob_served bob_fits])
  show "api_reach sample_deps plain_conf ref_tables order empty_world"
    by (rule api_reach.start) (simp add: empty_world_def)
qed


text \<open>
  The message log is append-only: a served request, whatever it is, keeps every stored message
  as it was and in its place.
\<close>

lemma messages_append_only:
  assumes "backend E cf tabs keys sent" and "ServeHTTP E order r w = Some (resp, w')" and "request_fits r"
  shows "\<exists>ms. messages (tabs (w_db w')) = messages (tabs (w_db w)) @ ms"
  by (rule sql_steps_messages [OF backend.ServeHTTP_steps [OF assms]])

text \<open>
  \<^verbatim>\<open>GET\<close> is safe: a \<^verbatim>\<open>GET\<close> request to any route changes neither the tables nor Redis nor the
  generator, and always gets a response.
\<close>

lemma get_is_safe:
  assumes "backend E cf tabs keys sent" and "Method r = ''GET''"
  shows "\<exists>resp w'. ServeHTTP E order r w = Some (resp, w') \<and>
    tabs (w_db w') = tabs (w_db w) \<and> w_redis w' = w_redis w \<and> w_gen w' = w_gen w"
  using assms(2)
  by (auto simp: ServeHTTP_def HandleSendMessage_def HandleDeltaSync_def HandleUsers_def HandleUserByID_def HandleChannels_def
      HandleChannelRoute_def listChannels_def Let_def split: endpoint.splits prod.splits sum.splits
      dest!: backend.read_only [OF assms(1)])

end
