(* ===== verification/Concurrent_Send.thy ===== *)
theory Concurrent_Send
  imports Message_Service Api_Server Transition_Systems
begin

text \<open>
  Concurrent sends. The HTTP servers of a cluster run \<open>SendMessage\<close> for many requests at once, each in its
  own goroutine, on one MySQL and one Redis. Here a call is cut into its atomic actions: the lock, the membership
  query, the draw of an identifier (under the generator's mutex), the reading of the clock, the insert
  and the publication. A call that runs alone is \<open>SendMessage\<close>; the properties hold for every
  interleaving of any number of calls on any number of nodes, with other writers in between.
\<close>

section \<open>A call in small steps\<close>

text \<open>\<open>Rejected\<close> is a call that returned before it drew an identifier, \<open>Finished\<close> one that returned later.\<close>

datatype send_pc = AtLock | AtCheck | AtDraw | AtStamp | AtInsert | AtPublish
  | Rejected go_error | Finished "go_error option"

record send_req =
  q_node :: nat
  q_key :: string
  q_msg :: message
  q_pc :: send_pc

definition new_req :: "nat \<Rightarrow> string \<Rightarrow> message \<Rightarrow> send_req" where
  "new_req n key msg = \<lparr>q_node = n, q_key = key, q_msg = msg, q_pc = AtLock\<rparr>"

definition send_step ::
    "('d, 'r) deps \<Rightarrow> send_req \<times> ('d, 'r) world \<Rightarrow> (send_req \<times> ('d, 'r) world) option" where
  "send_step E = (\<lambda>(q, w).
     case q_pc q of
       AtLock \<Rightarrow>
         (case idempotency_guard E (q_key q) w of
            (Some err, w) \<Rightarrow> Some (q\<lparr>q_pc := Rejected err\<rparr>, w)
          | (None, w) \<Rightarrow> Some (q\<lparr>q_pc := AtCheck\<rparr>, w))
     | AtCheck \<Rightarrow>
         (let ((isMember, err), d) = IsMember (sqldb E) (ConversationID (q_msg q)) (SenderID (q_msg q)) (w_db w);
              w = w\<lparr>w_db := d\<rparr>
          in (case err of
                Some e \<Rightarrow> Some (q\<lparr>q_pc := Rejected e\<rparr>, w)
              | None \<Rightarrow> if \<not> isMember then Some (q\<lparr>q_pc := Rejected ErrNotMember\<rparr>, w)
                        else Some (q\<lparr>q_pc := AtDraw\<rparr>, w)))
     | AtDraw \<Rightarrow>
         map_option (\<lambda>(i, w). (q\<lparr>q_msg := (q_msg q)\<lparr>msg_ID := i\<rparr>, q_pc := AtStamp\<rparr>, w)) (next_id E w)
     | AtStamp \<Rightarrow>
         (let (now, w) = time_now E w in Some (q\<lparr>q_msg := (q_msg q)\<lparr>msg_CreatedAt := now\<rparr>, q_pc := AtInsert\<rparr>, w))
     | AtInsert \<Rightarrow>
         (let (err, d) = ExecContext (sqldb E) (insert_stmt (q_msg q)) (w_db w); w = w\<lparr>w_db := d\<rparr>
          in if err \<noteq> None then Some (q\<lparr>q_pc := Finished err\<rparr>, w) else Some (q\<lparr>q_pc := AtPublish\<rparr>, w))
     | AtPublish \<Rightarrow>
         (let (err, r) = Publish (redis_client E) (tjson E) (''chat:room:'' @ ConversationID (q_msg q)) (q_msg q) (w_redis w)
          in Some (q\<lparr>q_pc := Finished err\<rparr>, w\<lparr>w_redis := r\<rparr>))
     | _ \<Rightarrow> Some (q, w))"

fun send_run :: "('d, 'r) deps \<Rightarrow> nat \<Rightarrow> send_req \<times> ('d, 'r) world \<Rightarrow> (send_req \<times> ('d, 'r) world) option" where
  "send_run E 0 c = Some c"
| "send_run E (Suc n) c = Option.bind (send_step E c) (send_run E n)"

fun pc_result :: "send_pc \<Rightarrow> go_error option option" where
  "pc_result (Rejected e) = Some (Some e)"
| "pc_result (Finished r) = Some r"
| "pc_result _ = None"

lemma send_run_returned: "pc_result (q_pc q) \<noteq> None \<Longrightarrow> send_run E n (q, w) = Some (q, w)"
  by (induction n) (auto simp: send_step_def split: send_pc.splits)

text \<open>Six steps of a call that runs alone give exactly what \<open>SendMessage\<close> returns.\<close>

lemma send_run_deliver:
  assumes "q_pc q = AtInsert"
  shows "\<exists>q' r w'. send_run E 2 (q, w) = Some (q', w') \<and> deliver E (q_msg q) w = (r, w') \<and>
    q_msg q' = q_msg q \<and> pc_result (q_pc q') = Some r"
proof -
  obtain x d where x: "ExecContext (sqldb E) (insert_stmt (q_msg q)) (w_db w) = (x, d)" by force
  obtain y r where y: "Publish (redis_client E) (tjson E) (''chat:room:'' @ ConversationID (q_msg q)) (q_msg q) (w_redis w) = (y, r)"
    by force
  show ?thesis
    using assms x y by (cases x) (simp_all add: numeral_2_eq_2 send_step_def deliver_def)
qed

lemma send_run_unfold:
  "send_run E 6 c = Option.bind (send_step E c) (send_run E 5)" "send_run E 5 c = Option.bind (send_step E c) (send_run E 4)"
  "send_run E 4 c = Option.bind (send_step E c) (send_run E 3)" "send_run E 3 c = Option.bind (send_step E c) (send_run E 2)"
  by (simp_all add: eval_nat_numeral)

lemma send_run_alone:
  "map_option (\<lambda>(q, w'). (pc_result (q_pc q), q_msg q, w')) (send_run E 6 (new_req n key msg, w)) =
   map_option (\<lambda>(r, m, w'). (Some r, m, w')) (SendMessage E msg key w)"
proof -
  obtain g w1 where g: "idempotency_guard E key w = (g, w1)" by force
  obtain b x d where c: "IsMember (sqldb E) (ConversationID msg) (SenderID msg) (w_db w1) = ((b, x), d)"
    by (metis surj_pair)
  let ?q = "new_req n key msg"
  consider (guarded) e where "g = Some e" | (checked) e where "g = None" "x = Some e" | (refused) "g = None" "x = None" "\<not> b"
    | (member) "g = None" "x = None" "b" by force
  then show ?thesis
  proof cases
    case guarded
    then show ?thesis
      using g by (simp add: SendMessage_def send_run_unfold(1) send_step_def new_req_def send_run_returned)
  next
    case checked
    then show ?thesis
      using g c by (simp add: SendMessage_def send_run_unfold(1,2) send_step_def new_req_def send_run_returned)
  next
    case refused
    then show ?thesis
      using g c by (simp add: SendMessage_def send_run_unfold(1,2) send_step_def new_req_def send_run_returned)
  next
    case member
    have run: "send_run E 6 (?q, w) = send_run E 4 (?q\<lparr>q_pc := AtDraw\<rparr>, w1\<lparr>w_db := d\<rparr>)"
      using member g c by (simp add: send_run_unfold(1,2) send_step_def new_req_def)
    show ?thesis
    proof (cases "next_id E (w1\<lparr>w_db := d\<rparr>)")
      case None
      with member g c show ?thesis
        unfolding run by (simp add: SendMessage_def send_run_unfold(3) send_step_def)
    next
      case (Some iw)
      obtain i w2 where iw: "iw = (i, w2)" by force
      obtain now w3 where t: "time_now E w2 = (now, w3)" by force
      let ?m = "msg\<lparr>msg_ID := i, msg_CreatedAt := now\<rparr>" and ?q3 = "?q\<lparr>q_msg := msg\<lparr>msg_ID := i, msg_CreatedAt := now\<rparr>, q_pc := AtInsert\<rparr>"
      have "send_run E 4 (?q\<lparr>q_pc := AtDraw\<rparr>, w1\<lparr>w_db := d\<rparr>) = send_run E 2 (?q3, w3)"
        using Some iw t by (simp add: send_run_unfold(3,4) send_step_def new_req_def)
      moreover obtain q' r w' where "send_run E 2 (?q3, w3) = Some (q', w')" "deliver E ?m w3 = (r, w')"
        "q_msg q' = ?m" "pc_result (q_pc q') = Some r"
        using send_run_deliver [of ?q3 E w3] by auto
      moreover have "SendMessage E msg key w = (case deliver E ?m w3 of (r, w') \<Rightarrow> Some (r, ?m, w'))"
        using member g c Some iw t
        by (simp add: SendMessage_def deliver_def insert_stmt_def Let_def split: prod.split option.split)
      ultimately show ?thesis unfolding run by simp
    qed
  qed
qed

section \<open>The cluster\<close>

text \<open>
  The state of a cluster: the two servers, for each node its generator and the position of its clock, and the
  calls that have been made. Node \<open>n\<close> reads the clock \<open>clk n\<close>.
\<close>

record ('d, 'r) cluster =
  c_db :: 'd
  c_redis :: 'r
  c_gens :: "nat \<Rightarrow> generator"
  c_pos :: "nat \<Rightarrow> nat"
  c_reqs :: "send_req list"

definition node_world :: "('d, 'r) cluster \<Rightarrow> nat \<Rightarrow> ('d, 'r) world" where
  "node_world c n = \<lparr>w_db = c_db c, w_redis = c_redis c, w_gen = c_gens c n, w_pos = c_pos c n\<rparr>"

definition put_world :: "nat \<Rightarrow> ('d, 'r) world \<Rightarrow> ('d, 'r) cluster \<Rightarrow> ('d, 'r) cluster" where
  "put_world n w c = c\<lparr>c_db := w_db w, c_redis := w_redis w, c_gens := (c_gens c)(n := w_gen w), c_pos := (c_pos c)(n := w_pos w)\<rparr>"

definition node_deps :: "('d, 'r) deps \<Rightarrow> (nat \<Rightarrow> clock) \<Rightarrow> nat \<Rightarrow> ('d, 'r) deps" where
  "node_deps E clk n = E\<lparr>wall_clock := clk n\<rparr>"

text \<open>
  The steps: a request arrives at a node; a call makes its next step; anybody else runs statements (the
  other endpoints, operators) or takes keys. Keys do not expire in this relation: it describes what happens within the 30 seconds of a key, and \<open>Idempotency_Window\<close> adds the expiry.
\<close>

inductive cluster_step ::
    "('d, 'r) deps \<Rightarrow> (nat \<Rightarrow> clock) \<Rightarrow> sql_conf \<Rightarrow> ('d \<Rightarrow> tables) \<Rightarrow> ('r \<Rightarrow> (string \<rightharpoonup> int)) \<Rightarrow> ('r \<Rightarrow> (string \<times> json) list)
       \<Rightarrow> ('d, 'r) cluster \<Rightarrow> ('d, 'r) cluster \<Rightarrow> bool"
  for E clk cf tabs keys sent where
  arrives: "message_fits msg \<Longrightarrow>
    cluster_step E clk cf tabs keys sent c (c\<lparr>c_reqs := c_reqs c @ [new_req n key msg]\<rparr>)"
| advances: "i < length (c_reqs c) \<Longrightarrow> q = c_reqs c ! i \<Longrightarrow>
    send_step (node_deps E clk (q_node q)) (q, node_world c (q_node q)) = Some (q', w') \<Longrightarrow>
    cluster_step E clk cf tabs keys sent c ((put_world (q_node q) w' c)\<lparr>c_reqs := (c_reqs c)[i := q']\<rparr>)"
| others: "sql_steps cf (tabs (c_db c)) (tabs d) \<Longrightarrow> dom (keys (c_redis c)) \<subseteq> dom (keys r) \<Longrightarrow>
    sent r = sent (c_redis c) \<Longrightarrow>
    cluster_step E clk cf tabs keys sent c (c\<lparr>c_db := d, c_redis := r\<rparr>)"

inductive cluster_reach ::
    "('d, 'r) deps \<Rightarrow> (nat \<Rightarrow> clock) \<Rightarrow> sql_conf \<Rightarrow> ('d \<Rightarrow> tables) \<Rightarrow> ('r \<Rightarrow> (string \<rightharpoonup> int)) \<Rightarrow> ('r \<Rightarrow> (string \<times> json) list)
       \<Rightarrow> (nat \<Rightarrow> int64) \<Rightarrow> ('d, 'r) cluster \<Rightarrow> bool"
  for E clk cf tabs keys sent wid where
  start: "c_reqs c = [] \<Longrightarrow> sent (c_redis c) = [] \<Longrightarrow> c_gens c = (\<lambda>n. NewGenerator (wid n)) \<Longrightarrow> c_pos c = (\<lambda>n. 0) \<Longrightarrow>
    cluster_reach E clk cf tabs keys sent wid c"
| step: "cluster_reach E clk cf tabs keys sent wid c \<Longrightarrow> cluster_step E clk cf tabs keys sent c c' \<Longrightarrow>
    cluster_reach E clk cf tabs keys sent wid c'"

definition cluster_start :: "('r \<Rightarrow> (string \<times> json) list) \<Rightarrow> (nat \<Rightarrow> int64) \<Rightarrow> ('d, 'r) cluster \<Rightarrow> bool" where
  "cluster_start sent wid c \<longleftrightarrow> c_reqs c = [] \<and> sent (c_redis c) = [] \<and> c_gens c = (\<lambda>n. NewGenerator (wid n)) \<and> c_pos c = (\<lambda>n. 0)"

interpretation cl: transition_system "cluster_start sent wid" "cluster_step E clk cf tabs keys sent"
    "cluster_reach E clk cf tabs keys sent wid" for E clk cf tabs keys sent wid
proof
  let ?R = "cluster_reach E clk cf tabs keys sent wid" and ?S = "cluster_step E clk cf tabs keys sent"
  show "P s" if "?R s" "\<And>s. cluster_start sent wid s \<Longrightarrow> P s" "\<And>s t. ?R s \<Longrightarrow> P s \<Longrightarrow> ?S s t \<Longrightarrow> P t" for P s
    by (rule cluster_reach.induct [OF that(1)]) (rule that(2), simp add: cluster_start_def, erule (2) that(3))
qed (auto simp: cluster_start_def intro: cluster_reach.intros)

section \<open>One step of a call\<close>

lemma node_deps_simps [simp]:
  "sqldb (node_deps E clk n) = sqldb E" "redis_client (node_deps E clk n) = redis_client E"
  "tjson (node_deps E clk n) = tjson E" "wall_clock (node_deps E clk n) = clk n"
  by (simp_all add: node_deps_def)

lemma node_backend: "backend E cf tabs keys sent \<Longrightarrow> backend (node_deps E clk n) cf tabs keys sent"
  by (simp add: backend_def)

text \<open>A call that has taken the lock of its key, and one that has drawn an identifier.\<close>

definition holds_key :: "send_req \<Rightarrow> bool" where
  "holds_key q \<longleftrightarrow> q_key q \<noteq> [] \<and> q_pc q \<in> {AtCheck, AtDraw, AtStamp, AtInsert, AtPublish, Rejected ErrNotMember, Finished None}"

fun drawn :: "send_pc \<Rightarrow> bool" where
  "drawn AtStamp = True" | "drawn AtInsert = True" | "drawn AtPublish = True" | "drawn (Finished r) = True" | "drawn _ = False"

definition stored :: "tables \<Rightarrow> message \<Rightarrow> bool" where
  "stored t m \<longleftrightarrow> list_ex (\<lambda>r. r_id r = msg_ID m \<and> r_conversation_id r = ConversationID m \<and>
     r_sender_id r = SenderID m \<and> r_content r = Content m) (messages t)"

definition step_effect ::
    "sql_conf \<Rightarrow> time_json \<Rightarrow> send_req \<Rightarrow> board \<Rightarrow> send_req \<Rightarrow> board \<Rightarrow> bool" where
  "step_effect cf tj q b q' b' \<longleftrightarrow>
     q_node q' = q_node q \<and> q_key q' = q_key q \<and> (message_fits (q_msg q) \<longrightarrow> message_fits (q_msg q')) \<and>
     sql_steps cf (b_tabs b) (b_tabs b') \<and> dom (b_keys b) \<subseteq> dom (b_keys b') \<and>
     (holds_key q' \<longrightarrow> holds_key q \<or>
        b_keys b (lock_name (q_key q)) = None \<and> b_keys b' (lock_name (q_key q)) \<noteq> None) \<and>
     (q_pc q' \<in> {AtPublish, Finished None} \<longrightarrow>
        q_pc q \<in> {AtPublish, Finished None} \<and> q_msg q' = q_msg q \<or> stored (b_tabs b') (q_msg q')) \<and>
     (b_sent b' = b_sent b \<or> q_pc q = AtPublish \<and>
        (\<exists>v. Marshal_message tj (q_msg q) = Inr v \<and> b_sent b' = b_sent b @ [(''chat:room:'' @ ConversationID (q_msg q), v)]))"

lemma locked_effect:
  "locked key b b' \<Longrightarrow> b_tabs b' = b_tabs b \<and> b_sent b' = b_sent b \<and> dom (b_keys b) \<subseteq> dom (b_keys b') \<and>
     (key \<noteq> [] \<longrightarrow> b_keys b (lock_name key) = None \<and> b_keys b' (lock_name key) \<noteq> None)"
  by (auto simp: locked_def split: if_splits)

lemma insert_stored: "sql_exec cf (insert_stmt m) t = Some t' \<Longrightarrow> stored t' m"
  by (auto simp: stored_def dest!: insert_stmt_exec)

context backend
begin

lemma guard_errors: "idempotency_guard E key w = (Some e, w') \<Longrightarrow> e \<noteq> ErrNotMember"
proof (cases "key = []")
  case False
  assume "idempotency_guard E key w = (Some e, w')"
  with False setnx_error show ?thesis by (fastforce simp: guard_key split: prod.splits sum.splits if_splits)
qed (simp add: guard_no_key)

lemma lock_effect:
  assumes "idempotency_guard E (q_key q) w = (r, w')" and "q_pc q = AtLock"
    and "q' = q\<lparr>q_pc := (case r of Some e \<Rightarrow> Rejected e | None \<Rightarrow> AtCheck)\<rparr>"
  shows "step_effect cf tj q (board_of tabs keys sent w) q' (board_of tabs keys sent w')"
proof (cases r)
  case None
  have "holds_key q' \<Longrightarrow> q_key q \<noteq> []" using assms(3) by (simp add: holds_key_def)
  with locked_effect [OF guard_spec(1) [OF assms(1) None]] assms(2,3) None show ?thesis
    by (auto simp: step_effect_def)
next
  case (Some e)
  have e: "e \<noteq> ErrNotMember" using guard_errors assms(1) Some by blast
  obtain b b' where b: "b = board_of tabs keys sent w" "b' = board_of tabs keys sent w'" by blast
  from assms(1) Some have k: "q_key q \<noteq> []" by (auto simp: guard_no_key)
  obtain a r1 where s: "SetNX (redis_client E) (lock_name (q_key q)) ''1'' lock_ttl (w_redis w) = (a, r1)" by force
  with assms(1) Some k have w': "w' = w\<lparr>w_redis := r1\<rparr>" and a: "a = Inl e \<or> a = Inr False"
    by (auto simp: guard_key split: if_splits sum.splits)
  from a have "b' = b \<or> locked (q_key q) b b'"
  proof
    assume a: "a = Inl e"
    from setnx_error [OF s [unfolded a]] k show ?thesis by (auto simp: b board_of_def w' locked_def)
  next
    assume a: "a = Inr False"
    from setnx_false [OF s [unfolded a]] show ?thesis by (simp add: b board_of_def w')
  qed
  with assms(2,3) Some e show ?thesis
    unfolding b [symmetric] by (auto simp: step_effect_def holds_key_def dest!: locked_effect)
qed

lemma insert_effect:
  assumes "send_step E (q, w) = Some (q', w')" and "message_fits (q_msg q)" and "q_pc q = AtInsert"
  shows "step_effect cf (tjson E) q (board_of tabs keys sent w) q' (board_of tabs keys sent w')"
proof -
  obtain x d where x: "ExecContext (sqldb E) (insert_stmt (q_msg q)) (w_db w) = (x, d)" by force
  have fits: "stmt_fits (insert_stmt (q_msg q))" using assms(2) by (simp add: insert_stmt_def message_fits_def)
  show ?thesis
  proof (cases x)
    case None
    have "sql_exec cf (insert_stmt (q_msg q)) (tabs (w_db w)) = Some (tabs d)"
      using exec_ok [OF _ fits] x None by simp
    with assms x None show ?thesis
      by (auto simp: send_step_def step_effect_def board_of_simps holds_key_def intro: sql_steps_one insert_stored)
  next
    case (Some e)
    have "sql_steps cf (tabs (w_db w)) (tabs d)"
      using exec_err [OF x [unfolded Some] fits] by (auto intro: sql_steps_one)
    with assms x Some show ?thesis
      by (auto simp: send_step_def step_effect_def board_of_simps holds_key_def)
  qed
qed

lemma Publish_log:
  assumes "Publish (redis_client E) (tjson E) c m r = (e, r')"
  shows "keys r' = keys r \<and> (sent r' = sent r \<or> (\<exists>v. Marshal_message (tjson E) m = Inr v \<and> sent r' = sent r @ [(c, v)]))"
  using assms by (cases e) (auto simp: Publish_def split: sum.splits dest!: publish_ok publish_error)

lemma publish_effect:
  assumes "send_step E (q, w) = Some (q', w')" and "message_fits (q_msg q)" and "q_pc q = AtPublish"
  shows "step_effect cf (tjson E) q (board_of tabs keys sent w) q' (board_of tabs keys sent w')"
proof -
  obtain y r where y: "Publish (redis_client E) (tjson E) (''chat:room:'' @ ConversationID (q_msg q)) (q_msg q) (w_redis w) = (y, r)"
    by force
  from assms y Publish_log [OF this] show ?thesis
    by (auto simp: send_step_def step_effect_def board_of_simps holds_key_def)
qed

lemma send_step_effect:
  assumes "send_step E (q, w) = Some (q', w')" and "message_fits (q_msg q)"
  shows "step_effect cf (tjson E) q (board_of tabs keys sent w) q' (board_of tabs keys sent w')"
proof (cases "q_pc q")
  case AtLock
  obtain r w1 where g: "idempotency_guard E (q_key q) w = (r, w1)" by force
  with assms(1) AtLock have "w' = w1" "q' = q\<lparr>q_pc := (case r of Some e \<Rightarrow> Rejected e | None \<Rightarrow> AtCheck)\<rparr>"
    by (auto simp: send_step_def split: option.splits)
  with lock_effect [OF g AtLock] show ?thesis by blast
next
  case AtCheck
  obtain b x d where c: "IsMember (sqldb E) (ConversationID (q_msg q)) (SenderID (q_msg q)) (w_db w) = ((b, x), d)"
    by (metis surj_pair)
  have "tabs d = tabs (w_db w)" using IsMember_contract [OF c] by simp
  with assms AtCheck c show ?thesis
    by (auto simp: send_step_def step_effect_def board_of_simps holds_key_def Let_def split: option.splits if_splits)
next
  case AtDraw
  with assms next_id_keeps show ?thesis
    by (fastforce simp: send_step_def step_effect_def board_of_simps holds_key_def message_fits_def)
next
  case AtStamp
  with assms time_now_keeps show ?thesis
    by (fastforce simp: send_step_def step_effect_def board_of_simps holds_key_def message_fits_def split: prod.splits)
next
  case AtInsert
  from insert_effect [OF assms this] show ?thesis .
next
  case AtPublish
  from publish_effect [OF assms this] show ?thesis .
next
  case (Rejected e)
  with assms show ?thesis by (auto simp: send_step_def step_effect_def)
next
  case (Finished r)
  with assms show ?thesis by (auto simp: send_step_def step_effect_def)
qed

end

section \<open>Invariants of the cluster\<close>

definition key_inv :: "(string \<rightharpoonup> int) \<Rightarrow> send_req list \<Rightarrow> bool" where
  "key_inv ks qs \<longleftrightarrow>
     (\<forall>i<length qs. holds_key (qs ! i) \<longrightarrow> ks (lock_name (q_key (qs ! i))) \<noteq> None) \<and>
     (\<forall>i<length qs. \<forall>j<length qs. i \<noteq> j \<longrightarrow> holds_key (qs ! i) \<longrightarrow> holds_key (qs ! j) \<longrightarrow> q_key (qs ! i) \<noteq> q_key (qs ! j))"

definition store_inv :: "time_json \<Rightarrow> tables \<Rightarrow> (string \<times> json) list \<Rightarrow> send_req list \<Rightarrow> bool" where
  "store_inv tj t out qs \<longleftrightarrow>
     (\<forall>q\<in>set qs. message_fits (q_msg q)) \<and>
     (\<forall>q\<in>set qs. q_pc q \<in> {AtPublish, Finished None} \<longrightarrow> stored t (q_msg q)) \<and>
     (\<forall>(room, v)\<in>set out. \<exists>m. room = ''chat:room:'' @ ConversationID m \<and> Marshal_message tj m = Inr v \<and> stored t m)"

lemma lock_name_inject [simp]: "lock_name a = lock_name b \<longleftrightarrow> a = b"
  by (simp add: lock_name_def)

lemma stored_steps: "sql_steps cf t t' \<Longrightarrow> stored t m \<Longrightarrow> stored t' m"
  using sql_steps_messages by (fastforce simp: stored_def)

lemma key_inv_mono: "key_inv ks qs \<Longrightarrow> dom ks \<subseteq> dom ks' \<Longrightarrow> key_inv ks' qs"
  unfolding key_inv_def by (metis domIff subsetD)

lemma store_inv_mono: "store_inv tj t out qs \<Longrightarrow> sql_steps cf t t' \<Longrightarrow> store_inv tj t' out qs"
  unfolding store_inv_def using stored_steps by (fastforce split: prod.splits)

lemma key_inv_step:
  assumes "key_inv (b_keys b) qs" and "i < length qs" and "step_effect cf tj (qs ! i) b q' b'"
  shows "key_inv (b_keys b') (qs[i := q'])"
proof -
  let ?q = "qs ! i"
  have eff: "q_key q' = q_key ?q" "dom (b_keys b) \<subseteq> dom (b_keys b')"
    "holds_key q' \<Longrightarrow> holds_key ?q \<or> b_keys b (lock_name (q_key ?q)) = None \<and> b_keys b' (lock_name (q_key ?q)) \<noteq> None"
    using assms(3) by (auto simp: step_effect_def)
  have inv: "key_inv (b_keys b') qs" by (rule key_inv_mono [OF assms(1) eff(2)])
  have new: "b_keys b' (lock_name (q_key q')) \<noteq> None" if "holds_key q'"
    using eff(1,3) that inv assms(2) by (auto simp: key_inv_def)
  have only: "q_key (qs ! j) \<noteq> q_key q'" if "holds_key q'" "j < length qs" "j \<noteq> i" "holds_key (qs ! j)" for j
    using eff(3) [OF that(1)]
  proof
    assume "holds_key ?q"
    with assms(1,2) that(2-4) eff(1) show ?thesis unfolding key_inv_def by metis
  next
    assume "b_keys b (lock_name (q_key ?q)) = None \<and> b_keys b' (lock_name (q_key ?q)) \<noteq> None"
    with assms(1) that(2,4) eff(1) show ?thesis unfolding key_inv_def by metis
  qed
  show ?thesis
    unfolding key_inv_def
  proof (intro conjI allI impI)
    fix j assume "j < length (qs[i := q'])" "holds_key (qs[i := q'] ! j)"
    with new inv show "b_keys b' (lock_name (q_key (qs[i := q'] ! j))) \<noteq> None"
      by (cases "j = i") (auto simp: key_inv_def)
  next
    fix j k assume jk: "j < length (qs[i := q'])" "k < length (qs[i := q'])" "j \<noteq> k"
      "holds_key (qs[i := q'] ! j)" "holds_key (qs[i := q'] ! k)"
    consider "j = i" | "k = i" | "j \<noteq> i" "k \<noteq> i" by blast
    then show "q_key (qs[i := q'] ! j) \<noteq> q_key (qs[i := q'] ! k)"
    proof cases
      case 1
      with jk only [of k] show ?thesis by (auto simp: eq_commute)
    next
      case 2
      with jk only [of j] show ?thesis by auto
    next
      case 3
      with jk inv show ?thesis by (simp add: key_inv_def)
    qed
  qed
qed

lemma store_inv_step:
  assumes "store_inv tj (b_tabs b) (b_sent b) qs" and "i < length qs" and "step_effect cf tj (qs ! i) b q' b'"
  shows "store_inv tj (b_tabs b') (b_sent b') (qs[i := q'])"
proof -
  let ?q = "qs ! i"
  have mem: "?q \<in> set qs" using assms(2) by simp
  have inv: "store_inv tj (b_tabs b') (b_sent b) qs"
    using store_inv_mono [OF assms(1)] assms(3) by (auto simp: step_effect_def)
  have q': "message_fits (q_msg q')" "q_pc q' \<in> {AtPublish, Finished None} \<Longrightarrow> stored (b_tabs b') (q_msg q')"
    using assms(3) inv mem by (auto simp: step_effect_def store_inv_def)
  have old: "stored (b_tabs b') (q_msg ?q)" if "q_pc ?q = AtPublish"
    using inv mem that by (auto simp: store_inv_def)
  have "set (qs[i := q']) \<subseteq> insert q' (set qs)" by (rule set_update_subset_insert)
  then have reqs: "\<forall>q\<in>set (qs[i := q']). message_fits (q_msg q) \<and>
      (q_pc q \<in> {AtPublish, Finished None} \<longrightarrow> stored (b_tabs b') (q_msg q))"
    using q' inv unfolding store_inv_def by blast
  have "b_sent b' = b_sent b \<or> q_pc ?q = AtPublish \<and>
        (\<exists>v. Marshal_message tj (q_msg ?q) = Inr v \<and> b_sent b' = b_sent b @ [(''chat:room:'' @ ConversationID (q_msg ?q), v)])"
    using assms(3) by (simp add: step_effect_def)
  then have "\<forall>(room, v)\<in>set (b_sent b'). \<exists>m. room = ''chat:room:'' @ ConversationID m \<and> Marshal_message tj m = Inr v \<and> stored (b_tabs b') m"
    using inv old unfolding store_inv_def by auto
  with reqs show ?thesis unfolding store_inv_def by blast
qed

lemma node_board [simp]: "board_of tabs keys sent (node_world c n) =
    \<lparr>b_tabs = tabs (c_db c), b_keys = keys (c_redis c), b_sent = sent (c_redis c)\<rparr>"
  by (simp add: board_of_def node_world_def)

lemma put_world_simps [simp]:
  "c_db (put_world n w c) = w_db w" "c_redis (put_world n w c) = w_redis w" "c_reqs (put_world n w c) = c_reqs c"
  "c_gens (put_world n w c) = (c_gens c)(n := w_gen w)" "c_pos (put_world n w c) = (c_pos c)(n := w_pos w)"
  by (simp_all add: put_world_def)

lemma cluster_inv:
  assumes "backend E cf tabs keys sent" and "cluster_reach E clk cf tabs keys sent wid c"
  shows "key_inv (keys (c_redis c)) (c_reqs c) \<and> store_inv (tjson E) (tabs (c_db c)) (sent (c_redis c)) (c_reqs c)"
  using assms(2)
proof induction
  case (start c)
  then show ?case by (simp add: key_inv_def store_inv_def)
next
  case (step c c')
  from step.hyps(2) step.IH show ?case
  proof cases
    case (arrives msg n key)
    have "\<not> holds_key (new_req n key msg)" by (simp add: holds_key_def new_req_def)
    with arrives step.IH show ?thesis
      by (auto simp: key_inv_def store_inv_def nth_append new_req_def less_Suc_eq)
  next
    case (advances i q q' w')
    let ?b = "board_of tabs keys sent"
    have fits: "message_fits (q_msg q)" using step.IH advances by (auto simp: store_inv_def)
    have eff: "step_effect cf (tjson E) (c_reqs c ! i) (?b (node_world c (q_node q))) q' (?b w')"
      using backend.send_step_effect [OF node_backend [OF assms(1)] advances(4) fits] advances(3) by simp
    from key_inv_step [OF _ advances(2) eff] store_inv_step [OF _ advances(2) eff] step.IH show ?thesis
      by (simp add: advances(1) board_of_simps)
  next
    case (others d r)
    with step.IH key_inv_mono store_inv_mono show ?thesis by fastforce
  qed
qed

section \<open>Identifiers across the cluster\<close>

text \<open>The worker number of an identifier.\<close>

definition worker_field :: "uint64 \<Rightarrow> nat" where
  "worker_field i = unat i div 2 ^ 12 mod 2 ^ 10"

lemma Next_worker_field:
  assumes "Next clk g k = Some (i, g', k')" and "generator_ok g'"
  shows "worker_field i = unat (workerID g)"
proof -
  note id = Next_id [OF assms(1)]
  have "unat (lastStamp g') < 2 ^ 42" "unat (workerID g') < 2 ^ 10" "unat (sequence g') < 2 ^ 12"
    using assms(2) by (simp_all add: generator_ok_def)
  from pack_fields(2) [OF this] show ?thesis by (simp add: worker_field_def id)
qed

text \<open>Only the draw touches the generator; the other steps at most read the clock.\<close>

lemma send_step_draw:
  assumes "send_step E (q, w) = Some (q', w')" and "q_pc q = AtDraw"
  obtains i g k where "Next (wall_clock E) (w_gen w) (w_pos w) = Some (i, g, k)"
    "q' = q\<lparr>q_msg := (q_msg q)\<lparr>msg_ID := i\<rparr>, q_pc := AtStamp\<rparr>" "w_gen w' = g" "w_pos w' = k"
  using assms by (auto simp: send_step_def next_id_def)

lemma send_step_other:
  assumes "send_step E (q, w) = Some (q', w')" and "q_pc q \<noteq> AtDraw"
  shows "w_gen w' = w_gen w \<and> w_pos w \<le> w_pos w' \<and> msg_ID (q_msg q') = msg_ID (q_msg q) \<and>
    (drawn (q_pc q') \<longrightarrow> drawn (q_pc q)) \<and> q_node q' = q_node q"
proof (cases "q_pc q")
  case AtLock
  with assms guard_keeps show ?thesis
    by (fastforce simp: send_step_def split: prod.splits option.splits)
qed (use assms in \<open>auto simp: send_step_def Let_def time_now_def split: prod.splits option.splits if_splits\<close>)

text \<open>
  The invariant, up to the positions \<open>H\<close> of the clocks: every generator is in its bounds and behind its clock; an
  identifier drawn on a node is at most the node's last one, carries its worker number, and differs
  from the others drawn there.
\<close>

definition gen_inv :: "(nat \<Rightarrow> clock) \<Rightarrow> (nat \<Rightarrow> nat) \<Rightarrow> (nat \<Rightarrow> int64) \<Rightarrow> ('d, 'r) cluster \<Rightarrow> bool" where
  "gen_inv clk H wid c \<longleftrightarrow> (\<forall>n. generator_ok (c_gens c n) \<and> workerID (c_gens c n) = workerID (NewGenerator (wid n)) \<and>
     (\<forall>j\<in>{c_pos c n..<H n}. lastStamp (c_gens c n) \<le> currentMillis (clk n) j))"

definition id_inv :: "('d, 'r) cluster \<Rightarrow> bool" where
  "id_inv c \<longleftrightarrow>
     (\<forall>i<length (c_reqs c). drawn (q_pc (c_reqs c ! i)) \<longrightarrow>
        msg_ID (q_msg (c_reqs c ! i)) \<le> last_id (c_gens c (q_node (c_reqs c ! i))) \<and>
        worker_field (msg_ID (q_msg (c_reqs c ! i))) = unat (workerID (c_gens c (q_node (c_reqs c ! i))))) \<and>
     (\<forall>i<length (c_reqs c). \<forall>j<length (c_reqs c). i \<noteq> j \<longrightarrow> q_node (c_reqs c ! i) = q_node (c_reqs c ! j) \<longrightarrow>
        drawn (q_pc (c_reqs c ! i)) \<longrightarrow> drawn (q_pc (c_reqs c ! j)) \<longrightarrow>
        msg_ID (q_msg (c_reqs c ! i)) \<noteq> msg_ID (q_msg (c_reqs c ! j)))"

lemma draw_inv:
  assumes n: "Next (clk n) (c_gens c n) (c_pos c n) = Some (x, g, k)"
    and range: "clock_in_range (clk n) 0 (H n)" and mono: "clock_monotone (clk n) 0 (H n)" and k: "k \<le> H n"
    and inv: "gen_inv clk H wid c"
  shows "generator_ok g \<and> workerID g = workerID (c_gens c n) \<and> last_id (c_gens c n) < x \<and> x = last_id g \<and>
    worker_field x = unat (workerID g) \<and> (\<forall>j\<in>{k..<H n}. lastStamp g \<le> currentMillis (clk n) j)"
proof -
  have r: "clock_in_range (clk n) (c_pos c n) (H n)" "clock_monotone (clk n) (c_pos c n) (H n)"
    using clock_range_subset [OF range] clock_monotone_subset [OF mono] by simp_all
  have lt: "c_pos c n < k" and w: "workerID g = workerID (c_gens c n)" using Next_id [OF n] by simp_all
  have ok: "generator_ok (c_gens c n)" "lastStamp (c_gens c n) \<le> currentMillis (clk n) (c_pos c n)"
    using inv lt k by (simp_all add: gen_inv_def)
  note s = Next_step [OF n ok(1) r k ok(2)]
  from s Next_worker_field [OF n s(1)] w show ?thesis by simp
qed

text \<open>
  A call moves from \<open>q\<close> to \<open>q'\<close> and its generator to \<open>g\<close>: the call has the identifier it had, or one that is new to the generator.
\<close>

lemma id_inv_update:
  assumes inv: "id_inv c" and i: "i < length (c_reqs c)" "c_reqs c ! i = q" and node: "q_node q' = q_node q"
    and c': "c_reqs c' = (c_reqs c)[i := q']" "c_gens c' = (c_gens c)(q_node q := g)"
    and g: "workerID g = workerID (c_gens c (q_node q))" "last_id (c_gens c (q_node q)) \<le> last_id g"
    and q': "drawn (q_pc q') \<Longrightarrow> drawn (q_pc q) \<and> msg_ID (q_msg q') = msg_ID (q_msg q) \<or>
      last_id (c_gens c (q_node q)) < msg_ID (q_msg q') \<and> msg_ID (q_msg q') = last_id g \<and> worker_field (msg_ID (q_msg q')) = unat (workerID g)"
  shows "id_inv c'"
proof -
  let ?id = "\<lambda>q. msg_ID (q_msg q)"
  have le: "?id (c_reqs c ! j) \<le> last_id (c_gens c (q_node (c_reqs c ! j)))"
    and worker: "worker_field (?id (c_reqs c ! j)) = unat (workerID (c_gens c (q_node (c_reqs c ! j))))"
    if "j < length (c_reqs c)" "drawn (q_pc (c_reqs c ! j))" for j
    using inv that by (simp_all add: id_inv_def)
  have new: "?id (c_reqs c ! j) \<noteq> ?id q'"
    if "j < length (c_reqs c)" "j \<noteq> i" "q_node (c_reqs c ! j) = q_node q" "drawn (q_pc (c_reqs c ! j))" "drawn (q_pc q')" for j
    using q' [OF that(5)] le [OF that(1,4)] inv i that by (auto simp: id_inv_def)
  show ?thesis
    unfolding id_inv_def c' length_list_update
  proof (intro conjI allI impI, goal_cases)
    case (1 j)
    then show ?case using le [of j] q' i node g(2) by (cases "j = i") (auto intro: order_trans)
  next
    case (2 j)
    then show ?case using worker [of j] q' i node g(1) by (cases "j = i") auto
  next
    case (3 j l)
    then show ?case using inv new [of j] new [of l] i node by (cases "j = i"; cases "l = i") (auto simp: id_inv_def)
  qed
qed

lemma ids_step:
  assumes "cluster_step E clk cf tabs keys sent c c'" and "gen_inv clk H wid c" and "id_inv c"
    and "\<forall>n. clock_in_range (clk n) 0 (H n) \<and> clock_monotone (clk n) 0 (H n)" and "\<forall>n. c_pos c' n \<le> H n"
  shows "gen_inv clk H wid c' \<and> id_inv c'"
  using assms(1)
proof cases
  case (arrives msg n key)
  with assms(2,3) show ?thesis
    by (auto simp: gen_inv_def id_inv_def nth_append new_req_def less_Suc_eq)
next
  case (others d r)
  with assms(2,3) show ?thesis by (simp add: gen_inv_def id_inv_def)
next
  case (advances i q q' w')
  let ?n = "q_node q"
  have w: "w_gen (node_world c ?n) = c_gens c ?n" "w_pos (node_world c ?n) = c_pos c ?n" by (simp_all add: node_world_def)
  note update = id_inv_update [OF assms(3) advances(2) advances(3) [symmetric]]
  show ?thesis
  proof (cases "q_pc q = AtDraw")
    case True
    obtain x g k where n: "Next (clk ?n) (c_gens c ?n) (c_pos c ?n) = Some (x, g, k)"
      and q': "q' = q\<lparr>q_msg := (q_msg q)\<lparr>msg_ID := x\<rparr>, q_pc := AtStamp\<rparr>" and w': "w_gen w' = g" "w_pos w' = k"
      using send_step_draw [OF advances(4) True] by (auto simp: w)
    have "k \<le> H ?n" using assms(5) [rule_format, of ?n] by (simp add: advances(1) w')
    note d = draw_inv [OF n _ _ this assms(2)]
    have d: "generator_ok g" "workerID g = workerID (c_gens c ?n)" "last_id (c_gens c ?n) < x" "x = last_id g"
      "worker_field x = unat (workerID g)" "\<forall>j\<in>{k..<H ?n}. lastStamp g \<le> currentMillis (clk ?n) j"
      using d assms(4) by blast+
    have "gen_inv clk H wid c'" using assms(2) d by (simp add: gen_inv_def advances(1) w')
    moreover have "id_inv c'" by (rule update [of q' _ g]) (use d in \<open>auto simp: advances(1) q' w'\<close>)
    ultimately show ?thesis ..
  next
    case False
    note o = send_step_other [OF advances(4) False, unfolded w]
    have "gen_inv clk H wid c'" using assms(2) o by (auto simp: gen_inv_def advances(1))
    moreover have "id_inv c'" by (rule update [of q' _ "c_gens c ?n"]) (use o in \<open>auto simp: advances(1)\<close>)
    ultimately show ?thesis ..
  qed
qed

lemma cluster_step_pos: "cluster_step E clk cf tabs keys sent c c' \<Longrightarrow> c_pos c n \<le> c_pos c' n"
proof (induction rule: cluster_step.induct)
  case (advances i c q q' w')
  show ?case
  proof (cases "q_pc q = AtDraw")
    case True
    obtain x g k where "Next (clk (q_node q)) (c_gens c (q_node q)) (c_pos c (q_node q)) = Some (x, g, k)" "w_pos w' = k"
      by (rule send_step_draw [OF advances(3) True]) (simp add: node_world_def)
    with Next_id(3) show ?thesis by fastforce
  next
    case False
    then show ?thesis using send_step_other [OF advances(3) False] by (simp add: node_world_def)
  qed
qed simp_all

lemma ids_reach:
  assumes "cluster_reach E clk cf tabs keys sent wid c"
    and "\<forall>n. clock_in_range (clk n) 0 (H n) \<and> clock_monotone (clk n) 0 (H n)" and "\<forall>n. c_pos c n \<le> H n"
  shows "gen_inv clk H wid c \<and> id_inv c"
  using assms(1,3)
proof induction
  case (start c)
  then show ?case by (simp add: gen_inv_def id_inv_def NewGenerator_ok)
next
  case (step c c')
  have "\<forall>n. c_pos c n \<le> H n" using cluster_step_pos [OF step.hyps(2)] step.prems le_trans by blast
  with step.IH have "gen_inv clk H wid c" "id_inv c" by simp_all
  from ids_step [OF step.hyps(2) this assms(2) step.prems] show ?case .
qed

lemma send_step_node: "send_step E (q, w) = Some (q', w') \<Longrightarrow> q_node q' = q_node q"
  by (cases "q_pc q = AtDraw") (auto dest: send_step_other elim: send_step_draw)

lemma send_run_node: "send_run E k (q, w) = Some (q', w') \<Longrightarrow> q_node q' = q_node q"
  by (induction k arbitrary: q w) (auto simp: bind_eq_Some_conv send_step_node)

text \<open>What holds after each step of a call holds after any number of them.\<close>

lemma call_runs:
  assumes step: "\<And>c q1 w1. R c \<Longrightarrow> i < length (c_reqs c) \<Longrightarrow> q_node (c_reqs c ! i) = n \<Longrightarrow>
      send_step (node_deps E clk n) (c_reqs c ! i, node_world c n) = Some (q1, w1) \<Longrightarrow>
      R ((put_world n w1 c)\<lparr>c_reqs := (c_reqs c)[i := q1]\<rparr>)"
    and "R c" and "i < length (c_reqs c)"
    and "send_run (node_deps E clk n) k (c_reqs c ! i, node_world c n) = Some (q', w')" and "q_node (c_reqs c ! i) = n"
  shows "R ((put_world n w' c)\<lparr>c_reqs := (c_reqs c)[i := q']\<rparr>)"
  using assms(2-)
proof (induction k arbitrary: c)
  case 0
  then have "(put_world n w' c)\<lparr>c_reqs := (c_reqs c)[i := q']\<rparr> = c" by (auto simp: put_world_def node_world_def)
  with 0 show ?case by simp
next
  case (Suc k)
  obtain q1 w1 where s: "send_step (node_deps E clk n) (c_reqs c ! i, node_world c n) = Some (q1, w1)"
    and r: "send_run (node_deps E clk n) k (q1, w1) = Some (q', w')"
    using Suc.prems(3) by (auto simp: bind_eq_Some_conv)
  let ?c = "(put_world n w1 c)\<lparr>c_reqs := (c_reqs c)[i := q1]\<rparr>"
  have n: "q_node q1 = n" using send_step_node [OF s] Suc.prems(4) by simp
  have c: "R ?c" using step [OF Suc.prems(1,2,4) s] .
  have w: "node_world ?c n = w1" by (simp add: node_world_def)
  from Suc.IH [OF c] r Suc.prems(2) n
  have "R ((put_world n w' ?c)\<lparr>c_reqs := (c_reqs ?c)[i := q']\<rparr>)"
    by (simp add: w)
  then show ?case by (simp add: put_world_def)
qed

lemma cluster_runs:
  assumes "cluster_reach E clk cf tabs keys sent wid c" and "i < length (c_reqs c)"
    and "send_run (node_deps E clk n) k (c_reqs c ! i, node_world c n) = Some (q', w')" and "q_node (c_reqs c ! i) = n"
  shows "cluster_reach E clk cf tabs keys sent wid ((put_world n w' c)\<lparr>c_reqs := (c_reqs c)[i := q']\<rparr>)"
proof (rule call_runs [where R = "cluster_reach E clk cf tabs keys sent wid", OF _ assms])
  fix c q1 w1
  assume c: "cluster_reach E clk cf tabs keys sent wid c" "i < length (c_reqs c)" "q_node (c_reqs c ! i) = n"
    "send_step (node_deps E clk n) (c_reqs c ! i, node_world c n) = Some (q1, w1)"
  show "cluster_reach E clk cf tabs keys sent wid ((put_world n w1 c)\<lparr>c_reqs := (c_reqs c)[i := q1]\<rparr>)"
    using cluster_reach.step [OF c(1) cluster_step.advances [OF c(2) refl]] c(3,4) by simp
qed

lemma filter_at_most_one:
  assumes "\<And>i j. i < length xs \<Longrightarrow> j < length xs \<Longrightarrow> P (xs ! i) \<Longrightarrow> P (xs ! j) \<Longrightarrow> i = j"
  shows "length (filter P xs) \<le> 1"
  using assms by (auto simp: length_filter_conv_card card_le_Suc0_iff_eq)

lemma distinct_filter_nth:
  assumes "\<And>i j. i < length xs \<Longrightarrow> j < length xs \<Longrightarrow> i \<noteq> j \<Longrightarrow> P (xs ! i) \<Longrightarrow> P (xs ! j) \<Longrightarrow> f (xs ! i) \<noteq> f (xs ! j)"
  shows "distinct (map f (filter P xs))"
  using assms
proof (induction xs)
  case (Cons x xs)
  have "f x \<noteq> f y" if "P x" "P y" "y \<in> set xs" for y
  proof -
    from that(3) obtain j where "j < length xs" "y = xs ! j" by (auto simp: in_set_conv_nth)
    then show ?thesis using Cons.prems [of 0 "Suc j"] that by simp
  qed
  moreover have "distinct (map f (filter P xs))" using Cons.prems [of "Suc _" "Suc _"] by (intro Cons.IH) simp
  ultimately show ?case by auto
qed simp

text \<open>The stamp in an identifier is a reading of the clock of the node that drew it.\<close>

definition stamp_inv :: "(nat \<Rightarrow> clock) \<Rightarrow> ('d, 'r) cluster \<Rightarrow> bool" where
  "stamp_inv clk c \<longleftrightarrow> (\<forall>q\<in>set (c_reqs c). drawn (q_pc q) \<longrightarrow>
     (\<exists>j<c_pos c (q_node q). unat (msg_ID (q_msg q)) div 2 ^ 22 = unat (currentMillis (clk (q_node q)) j)))"

lemma Next_stamp:
  assumes "Next clk g k = Some (i, g', k')" and "generator_ok g'"
  shows "\<exists>j<k'. unat i div 2 ^ 22 = unat (currentMillis clk j)"
proof -
  have "unat (lastStamp g') < 2 ^ 42" "unat (workerID g') < 2 ^ 10" "unat (sequence g') < 2 ^ 12"
    using assms(2) by (simp_all add: generator_ok_def)
  from pack_fields(1) [OF this] have i: "unat i div 2 ^ 22 = unat (lastStamp g')" using Next_id(1) [OF assms(1)] by simp
  from assms(1) have "\<exists>j<k'. lastStamp g' = currentMillis clk j"
  proof (cases rule: Next_cases)
    case same
    then show ?thesis by (intro exI [of _ k]) simp
  next
    case waited
    then show ?thesis by (intro exI [of _ "k' - 1"]) simp
  next
    case fresh
    then show ?thesis by (intro exI [of _ k]) simp
  qed
  with i show ?thesis by auto
qed

lemma stamp_step:
  assumes "cluster_step E clk cf tabs keys sent c c'" and "stamp_inv clk c" and "gen_inv clk H wid c'"
  shows "stamp_inv clk c'"
proof -
  have pos: "c_pos c n \<le> c_pos c' n" for n by (rule cluster_step_pos [OF assms(1)])
  let ?ok = "\<lambda>c q. \<exists>j<c_pos c (q_node q). unat (msg_ID (q_msg q)) div 2 ^ 22 = unat (currentMillis (clk (q_node q)) j)"
  have old: "?ok c' q" if "q \<in> set (c_reqs c)" "drawn (q_pc q)" for q
    using assms(2) that pos [of "q_node q"] unfolding stamp_inv_def by (meson less_le_trans)
  from assms(1) show ?thesis
  proof cases
    case (arrives msg n key)
    with old show ?thesis by (auto simp: stamp_inv_def new_req_def)
  next
    case (others d r)
    with old show ?thesis by (auto simp: stamp_inv_def)
  next
    case (advances i q q' w')
    have w: "w_gen (node_world c (q_node q)) = c_gens c (q_node q)" "w_pos (node_world c (q_node q)) = c_pos c (q_node q)"
      by (simp_all add: node_world_def)
    have q: "q \<in> set (c_reqs c)" using advances(2,3) by simp
    have "drawn (q_pc q') \<Longrightarrow> ?ok c' q'"
    proof (cases "q_pc q = AtDraw")
      case True
      obtain x g k where n: "Next (clk (q_node q)) (c_gens c (q_node q)) (c_pos c (q_node q)) = Some (x, g, k)"
        and q': "q' = q\<lparr>q_msg := (q_msg q)\<lparr>msg_ID := x\<rparr>, q_pc := AtStamp\<rparr>" and w': "w_gen w' = g" "w_pos w' = k"
        using send_step_draw [OF advances(4) True] by (auto simp: w)
      have "generator_ok g" using assms(3) [unfolded gen_inv_def, rule_format, of "q_node q"] by (simp add: advances(1) w')
      from Next_stamp [OF n this] show ?thesis by (simp add: advances(1) q' w')
    next
      case False
      with send_step_other [OF advances(4) False] old [OF q] show "drawn (q_pc q') \<Longrightarrow> ?ok c' q'" by simp
    qed
    moreover have "set (c_reqs c') \<subseteq> insert q' (set (c_reqs c))" using set_update_subset_insert by (simp add: advances(1))
    ultimately show ?thesis using old unfolding stamp_inv_def by blast
  qed
qed

lemma stamps_reach:
  assumes "cluster_reach E clk cf tabs keys sent wid c"
    and "\<forall>n. clock_in_range (clk n) 0 (H n) \<and> clock_monotone (clk n) 0 (H n)" and "\<forall>n. c_pos c n \<le> H n"
  shows "stamp_inv clk c"
  using assms(1,3)
proof induction
  case (start c)
  then show ?case by (simp add: stamp_inv_def)
next
  case (step c c')
  have "\<forall>n. c_pos c n \<le> H n" using cluster_step_pos [OF step.hyps(2)] step.prems le_trans by blast
  from step.IH [OF this] ids_reach [OF cluster_reach.step [OF step.hyps] assms(2) step.prems] show ?case
    using stamp_step [OF step.hyps(2)] by blast
qed

text \<open>
  Worker numbers are kept apart: those of the nodes that serve calls are in 0..1023, and two nodes have different ones, or one of them read its clock
  only at earlier milliseconds than the other. The latter is a node that was started again: the new process counts as a node of its own,
  with the same worker number and a clock that reads on.
\<close>

definition before :: "clock \<Rightarrow> nat \<Rightarrow> clock \<Rightarrow> nat \<Rightarrow> bool" where
  "before clk k clk' k' \<longleftrightarrow> (\<forall>i<k. \<forall>j<k'. currentMillis clk i < currentMillis clk' j)"

definition workers_apart :: "(nat \<Rightarrow> clock) \<Rightarrow> (nat \<Rightarrow> int64) \<Rightarrow> ('d, 'r) cluster \<Rightarrow> bool" where
  "workers_apart clk wid c \<longleftrightarrow> (\<forall>q\<in>set (c_reqs c). wid (q_node q) \<le> 1023) \<and>
     (\<forall>q\<in>set (c_reqs c). \<forall>q'\<in>set (c_reqs c). let n = q_node q; n' = q_node q' in
        n = n' \<or> wid n \<noteq> wid n' \<or> before (clk n) (c_pos c n) (clk n') (c_pos c n') \<or> before (clk n') (c_pos c n') (clk n) (c_pos c n))"

text \<open>
  Message identifiers are unique across the cluster: in every interleaving, if the worker numbers are kept apart and no clock has gone back or left
  its range so far, two calls never draw the same identifier.
\<close>

text \<open>The time in an identifier tells apart two calls of processes of which one has ended before the other started.\<close>

lemma stamps_differ:
  assumes "stamp_inv clk c" and "i < length (c_reqs c)" "drawn (q_pc (c_reqs c ! i))" and "j < length (c_reqs c)" "drawn (q_pc (c_reqs c ! j))"
    and "before (clk (q_node (c_reqs c ! i))) (c_pos c (q_node (c_reqs c ! i))) (clk (q_node (c_reqs c ! j))) (c_pos c (q_node (c_reqs c ! j)))"
  shows "msg_ID (q_msg (c_reqs c ! i)) \<noteq> msg_ID (q_msg (c_reqs c ! j))"
proof -
  let ?id = "\<lambda>i. msg_ID (q_msg (c_reqs c ! i))" and ?n = "\<lambda>i. q_node (c_reqs c ! i)"
  have stamp: "\<exists>a<c_pos c (?n k). unat (?id k) div 2 ^ 22 = unat (currentMillis (clk (?n k)) a)"
    if "k < length (c_reqs c)" "drawn (q_pc (c_reqs c ! k))" for k
    using assms(1) that unfolding stamp_inv_def by (meson nth_mem)
  obtain a b where a: "a < c_pos c (?n i)" "unat (?id i) div 2 ^ 22 = unat (currentMillis (clk (?n i)) a)"
    and b: "b < c_pos c (?n j)" "unat (?id j) div 2 ^ 22 = unat (currentMillis (clk (?n j)) b)"
    using stamp [OF assms(2,3)] stamp [OF assms(4,5)] by blast
  have "unat (currentMillis (clk (?n i)) a) < unat (currentMillis (clk (?n j)) b)"
    using assms(6) a(1) b(1) by (simp add: before_def word_less_nat_alt)
  with a(2) b(2) show ?thesis by auto
qed

lemma cluster_ids:
  assumes "cluster_reach E clk cf tabs keys sent wid c"
    and "\<forall>n. clock_in_range (clk n) 0 (c_pos c n) \<and> clock_monotone (clk n) 0 (c_pos c n)"
    and "workers_apart clk wid c"
  shows "distinct (map (msg_ID \<circ> q_msg) (filter (\<lambda>q. drawn (q_pc q)) (c_reqs c)))"
proof (rule distinct_filter_nth)
  have inv: "gen_inv clk (c_pos c) wid c" "id_inv c" "stamp_inv clk c"
    using ids_reach [OF assms(1,2)] stamps_reach [OF assms(1,2)] by simp_all
  let ?id = "\<lambda>i. msg_ID (q_msg (c_reqs c ! i))" and ?n = "\<lambda>i. q_node (c_reqs c ! i)"
  have wf: "worker_field (?id i) = unat (wid (?n i))" if "i < length (c_reqs c)" "drawn (q_pc (c_reqs c ! i))" for i
  proof -
    have "worker_field (?id i) = unat (workerID (c_gens c (?n i)))" using inv(2) that by (simp add: id_inv_def)
    also have "workerID (c_gens c (?n i)) = wid (?n i)"
      using inv(1) workerID_NewGenerator assms(3) that(1) by (simp add: gen_inv_def workers_apart_def)
    finally show ?thesis .
  qed
  fix i j
  assume ij: "i < length (c_reqs c)" "j < length (c_reqs c)" "i \<noteq> j" "drawn (q_pc (c_reqs c ! i))" "drawn (q_pc (c_reqs c ! j))"
  consider (same) "?n i = ?n j" | (other) "wid (?n i) \<noteq> wid (?n j)"
    | (first) "before (clk (?n i)) (c_pos c (?n i)) (clk (?n j)) (c_pos c (?n j))"
    | (second) "before (clk (?n j)) (c_pos c (?n j)) (clk (?n i)) (c_pos c (?n i))"
    using assms(3) ij(1,2) unfolding workers_apart_def Let_def by (meson nth_mem)
  then show "(msg_ID \<circ> q_msg) (c_reqs c ! i) \<noteq> (msg_ID \<circ> q_msg) (c_reqs c ! j)"
  proof cases
    case same
    with inv(2) ij show ?thesis by (simp add: id_inv_def)
  next
    case other
    then have "worker_field (?id i) \<noteq> worker_field (?id j)" using wf [OF ij(1,4)] wf [OF ij(2,5)] by (simp add: word_unat_eq_iff)
    then show ?thesis by auto
  next
    case first
    from stamps_differ [OF inv(3) ij(1,4,2,5) this] show ?thesis by simp
  next
    case second
    from stamps_differ [OF inv(3) ij(2,5,1,4) this] show ?thesis by simp
  qed
qed

text \<open>A sample cluster: one node, and a call that was accepted.\<close>

definition sample_cluster :: "(ref_server, ref_redis) cluster" where
  "sample_cluster = \<lparr>c_db = w_db sample_world, c_redis = w_redis sample_world, c_gens = (\<lambda>n. NewGenerator 1),
     c_pos = (\<lambda>n. 0), c_reqs = []\<rparr>"

lemma sample_node: "node_deps sample_deps (\<lambda>n. sample_clock) n = sample_deps"
  by (simp add: node_deps_def sample_deps_def ref_deps_def)

lemma sample_cluster_sent:
  "\<exists>c. cluster_reach sample_deps (\<lambda>n. sample_clock) plain_conf ref_tables (\<lambda>r. map_of (rr_keys r)) rr_sent (\<lambda>n. 1) c \<and>
     map q_pc (c_reqs c) = [Finished None] \<and> map q_msg (c_reqs c) = [sent_msg] \<and> map q_node (c_reqs c) = [0] \<and>
     c_redis c = w_redis after_send \<and> c_pos c = (\<lambda>n. if n = 0 then 2 else 0)"
proof -
  let ?R = "cluster_reach sample_deps (\<lambda>n. sample_clock) plain_conf ref_tables (\<lambda>r. map_of (rr_keys r)) rr_sent (\<lambda>n. 1)"
  let ?c = "sample_cluster\<lparr>c_reqs := [new_req 0 ''k'' (sample_msg ''7'')]\<rparr>"
  have "?R sample_cluster" by (rule cluster_reach.start) (simp_all add: sample_cluster_def sample_world_def)
  then have c: "?R ?c"
    using cluster_reach.step [OF _ cluster_step.arrives [OF sample_fits(1), where c = sample_cluster and n = 0 and key = "''k''"]]
    by (simp add: sample_cluster_def)
  have g: "NewGenerator 1 = \<lparr>workerID = 1, sequence = 0, lastStamp = 0\<rparr>"
    using workerID_NewGenerator [of 1] by (simp add: NewGenerator_def Let_def split: if_splits)
  have w: "node_world ?c 0 = sample_world" by (simp add: node_world_def sample_cluster_def sample_world_def g)
  obtain q' where r: "send_run sample_deps 6 (new_req 0 ''k'' (sample_msg ''7''), sample_world) = Some (q', after_send)"
    and q': "pc_result (q_pc q') = Some None" "q_msg q' = sent_msg"
    using send_run_alone [of sample_deps 0 "''k''" "sample_msg ''7''" sample_world] by (auto simp: sample_send)
  have pc: "q_pc q' = Finished None" using q'(1) by (cases "q_pc q'") auto
  let ?d = "(put_world 0 after_send ?c)\<lparr>c_reqs := [q']\<rparr>"
  have d: "?R ?d"
    using cluster_runs [OF c, where i = 0 and n = 0 and k = 6 and q' = q' and w' = after_send] r
    by (simp add: sample_node w) (simp add: new_req_def)
  have n: "q_node q' = 0"
    using send_run_node [OF r] by (simp add: new_req_def)
  have p: "c_pos ?d = (\<lambda>n. if n = 0 then 2 else 0)" by (auto simp: sample_cluster_def after_send_def)
  show ?thesis
    by (rule exI [of _ ?d]) (use d pc q' n p in simp)
qed

section \<open>Properties\<close>


text \<open>
  At most one send per key, for concurrent calls: in every interleaving of calls on every number of nodes,
  as long as the key has not expired, at most one of all the calls made with it is accepted.
\<close>

lemma cluster_one_per_key:
  assumes "backend E cf tabs keys sent" and "cluster_reach E clk cf tabs keys sent wid c" and "key \<noteq> []"
  shows "length (filter (\<lambda>q. q_key q = key \<and> q_pc q = Finished None) (c_reqs c)) \<le> 1"
proof (rule filter_at_most_one)
  fix i j
  assume ij: "i < length (c_reqs c)" "j < length (c_reqs c)"
    "q_key (c_reqs c ! i) = key \<and> q_pc (c_reqs c ! i) = Finished None"
    "q_key (c_reqs c ! j) = key \<and> q_pc (c_reqs c ! j) = Finished None"
  then have "holds_key (c_reqs c ! i)" "holds_key (c_reqs c ! j)" using assms(3) by (simp_all add: holds_key_def)
  then show "i = j" using ij cluster_inv [OF assms(1,2)] unfolding key_inv_def by metis
qed

text \<open>
  (C5) Persist before publish, for concurrent calls: in every interleaving, whatever has been published is a
  message that is in the messages table.
\<close>

theorem cluster_published_stored:
  assumes "backend E cf tabs keys sent" and "cluster_reach E clk cf tabs keys sent wid c"
    and "(room, v) \<in> set (sent (c_redis c))"
  shows "\<exists>m. room = ''chat:room:'' @ ConversationID m \<and> Marshal_message (tjson E) m = Inr v \<and> stored (tabs (c_db c)) m"
  using cluster_inv [OF assms(1,2)] assms(3) unfolding store_inv_def by blast

theorem cluster_published_stored_witness:
  "\<exists>(c :: (ref_server, ref_redis) cluster) room v m. (room, v) \<in> set (rr_sent (c_redis c)) \<and>
     room = ''chat:room:'' @ ConversationID m \<and> stored (ref_tables (c_db c)) m"
proof -
  obtain c where c: "cluster_reach sample_deps (\<lambda>n. sample_clock) plain_conf ref_tables (\<lambda>r. map_of (rr_keys r)) rr_sent (\<lambda>n. 1) c"
    "c_redis c = w_redis after_send" using sample_cluster_sent by (elim exE conjE) (rule that)
  obtain room v where "(room, v) \<in> set (rr_sent (c_redis c))" using c(2) by (auto simp: after_send_def)
  moreover from cluster_published_stored [OF sample_backend c(1) this]
  obtain m where "room = ''chat:room:'' @ ConversationID m" "stored (ref_tables (c_db c)) m" by (elim exE conjE) (rule that)
  ultimately show ?thesis by (intro exI conjI)
qed

end
