(* ===== verification/Concurrent_Users.thy ===== *)
theory Concurrent_Users
  imports Concurrent_Send
begin

text \<open>
  Concurrent registrations. \<open>CreateUser\<close> first asks whether the name is free and inserts later, in a
  second statement, so two calls may both find a name free. Here a call is cut into its actions, as in
  \<open>Concurrent_Send\<close>; a call that runs alone is \<open>CreateUser\<close>. In every interleaving at most one call
  gets the name, but the others may learn it as an error of the database instead of \<open>ErrUsernameTaken\<close>.
\<close>

section \<open>A registration in small steps\<close>

datatype user_pc = AtExists | AtUserDraw | AtUserStamp uint64 | AtUserInsert user | UserDone "go_error + user"

record user_req =
  uq_node :: nat
  uq_name :: string
  uq_pc :: user_pc

definition new_user_req :: "nat \<Rightarrow> string \<Rightarrow> user_req" where
  "new_user_req n name = \<lparr>uq_node = n, uq_name = name, uq_pc = AtExists\<rparr>"

definition user_step ::
    "('d, 'r) deps \<Rightarrow> user_req \<times> ('d, 'r) world \<Rightarrow> (user_req \<times> ('d, 'r) world) option" where
  "user_step E = (\<lambda>(q, w).
     case uq_pc q of
       AtExists \<Rightarrow>
         (let ((exists, err), d) = UsernameExists (sqldb E) (uq_name q) (w_db w); w = w\<lparr>w_db := d\<rparr>
          in (case err of
                Some e \<Rightarrow> Some (q\<lparr>uq_pc := UserDone (Inl e)\<rparr>, w)
              | None \<Rightarrow> Some (q\<lparr>uq_pc := if exists then UserDone (Inl ErrUsernameTaken) else AtUserDraw\<rparr>, w)))
     | AtUserDraw \<Rightarrow> map_option (\<lambda>(i, w). (q\<lparr>uq_pc := AtUserStamp i\<rparr>, w)) (next_id E w)
     | AtUserStamp i \<Rightarrow>
         (let (now, w) = time_now E w
          in Some (q\<lparr>uq_pc := AtUserInsert \<lparr>user_ID = sprintf_d i, Username = uq_name q, user_CreatedAt = now\<rparr>\<rparr>, w))
     | AtUserInsert user \<Rightarrow>
         (let (err, d) = UserRepository_Create (sqldb E) user (w_db w); w = w\<lparr>w_db := d\<rparr>
          in Some (q\<lparr>uq_pc := UserDone (case err of Some e \<Rightarrow> Inl e | None \<Rightarrow> Inr user)\<rparr>, w))
     | UserDone r \<Rightarrow> Some (q, w))"

fun user_run :: "('d, 'r) deps \<Rightarrow> nat \<Rightarrow> user_req \<times> ('d, 'r) world \<Rightarrow> (user_req \<times> ('d, 'r) world) option" where
  "user_run E 0 c = Some c"
| "user_run E (Suc n) c = Option.bind (user_step E c) (user_run E n)"

lemma user_run_done: "uq_pc q = UserDone r \<Longrightarrow> user_run E n (q, w) = Some (q, w)"
  by (induction n) (simp_all add: user_step_def)

lemma user_run_unfold:
  "user_run E 4 c = Option.bind (user_step E c) (user_run E 3)" "user_run E 3 c = Option.bind (user_step E c) (user_run E 2)"
  "user_run E 2 c = Option.bind (user_step E c) (user_run E 1)" "user_run E 1 c = user_step E c"
  by (simp_all add: eval_nat_numeral) (cases "user_step E c"; simp)

text \<open>Four steps of a call that runs alone give exactly what \<open>CreateUser\<close> returns.\<close>

lemma user_run_alone:
  "map_option (\<lambda>(q, w'). (uq_pc q, w')) (user_run E 4 (new_user_req n name, w)) =
   map_option (\<lambda>(r, w'). (UserDone r, w')) (CreateUser E name w)"
proof -
  obtain b e d where x: "UsernameExists (sqldb E) name (w_db w) = ((b, e), d)" by (metis surj_pair)
  let ?q = "new_user_req n name" and ?w = "w\<lparr>w_db := d\<rparr>"
  show ?thesis
  proof (cases "e = None \<and> \<not> b")
    case False
    with x show ?thesis
      by (cases e) (auto simp: user_run_unfold(1) user_step_def new_user_req_def CreateUser_def Let_def user_run_done)
  next
    case True
    have run: "user_run E 4 (?q, w) = user_run E 3 (?q\<lparr>uq_pc := AtUserDraw\<rparr>, ?w)"
      using True x by (simp add: user_run_unfold(1) user_step_def new_user_req_def)
    show ?thesis
    proof (cases "next_id E ?w")
      case None
      with True x show ?thesis unfolding run by (simp add: user_run_unfold(2) user_step_def CreateUser_def)
    next
      case (Some iw)
      obtain i w1 where iw: "iw = (i, w1)" by force
      obtain now w2 where t: "time_now E w1 = (now, w2)" by force
      let ?u = "\<lparr>user_ID = sprintf_d i, Username = name, user_CreatedAt = now\<rparr>"
      have "user_run E 3 (?q\<lparr>uq_pc := AtUserDraw\<rparr>, ?w) = user_step E (?q\<lparr>uq_pc := AtUserInsert ?u\<rparr>, w2)"
        using Some iw t by (simp add: user_run_unfold(2-4) user_step_def new_user_req_def split: prod.split)
      with True x Some iw t show ?thesis unfolding run
        by (auto simp: user_step_def CreateUser_def Let_def split: prod.split option.split)
    qed
  qed
qed

section \<open>Registrations on a cluster\<close>

inductive signup_step ::
    "('d, 'r) deps \<Rightarrow> (nat \<Rightarrow> clock) \<Rightarrow> sql_conf \<Rightarrow> ('d \<Rightarrow> tables)
       \<Rightarrow> ('d, 'r) cluster \<times> user_req list \<Rightarrow> ('d, 'r) cluster \<times> user_req list \<Rightarrow> bool"
  for E clk cf tabs where
  arrives: "length name \<le> 100 \<Longrightarrow> signup_step E clk cf tabs (c, us) (c, us @ [new_user_req n name])"
| advances: "i < length us \<Longrightarrow>
    user_step (node_deps E clk (uq_node (us ! i))) (us ! i, node_world c (uq_node (us ! i))) = Some (q', w') \<Longrightarrow>
    signup_step E clk cf tabs (c, us) (put_world (uq_node (us ! i)) w' c, us[i := q'])"
| others: "sql_steps cf (tabs (c_db c)) (tabs (c_db c')) \<Longrightarrow> signup_step E clk cf tabs (c, us) (c', us)"

inductive signup_reach ::
    "('d, 'r) deps \<Rightarrow> (nat \<Rightarrow> clock) \<Rightarrow> sql_conf \<Rightarrow> ('d \<Rightarrow> tables) \<Rightarrow> ('d, 'r) cluster \<times> user_req list \<Rightarrow> bool"
  for E clk cf tabs where
  start: "signup_reach E clk cf tabs (c, [])"
| step: "signup_reach E clk cf tabs s \<Longrightarrow> signup_step E clk cf tabs s s' \<Longrightarrow> signup_reach E clk cf tabs s'"

section \<open>Invariants\<close>

definition user_req_ok :: "user_req \<Rightarrow> bool" where
  "user_req_ok q \<longleftrightarrow> length (uq_name q) \<le> 100 \<and>
     (case uq_pc q of
        AtUserInsert u \<Rightarrow> Username u = uq_name q \<and> length (user_ID u) \<le> 20
      | UserDone (Inr u) \<Rightarrow> Username u = uq_name q
      | _ \<Rightarrow> True)"

definition registered :: "user_req \<Rightarrow> bool" where
  "registered q \<longleftrightarrow> (case uq_pc q of UserDone (Inr u) \<Rightarrow> True | _ \<Rightarrow> False)"

definition signup_inv :: "sql_conf \<Rightarrow> tables \<Rightarrow> user_req list \<Rightarrow> bool" where
  "signup_inv cf t us \<longleftrightarrow>
     (\<forall>i<length us. user_req_ok (us ! i) \<and> (registered (us ! i) \<longrightarrow> has_username cf t (uq_name (us ! i)))) \<and>
     (\<forall>i<length us. \<forall>j<length us. i \<noteq> j \<longrightarrow> registered (us ! i) \<longrightarrow> registered (us ! j) \<longrightarrow>
        \<not> same cf (uq_name (us ! i)) (uq_name (us ! j)))"

lemma sql_exec_username: "sql_exec cf s t = Some t' \<Longrightarrow> has_username cf t n \<Longrightarrow> has_username cf t' n"
  by (cases s) (auto simp: has_defs split: if_splits option.splits)

lemma sql_steps_username: "sql_steps cf t t' \<Longrightarrow> has_username cf t n \<Longrightarrow> has_username cf t' n"
  by (induction rule: sql_steps.induct) (auto dest: sql_exec_username)

context backend
begin

lemma user_insert_effect:
  assumes "UserRepository_Create (sqldb E) u d = (err, d')" and "length (Username u) \<le> 100" and "length (user_ID u) \<le> 20"
  shows "sql_steps cf (tabs d) (tabs d')"
    and "err = None \<Longrightarrow> \<not> has_username cf (tabs d) (Username u) \<and> has_username cf (tabs d') (Username u)"
    and "err = Some e \<Longrightarrow> storage_error e"
    and "has_username cf (tabs d) (Username u) \<Longrightarrow> err \<noteq> None \<and> tabs d' = tabs d"
proof -
  note x = assms(1) [unfolded UserRepository_Create_def]
  have fits: "stmt_fits (INSERT_users (user_ID u) (Username u) (user_CreatedAt u))" using assms(2,3) by simp
  note ok = exec_ok [OF _ fits] and bad = exec_err [OF _ fits]
  show "sql_steps cf (tabs d) (tabs d')"
    using ok [of d d'] bad [of d _ d'] x
    by (cases err) (auto simp del: sql_exec.simps intro: sql_steps_one)
  show "err = None \<Longrightarrow> \<not> has_username cf (tabs d) (Username u) \<and> has_username cf (tabs d') (Username u)"
    using ok [of d d'] x by (auto simp: insert_user_exec add_user_def user_row_of_def has_username_def same_def
        simp del: sql_exec.simps)
  show "err = Some e \<Longrightarrow> storage_error e" using exec_error x by simp
  show "has_username cf (tabs d) (Username u) \<Longrightarrow> err \<noteq> None \<and> tabs d' = tabs d"
    using ok [of d d'] bad [of d _ d'] x by (cases err) (auto simp: insert_user_exec simp del: sql_exec.simps)
qed

lemma user_step_effect:
  assumes "user_step E (q, w) = Some (q', w')" and "user_req_ok q"
  shows "uq_name q' = uq_name q" and "user_req_ok q'" and "sql_steps cf (tabs (w_db w)) (tabs (w_db w'))"
    and "registered q' \<Longrightarrow> registered q \<or>
      \<not> has_username cf (tabs (w_db w)) (uq_name q) \<and> has_username cf (tabs (w_db w')) (uq_name q)"
proof -
  have "uq_name q' = uq_name q \<and> user_req_ok q' \<and> sql_steps cf (tabs (w_db w)) (tabs (w_db w')) \<and>
    (registered q' \<longrightarrow> registered q \<or>
       \<not> has_username cf (tabs (w_db w)) (uq_name q) \<and> has_username cf (tabs (w_db w')) (uq_name q))"
  proof (cases "uq_pc q")
    case AtExists
    obtain b e d where x: "UsernameExists (sqldb E) (uq_name q) (w_db w) = ((b, e), d)" by (metis surj_pair)
    have "tabs d = tabs (w_db w)" using UsernameExists_contract [OF x] by simp
    with assms AtExists x show ?thesis
      by (auto simp: user_step_def user_req_ok_def registered_def Let_def split: option.splits if_splits)
  next
    case AtUserDraw
    with assms next_id_keeps show ?thesis by (fastforce simp: user_step_def user_req_ok_def registered_def)
  next
    case (AtUserStamp i)
    with assms time_now_keeps length_sprintf_d show ?thesis
      by (fastforce simp: user_step_def user_req_ok_def registered_def split: prod.splits)
  next
    case (AtUserInsert u)
    obtain e d where x: "UserRepository_Create (sqldb E) u (w_db w) = (e, d)" by force
    have u: "Username u = uq_name q" "length (user_ID u) \<le> 20" "length (Username u) \<le> 100"
      using assms(2) AtUserInsert by (simp_all add: user_req_ok_def)
    note eff = user_insert_effect [OF x u(3,2)]
    from assms AtUserInsert x u(1) eff(1,2) show ?thesis
      by (cases e) (auto simp: user_step_def user_req_ok_def registered_def)
  next
    case (UserDone r)
    with assms show ?thesis by (auto simp: user_step_def)
  qed
  then show "uq_name q' = uq_name q" and "user_req_ok q'" and "sql_steps cf (tabs (w_db w)) (tabs (w_db w'))"
    and "registered q' \<Longrightarrow> registered q \<or>
      \<not> has_username cf (tabs (w_db w)) (uq_name q) \<and> has_username cf (tabs (w_db w')) (uq_name q)" by blast+
qed

end

lemma signup_inv_advance:
  assumes inv: "signup_inv cf t us" and i: "i < length us" and t: "sql_steps cf t t'"
    and name: "uq_name q' = uq_name (us ! i)" and ok: "user_req_ok q'"
    and reg: "registered q' \<Longrightarrow> registered (us ! i) \<or> \<not> has_username cf t (uq_name (us ! i)) \<and> has_username cf t' (uq_name (us ! i))"
  shows "signup_inv cf t' (us[i := q'])"
proof -
  have old: "has_username cf t' (uq_name (us ! j))" if "j < length us" "registered (us ! j)" for j
    using inv that sql_steps_username [OF t] by (simp add: signup_inv_def)
  have new: "has_username cf t' (uq_name q')" if "registered q'" using reg [OF that] old [OF i] name by auto
  have other: "\<not> same cf (uq_name (us ! i)) (uq_name (us ! j))"
    if "registered q'" "j < length us" "j \<noteq> i" "registered (us ! j)" for j
  proof (cases "registered (us ! i)")
    case True
    with inv that i show ?thesis by (simp add: signup_inv_def)
  next
    case False
    with reg [OF that(1)] have "\<not> has_username cf t (uq_name (us ! i))" by simp
    moreover have "has_username cf t (uq_name (us ! j))" using inv that by (simp add: signup_inv_def)
    ultimately show ?thesis by (auto simp: has_username_def same_def list_ex_iff)
  qed
  have "user_req_ok (us[i := q'] ! j) \<and> (registered (us[i := q'] ! j) \<longrightarrow> has_username cf t' (uq_name (us[i := q'] ! j)))"
    if "j < length us" for j
    using inv that old new ok by (cases "j = i") (simp_all add: signup_inv_def)
  moreover have "\<not> same cf (uq_name (us[i := q'] ! j)) (uq_name (us[i := q'] ! k))"
    if "j < length us" "k < length us" "j \<noteq> k" "registered (us[i := q'] ! j)" "registered (us[i := q'] ! k)" for j k
    using inv that other [of j] other [of k] name
    by (cases "j = i"; cases "k = i") (auto simp: signup_inv_def same_def)
  ultimately show ?thesis by (simp add: signup_inv_def)
qed

lemma signup_reach_inv:
  assumes "backend E cf tabs keys sent" and "signup_reach E clk cf tabs s"
  shows "signup_inv cf (tabs (c_db (fst s))) (snd s)"
  using assms(2)
proof induction
  case (start c)
  show ?case by (simp add: signup_inv_def)
next
  case (step s s')
  from step.hyps(2) step.IH show ?case
  proof cases
    case (arrives name c us n)
    with step.IH show ?thesis
      by (auto simp: signup_inv_def nth_append new_user_req_def registered_def user_req_ok_def less_Suc_eq)
  next
    case (advances i us c q' w')
    let ?n = "uq_node (us ! i)"
    have ok: "user_req_ok (us ! i)" using step.IH advances by (simp add: signup_inv_def)
    note eff = backend.user_step_effect [OF node_backend [OF assms(1)] advances(4) ok]
    show ?thesis
      using signup_inv_advance [OF _ advances(3) _ eff(1,2), of cf "tabs (c_db c)" "tabs (w_db w')"] step.IH advances eff(3,4)
      by (simp add: node_world_def put_world_def)
  next
    case (others c c' us)
    with step.IH sql_steps_username show ?thesis by (fastforce simp: signup_inv_def)
  qed
qed

text \<open>A sample: a call that has found the name free, and meanwhile another node registers it.\<close>

definition race_start :: "(ref_server, ref_redis) cluster \<times> user_req list" where
  "race_start = (sample_cluster, [new_user_req 0 ''bob''])"

definition racing :: user_req where
  "racing = \<lparr>uq_node = 0, uq_name = ''bob'', uq_pc = AtUserInsert new_user\<rparr>"

definition race_cluster :: "(ref_server, ref_redis) cluster" where
  "race_cluster = sample_cluster\<lparr>c_db := w_db after_create,
     c_gens := (c_gens sample_cluster)(0 := \<lparr>workerID = 1, sequence = 0, lastStamp = 5\<rparr>), c_pos := (c_pos sample_cluster)(0 := 2)\<rparr>"

lemma put_put: "put_world n w' (put_world n w c) = put_world n w' c" and node_put: "node_world (put_world n w c) n = w"
  by (simp_all add: put_world_def node_world_def)

lemma signup_runs:
  assumes "signup_reach E clk cf tabs (c, us)" and "i < length us" and "uq_node (us ! i) = n"
    and "user_run (node_deps E clk n) k (us ! i, node_world c n) = Some (q', w')"
  shows "signup_reach E clk cf tabs (put_world n w' c, us[i := q'])"
  using assms
proof (induction k arbitrary: c us)
  case 0
  then have "put_world n w' c = c" "us[i := q'] = us" by (auto simp: put_world_def node_world_def)
  with 0 show ?case by simp
next
  case (Suc k)
  obtain q1 w1 where s: "user_step (node_deps E clk n) (us ! i, node_world c n) = Some (q1, w1)"
    and r: "user_run (node_deps E clk n) k (q1, w1) = Some (q', w')"
    using Suc.prems(4) by (auto simp: bind_eq_Some_conv)
  have n: "uq_node q1 = n" using s Suc.prems(3) by (auto simp: user_step_def Let_def split: user_pc.splits prod.splits option.splits)
  have "signup_step E clk cf tabs (c, us) (put_world n w1 c, us[i := q1])"
    using signup_step.advances [OF Suc.prems(2), of E clk c q1 w1 cf tabs] s Suc.prems(3) by simp
  with Suc.prems(1) have "signup_reach E clk cf tabs (put_world n w1 c, us[i := q1])" by (rule signup_reach.step)
  from Suc.IH [OF this] r n Suc.prems(2) show ?case by (simp add: put_put node_put)
qed

lemma race_run:
  "user_run sample_deps 3 (new_user_req 0 ''bob'', sample_world) =
     Some (racing, sample_world\<lparr>w_gen := \<lparr>workerID = 1, sequence = 0, lastStamp = 5\<rparr>, w_pos := 2\<rparr>)"
  by (simp add: user_run_unfold user_step_def new_user_req_def UsernameExists_def count_positive_def QueryRowScan_def sample_defs
      same_def next_id_def time_now_def sample_next sample_now sample_id racing_def new_user_def)

lemma race_world: "node_world sample_cluster 0 = sample_world"
proof -
  have "NewGenerator 1 = \<lparr>workerID = 1, sequence = 0, lastStamp = 0\<rparr>"
    using workerID_NewGenerator [of 1] by (simp add: NewGenerator_def Let_def split: if_splits)
  then show ?thesis by (simp add: node_world_def sample_cluster_def sample_world_def)
qed

lemma race_start_reach: "signup_reach sample_deps (\<lambda>n. sample_clock) plain_conf ref_tables race_start"
  using signup_reach.step [OF signup_reach.start signup_step.arrives [of "''bob''" _ _ _ _ sample_cluster "[]" 0]]
  by (simp add: race_start_def)

lemma race_reach:
  "signup_reach sample_deps (\<lambda>n. sample_clock) plain_conf ref_tables (race_cluster, [racing])"
proof -
  let ?R = "signup_reach sample_deps (\<lambda>n. sample_clock) plain_conf ref_tables"
  let ?w = "sample_world\<lparr>w_gen := \<lparr>workerID = 1, sequence = 0, lastStamp = 5\<rparr>, w_pos := 2\<rparr>"
  have r: "?R (put_world 0 ?w sample_cluster, [racing])"
    using signup_runs [OF race_start_reach [unfolded race_start_def], where i = 0 and n = 0 and k = 3] race_run
    by (simp add: sample_node race_world) (simp add: new_user_req_def)
  have "sql_steps plain_conf (ref_tables (w_db ?w)) (ref_tables (w_db after_create))"
    using steps_create_user [OF backend.CreateUser_spec [OF sample_backend sample_create, THEN conjunct2]] by simp
  with r show ?thesis
    by (intro signup_reach.step [OF r] signup_step.others) (simp add: race_cluster_def put_world_def)
qed

section \<open>Properties\<close>

text \<open>
  (C29) One user per name, for concurrent registrations: in every interleaving of any number of calls on any
  number of nodes, at most one of the calls for a name (under the server's collation) returns a user.
\<close>

theorem one_user_per_name:
  assumes "backend E cf tabs keys sent" and "signup_reach E clk cf tabs (c, us)"
  shows "length (filter (\<lambda>q. registered q \<and> same cf (uq_name q) name) us) \<le> 1"
proof (rule filter_at_most_one)
  fix i j
  assume ij: "i < length us" "j < length us" "registered (us ! i) \<and> same cf (uq_name (us ! i)) name"
    "registered (us ! j) \<and> same cf (uq_name (us ! j)) name"
  then have "same cf (uq_name (us ! i)) (uq_name (us ! j))" by (simp add: same_def)
  then show "i = j" using ij signup_reach_inv [OF assms] by (auto simp: signup_inv_def)
qed

theorem one_user_per_name_witness:
  "\<exists>us. map uq_pc us = [UserDone (Inr new_user)] \<and>
     length (filter (\<lambda>q. registered q \<and> same plain_conf (uq_name q) ''bob'') us) \<le> 1"
proof -
  obtain q' where r: "user_run sample_deps 4 (new_user_req 0 ''bob'', sample_world) = Some (q', after_create)"
    and q': "uq_pc q' = UserDone (Inr new_user)"
    using user_run_alone [of sample_deps 0 "''bob''" sample_world] by (auto simp: sample_create)
  have "signup_reach sample_deps (\<lambda>n. sample_clock) plain_conf ref_tables (put_world 0 after_create sample_cluster, [q'])"
    using signup_runs [OF race_start_reach [unfolded race_start_def], where i = 0 and n = 0 and k = 4] r
    by (simp add: sample_node race_world) (simp add: new_user_req_def)
  from one_user_per_name [OF sample_backend this, of "''bob''"] q' show ?thesis
    by (intro exI [of _ "[q']"]) simp
qed

text \<open>
  The loser of a race is not told that the name is taken: a call that has found the name free, while another
  registration of the name has been stored since, gets an error of the database and stores nothing. It never gets
  \<open>ErrUsernameTaken\<close>, although the username is in use.
\<close>

lemma race_loser_storage_error:
  assumes "backend E cf tabs keys sent" and "signup_reach E clk cf tabs (c, us)" and "i < length us"
    and "uq_pc (us ! i) = AtUserInsert u" and "has_username cf (tabs (c_db c)) (uq_name (us ! i))"
    and "user_step (node_deps E clk n) (us ! i, node_world c n) = Some (q', w')"
  shows "tabs (w_db w') = tabs (c_db c) \<and> (\<exists>e. uq_pc q' = UserDone (Inl e) \<and> storage_error e \<and> e \<noteq> ErrUsernameTaken)"
proof -
  have ok: "Username u = uq_name (us ! i)" "length (Username u) \<le> 100" "length (user_ID u) \<le> 20"
    using signup_reach_inv [OF assms(1,2)] assms(3,4) by (auto simp: signup_inv_def user_req_ok_def)
  obtain e d where x: "UserRepository_Create (sqldb E) u (c_db c) = (e, d)" by force
  note eff = backend.user_insert_effect [OF assms(1) x ok(2,3)]
  have "e \<noteq> None" "tabs d = tabs (c_db c)" using eff(4) assms(5) ok(1) by simp_all
  then show ?thesis using assms(4,6) x eff(3)
    by (auto simp: user_step_def node_world_def storage_error_def)
qed

end
