(* ===== verification/Api_Main.thy ===== *)
theory Api_Main
  imports Concurrent_Users Config Database_Pool "HOL-Library.State_Monad"
begin

text \<open>
  \<^verbatim>\<open>api-server/main.go\<close>: how \<^verbatim>\<open>main\<close> builds the server. Its objects live in a heap, constructors allocate them, and a
  field is an address, so what is shared is visible: there is one generator, and the three services that draw
  identifiers point to it. A well-typed heap has no dangling or wrong pointer. A request served through the pointers of the
  handlers does exactly what \<open>ServeHTTP\<close> does on the state the other theories use.
\<close>

section \<open>Objects\<close>

type_synonym addr = nat

datatype obj =
    DB pool | RedisClient string | Gen generator
  | UserRepo addr | ChannelRepo addr | MessageRepo addr | CacheRepo addr | RedisBroker addr
  | MessageService addr addr addr addr addr | SyncService addr | UserService addr addr | ChannelService addr addr addr
  | MessageHandler addr | SyncHandler addr | UserHandler addr | ChannelHandler addr

type_synonym heap = "obj list"

definition alloc :: "obj \<Rightarrow> (heap, addr) state" where
  "alloc x = State (\<lambda>h. (length h, h @ [x]))"

definition NewUserRepository :: "addr \<Rightarrow> (heap, addr) state" where
  "NewUserRepository db = alloc (UserRepo db)"

definition NewChannelRepository :: "addr \<Rightarrow> (heap, addr) state" where
  "NewChannelRepository db = alloc (ChannelRepo db)"

definition NewMessageRepository :: "addr \<Rightarrow> (heap, addr) state" where
  "NewMessageRepository db = alloc (MessageRepo db)"

definition NewCacheRepository :: "addr \<Rightarrow> (heap, addr) state" where
  "NewCacheRepository client = alloc (CacheRepo client)"

definition NewRedisBroker :: "addr \<Rightarrow> (heap, addr) state" where
  "NewRedisBroker client = alloc (RedisBroker client)"

definition NewMessageService :: "addr \<Rightarrow> addr \<Rightarrow> addr \<Rightarrow> addr \<Rightarrow> addr \<Rightarrow> (heap, addr) state" where
  "NewMessageService db broker chanRepo cacheRepo sf = alloc (MessageService db broker chanRepo cacheRepo sf)"

definition NewSyncService :: "addr \<Rightarrow> (heap, addr) state" where
  "NewSyncService msgRepo = alloc (SyncService msgRepo)"

definition NewUserService :: "addr \<Rightarrow> addr \<Rightarrow> (heap, addr) state" where
  "NewUserService repo sf = alloc (UserService repo sf)"

definition NewChannelService :: "addr \<Rightarrow> addr \<Rightarrow> addr \<Rightarrow> (heap, addr) state" where
  "NewChannelService repo userRepo sf = alloc (ChannelService repo userRepo sf)"

definition NewMessageHandler :: "addr \<Rightarrow> (heap, addr) state" where
  "NewMessageHandler svc = alloc (MessageHandler svc)"

definition NewSyncHandler :: "addr \<Rightarrow> (heap, addr) state" where
  "NewSyncHandler syncSvc = alloc (SyncHandler syncSvc)"

definition NewUserHandler :: "addr \<Rightarrow> (heap, addr) state" where
  "NewUserHandler svc = alloc (UserHandler svc)"

definition NewChannelHandler :: "addr \<Rightarrow> (heap, addr) state" where
  "NewChannelHandler svc = alloc (ChannelHandler svc)"

section \<open>Start-up\<close>

record http_server =
  srv_Addr :: string
  msgHandler :: addr
  syncHandler :: addr
  userHandler :: addr
  chanHandler :: addr

text \<open>The part of \<^verbatim>\<open>main\<close> after \<^verbatim>\<open>Connect\<close>, which has allocated the pool.\<close>

definition wire :: "config \<Rightarrow> addr \<Rightarrow> (heap, http_server) state" where
  "wire cfg db = do {
     rdb \<leftarrow> alloc (RedisClient (RedisAddr cfg));
     sf \<leftarrow> alloc (Gen (NewGenerator (WorkerID cfg)));
     userRepo \<leftarrow> NewUserRepository db;
     chanRepo \<leftarrow> NewChannelRepository db;
     msgRepo \<leftarrow> NewMessageRepository db;
     cacheRepo \<leftarrow> NewCacheRepository rdb;
     broker \<leftarrow> NewRedisBroker rdb;
     msgSvc \<leftarrow> NewMessageService db broker chanRepo cacheRepo sf;
     syncSvc \<leftarrow> NewSyncService msgRepo;
     userSvc \<leftarrow> NewUserService userRepo sf;
     chanSvc \<leftarrow> NewChannelService chanRepo userRepo sf;
     mh \<leftarrow> NewMessageHandler msgSvc;
     sh \<leftarrow> NewSyncHandler syncSvc;
     uh \<leftarrow> NewUserHandler userSvc;
     ch \<leftarrow> NewChannelHandler chanSvc;
     State_Monad.return \<lparr>srv_Addr = APIPort cfg, msgHandler = mh, syncHandler = sh, userHandler = uh, chanHandler = ch\<rparr>
   }"

text \<open>\<^verbatim>\<open>main\<close> up to \<^verbatim>\<open>ListenAndServe\<close>; an error of \<^verbatim>\<open>Connect\<close> is fatal.\<close>

definition api_boot ::
    "(string \<Rightarrow> go_error option) \<Rightarrow> (string \<Rightarrow> go_error option) \<Rightarrow> int \<Rightarrow> environ \<Rightarrow> go_error + http_server \<times> heap" where
  "api_boot open_driver ping now env =
     (let cfg = Load env
      in (case Connect open_driver ping now (MySQLDSN cfg) of
            Inl err \<Rightarrow> Inl err
          | Inr pl \<Rightarrow> Inr (run_state (do { db \<leftarrow> alloc (DB pl); wire cfg db }) [])))"

section \<open>Serving through the objects\<close>

definition deref :: "heap \<Rightarrow> addr \<Rightarrow> obj option" where
  "deref h a = (if a < length h then Some (h ! a) else None)"

text \<open>The generator a handler reaches: through its service.\<close>

definition service_gen :: "heap \<Rightarrow> addr \<Rightarrow> addr option" where
  "service_gen h a =
     (case deref h a of
        Some (MessageService db broker chanRepo cacheRepo sf) \<Rightarrow> Some sf
      | Some (UserService repo sf) \<Rightarrow> Some sf
      | Some (ChannelService repo userRepo sf) \<Rightarrow> Some sf
      | _ \<Rightarrow> None)"

definition handler_gen :: "heap \<Rightarrow> addr \<Rightarrow> addr option" where
  "handler_gen h a =
     (case deref h a of
        Some (MessageHandler svc) \<Rightarrow> service_gen h svc
      | Some (UserHandler svc) \<Rightarrow> service_gen h svc
      | Some (ChannelHandler svc) \<Rightarrow> service_gen h svc
      | _ \<Rightarrow> None)"

fun endpoint_handler :: "http_server \<Rightarrow> endpoint \<Rightarrow> addr option" where
  "endpoint_handler srv Messages = Some (msgHandler srv)"
| "endpoint_handler srv Users = Some (userHandler srv)"
| "endpoint_handler srv UserByID = Some (userHandler srv)"
| "endpoint_handler srv Channels = Some (chanHandler srv)"
| "endpoint_handler srv ChannelRoute = Some (chanHandler srv)"
| "endpoint_handler srv _ = None"

record ('d, 'r) api_proc =
  p_srv :: http_server
  p_heap :: heap
  p_db :: 'd
  p_redis :: 'r
  p_pos :: nat

text \<open>
  A request: the generator is read through the handler and its service, and updated in place. The sync handler
  has none. A nil or wrong pointer is a panic, here \<open>None\<close>.
\<close>

definition serve_object ::
    "('d, 'r) deps \<Rightarrow> ((string \<rightharpoonup> uint64) \<Rightarrow> (string \<times> uint64) list) \<Rightarrow> request \<Rightarrow> ('d, 'r) api_proc
       \<Rightarrow> (response \<times> ('d, 'r) api_proc) option" where
  "serve_object E order r p =
     (case endpoint_handler (p_srv p) (route (Path r)) of
        None \<Rightarrow>
          map_option (\<lambda>(resp, w). (resp, p\<lparr>p_db := w_db w, p_redis := w_redis w, p_pos := w_pos w\<rparr>))
            (ServeHTTP E order r \<lparr>w_db = p_db p, w_redis = p_redis p, w_gen = NewGenerator 0, w_pos = p_pos p\<rparr>)
      | Some a \<Rightarrow> do {
          sf \<leftarrow> handler_gen (p_heap p) a;
          x \<leftarrow> deref (p_heap p) sf;
          (case x of
             Gen g \<Rightarrow>
               map_option (\<lambda>(resp, w). (resp, p\<lparr>p_heap := (p_heap p)[sf := Gen (w_gen w)], p_db := w_db w,
                   p_redis := w_redis w, p_pos := w_pos w\<rparr>))
                 (ServeHTTP E order r \<lparr>w_db = p_db p, w_redis = p_redis p, w_gen = g, w_pos = p_pos p\<rparr>)
           | _ \<Rightarrow> None)
        })"

inductive proc_reach ::
    "('d, 'r) deps \<Rightarrow> ((string \<rightharpoonup> uint64) \<Rightarrow> (string \<times> uint64) list) \<Rightarrow> environ \<Rightarrow> ('d, 'r) api_proc \<Rightarrow> bool"
  for E order env where
  boot: "api_boot open_driver ping now env = Inr (srv, h) \<Longrightarrow>
    proc_reach E order env \<lparr>p_srv = srv, p_heap = h, p_db = d, p_redis = x, p_pos = k\<rparr>"
| served: "proc_reach E order env p \<Longrightarrow> serve_object E order r p = Some (resp, p') \<Longrightarrow> proc_reach E order env p'"
| others: "proc_reach E order env p \<Longrightarrow> proc_reach E order env (p\<lparr>p_db := d, p_redis := x\<rparr>)"

section \<open>Types\<close>

datatype obj_type = TDB | TRedis | TGen | TUserRepo | TChannelRepo | TMessageRepo | TCacheRepo | TBroker
  | TMessageService | TSyncService | TUserService | TChannelService | TMessageHandler | TSyncHandler | TUserHandler | TChannelHandler

fun type_of :: "obj \<Rightarrow> obj_type" where
  "type_of (DB x) = TDB" | "type_of (RedisClient x) = TRedis" | "type_of (Gen x) = TGen"
| "type_of (UserRepo a) = TUserRepo" | "type_of (ChannelRepo a) = TChannelRepo" | "type_of (MessageRepo a) = TMessageRepo"
| "type_of (CacheRepo a) = TCacheRepo" | "type_of (RedisBroker a) = TBroker"
| "type_of (MessageService a b c d e) = TMessageService" | "type_of (SyncService a) = TSyncService"
| "type_of (UserService a b) = TUserService" | "type_of (ChannelService a b c) = TChannelService"
| "type_of (MessageHandler a) = TMessageHandler" | "type_of (SyncHandler a) = TSyncHandler"
| "type_of (UserHandler a) = TUserHandler" | "type_of (ChannelHandler a) = TChannelHandler"

text \<open>The declared types of the fields.\<close>

fun fields :: "obj \<Rightarrow> (addr \<times> obj_type) list" where
  "fields (UserRepo db) = [(db, TDB)]"
| "fields (ChannelRepo db) = [(db, TDB)]"
| "fields (MessageRepo db) = [(db, TDB)]"
| "fields (CacheRepo client) = [(client, TRedis)]"
| "fields (RedisBroker client) = [(client, TRedis)]"
| "fields (MessageService db broker chanRepo cacheRepo sf) =
     [(db, TDB), (broker, TBroker), (chanRepo, TChannelRepo), (cacheRepo, TCacheRepo), (sf, TGen)]"
| "fields (SyncService msgRepo) = [(msgRepo, TMessageRepo)]"
| "fields (UserService repo sf) = [(repo, TUserRepo), (sf, TGen)]"
| "fields (ChannelService repo userRepo sf) = [(repo, TChannelRepo), (userRepo, TUserRepo), (sf, TGen)]"
| "fields (MessageHandler svc) = [(svc, TMessageService)]"
| "fields (SyncHandler svc) = [(svc, TSyncService)]"
| "fields (UserHandler svc) = [(svc, TUserService)]"
| "fields (ChannelHandler svc) = [(svc, TChannelService)]"
| "fields _ = []"

definition points_to :: "heap \<Rightarrow> addr \<Rightarrow> obj_type \<Rightarrow> bool" where
  "points_to h a T \<longleftrightarrow> a < length h \<and> type_of (h ! a) = T"

definition heap_typed :: "heap \<Rightarrow> bool" where
  "heap_typed h \<longleftrightarrow> list_all (\<lambda>x. list_all (\<lambda>(a, T). points_to h a T) (fields x)) h"

definition server_typed :: "heap \<Rightarrow> http_server \<Rightarrow> bool" where
  "server_typed h srv \<longleftrightarrow> points_to h (msgHandler srv) TMessageHandler \<and> points_to h (syncHandler srv) TSyncHandler \<and>
     points_to h (userHandler srv) TUserHandler \<and> points_to h (chanHandler srv) TChannelHandler"

text \<open>The heap that \<^verbatim>\<open>main\<close> builds, with the generator as it is later.\<close>

definition wired_heap :: "pool \<Rightarrow> string \<Rightarrow> generator \<Rightarrow> heap" where
  "wired_heap pl addr g =
     [DB pl, RedisClient addr, Gen g, UserRepo 0, ChannelRepo 0, MessageRepo 0, CacheRepo 1, RedisBroker 1,
      MessageService 0 7 4 6 2, SyncService 5, UserService 3 2, ChannelService 4 3 2,
      MessageHandler 8, SyncHandler 9, UserHandler 10, ChannelHandler 11]"

definition wired_server :: "string \<Rightarrow> http_server" where
  "wired_server port = \<lparr>srv_Addr = port, msgHandler = 12, syncHandler = 13, userHandler = 14, chanHandler = 15\<rparr>"

lemmas constructors = NewUserRepository_def NewChannelRepository_def NewMessageRepository_def NewCacheRepository_def
  NewRedisBroker_def NewMessageService_def NewSyncService_def NewUserService_def NewChannelService_def
  NewMessageHandler_def NewSyncHandler_def NewUserHandler_def NewChannelHandler_def

lemma run_alloc [simp]: "run_state (alloc x) h = (length h, h @ [x])"
  by (simp add: alloc_def)

lemma api_boot_result:
  "api_boot open_driver ping now env = Inr (srv, h) \<longleftrightarrow>
     (\<exists>pl. Connect open_driver ping now (MySQLDSN (Load env)) = Inr pl \<and> srv = wired_server (APIPort (Load env)) \<and>
        h = wired_heap pl (RedisAddr (Load env)) (NewGenerator (WorkerID (Load env))))"
  by (auto simp: api_boot_def Let_def wire_def constructors wired_heap_def wired_server_def split: sum.splits)

lemma wired_typed: "heap_typed (wired_heap pl x g)" "server_typed (wired_heap pl x g) (wired_server port)"
  by (simp_all add: heap_typed_def server_typed_def points_to_def wired_heap_def wired_server_def)

lemma wired_gens:
  "handler_gen (wired_heap pl x g) (msgHandler (wired_server port)) = Some 2"
  "handler_gen (wired_heap pl x g) (userHandler (wired_server port)) = Some 2"
  "handler_gen (wired_heap pl x g) (chanHandler (wired_server port)) = Some 2"
  "deref (wired_heap pl x g) 2 = Some (Gen g)" "(wired_heap pl x g)[2 := Gen g'] = wired_heap pl x g'"
  by (simp_all add: handler_gen_def service_gen_def deref_def wired_heap_def wired_server_def)

text \<open>The state of the services, as the other theories have it.\<close>

definition heap_world :: "('d, 'r) api_proc \<Rightarrow> ('d, 'r) world" where
  "heap_world p = \<lparr>w_db = p_db p, w_redis = p_redis p,
     w_gen = (case Option.bind (handler_gen (p_heap p) (msgHandler (p_srv p))) (deref (p_heap p)) of
                Some (Gen g) \<Rightarrow> g | _ \<Rightarrow> NewGenerator 0),
     w_pos = p_pos p\<rparr>"

lemma wired_endpoints:
  "endpoint_handler (wired_server port) ep = Some a \<Longrightarrow> handler_gen (wired_heap pl x g) a = Some 2"
  by (cases ep) (auto simp: wired_gens)

lemma sync_no_generator:
  "HandleDeltaSync E order r (w\<lparr>w_gen := g\<rparr>) = (case HandleDeltaSync E order r w of (resp, w') \<Rightarrow> (resp, w'\<lparr>w_gen := g\<rparr>))"
  by (simp add: HandleDeltaSync_def SyncDeltas_def split: option.split prod.split sum.split)

lemma no_generator:
  assumes "endpoint_handler srv (route (Path r)) = None"
  shows "ServeHTTP E order r (w\<lparr>w_gen := g\<rparr>) = map_option (\<lambda>(resp, w'). (resp, w'\<lparr>w_gen := g\<rparr>)) (ServeHTTP E order r w)"
proof -
  from assms consider "route (Path r) = SyncEndpoint" | "route (Path r) = NotFound" by (cases "route (Path r)") auto
  then show ?thesis by cases (simp_all add: ServeHTTP_def sync_no_generator split: prod.split)
qed

lemma proc_wired:
  "proc_reach E order env p \<Longrightarrow>
     \<exists>pl g. p_heap p = wired_heap pl (RedisAddr (Load env)) g \<and> p_srv p = wired_server (APIPort (Load env))"
proof (induction rule: proc_reach.induct)
  case (boot od ping now srv h d x k)
  then show ?case by (auto simp: api_boot_result)
next
  case (served p r resp p')
  then obtain pl g where w: "p_heap p = wired_heap pl (RedisAddr (Load env)) g" "p_srv p = wired_server (APIPort (Load env))" by blast
  show ?case
  proof (cases "endpoint_handler (p_srv p) (route (Path r))")
    case None
    with served.hyps(2) w show ?thesis by (intro exI [of _ pl] exI [of _ g]) (auto simp: serve_object_def)
  next
    case (Some a)
    have "handler_gen (p_heap p) a = Some 2" using wired_endpoints Some by (simp add: w)
    with Some served.hyps(2) w show ?thesis by (fastforce simp: serve_object_def wired_gens)
  qed
qed simp

section \<open>Properties\<close>


text \<open>
  (C19) Serving a request through the objects that \<^verbatim>\<open>main\<close> has wired is \<open>ServeHTTP\<close>: the response and the state are the
  same, with the one shared generator as the generator of the state; no pointer is nil.
\<close>

theorem wired_server_refines:
  assumes "proc_reach E order env p"
  shows "map_option (\<lambda>(resp, p'). (resp, heap_world p')) (serve_object E order r p) = ServeHTTP E order r (heap_world p)"
proof -
  obtain pl g where w: "p_heap p = wired_heap pl (RedisAddr (Load env)) g" "p_srv p = wired_server (APIPort (Load env))"
    using proc_wired [OF assms] by blast
  let ?w = "\<lparr>w_db = p_db p, w_redis = p_redis p, w_gen = g, w_pos = p_pos p\<rparr>"
  have abs: "heap_world p = ?w" by (simp add: heap_world_def w wired_gens)
  show ?thesis
  proof (cases "endpoint_handler (p_srv p) (route (Path r))")
    case None
    note ng = no_generator [OF None]
    have "ServeHTTP E order r ?w = map_option (\<lambda>(resp, w'). (resp, w'\<lparr>w_gen := g\<rparr>)) (ServeHTTP E order r (?w\<lparr>w_gen := NewGenerator 0\<rparr>))"
      using ng [where g = g and w = "?w\<lparr>w_gen := NewGenerator 0\<rparr>"] by simp
    with None show ?thesis
      by (cases "ServeHTTP E order r (?w\<lparr>w_gen := NewGenerator 0\<rparr>)")
        (auto simp: serve_object_def abs heap_world_def w wired_gens)
  next
    case (Some a)
    have "handler_gen (p_heap p) a = Some 2" using wired_endpoints Some by (simp add: w)
    with Some show ?thesis
      by (cases "ServeHTTP E order r ?w") (auto simp: serve_object_def abs heap_world_def w wired_gens)
  qed
qed

definition sample_boot :: "http_server \<times> heap" where
  "sample_boot = (wired_server '':8080'',
     wired_heap (SetConnMaxLifetime (5 * 60 * second) (SetMaxIdleConns 5 (SetMaxOpenConns 25 sql_Open))\<lparr>freeConn := [7]\<rparr>)
       ''127.0.0.1:6379'' (NewGenerator 1))"

definition sample_proc :: "(ref_server, ref_redis) api_proc" where
  "sample_proc = \<lparr>p_srv = fst sample_boot, p_heap = snd sample_boot, p_db = w_db empty_world, p_redis = w_redis empty_world, p_pos = 0\<rparr>"

lemma sample_proc_reach: "proc_reach sample_deps order Map.empty sample_proc"
proof -
  have "api_boot (\<lambda>d. None) (\<lambda>d. None) 7 Map.empty = Inr sample_boot"
    by (simp add: sample_boot_def api_boot_result Load_def getEnv_def getEnvInt64_def Getenv_def Connect_def Let_def)
  then show ?thesis unfolding sample_proc_def by (intro proc_reach.boot [of "\<lambda>d. None" "\<lambda>d. None" 7]) simp
qed


theorem wired_server_refines_witness:
  "map_option (\<lambda>(resp, p'). (resp, heap_world p')) (serve_object sample_deps (\<lambda>m. []) bob_request sample_proc) =
     Some (http_JSON (JUser new_user) 201, bob_world)"
proof -
  have "NewGenerator 1 = \<lparr>workerID = 1, sequence = 0, lastStamp = 0\<rparr>"
    using workerID_NewGenerator [of 1] by (simp add: NewGenerator_def Let_def split: if_splits)
  then have "heap_world sample_proc = empty_world"
    by (simp add: heap_world_def sample_proc_def sample_boot_def wired_gens empty_world_def sample_world_def)
  with wired_server_refines [OF sample_proc_reach, of "\<lambda>m. []" bob_request] bob_served show ?thesis by simp
qed

end
