(* ===== verification/Fleet.thy ===== *)
theory Fleet
  imports Api_Main
begin

text \<open>
  The life of the API processes of a deployment: each is started by \<^verbatim>\<open>main\<close> from its environment, serves calls, and ends by
  a signal or an error. The calls are those of \<open>Concurrent_Send\<close>, so every property of the cluster holds for a deployment as well.
  After \<^verbatim>\<open>srv.Close()\<close> no request arrives any more, and when \<^verbatim>\<open>main\<close> returns the calls in progress are gone.
\<close>

section \<open>Processes\<close>

datatype phase = Starting | Serving | Closing | Exited nat

text \<open>
  The steps of the fleet. \<open>boots\<close>, \<open>boot_fails\<close>: \<^verbatim>\<open>main\<close> up to \<^verbatim>\<open>ListenAndServe\<close>, where \<^verbatim>\<open>log.Fatalf\<close> exits with status 1; \<open>listen_fails\<close>:
  \<^verbatim>\<open>ListenAndServe\<close> returns an error that is not \<^verbatim>\<open>ErrServerClosed\<close>; \<open>signal\<close>: the goroutine that waits for a signal calls
  \<^verbatim>\<open>srv.Close()\<close>; \<open>exits\<close>: \<^verbatim>\<open>main\<close> returns. The generator of a node is the one its start-up makes from the environment.
\<close>

inductive fleet_step ::
    "('d, 'r) deps \<Rightarrow> (nat \<Rightarrow> clock) \<Rightarrow> sql_conf \<Rightarrow> ('d \<Rightarrow> tables) \<Rightarrow> ('r \<Rightarrow> (string \<rightharpoonup> int)) \<Rightarrow> ('r \<Rightarrow> (string \<times> json) list)
       \<Rightarrow> (nat \<Rightarrow> environ) \<Rightarrow> ('d, 'r) cluster \<times> (nat \<Rightarrow> phase) \<Rightarrow> ('d, 'r) cluster \<times> (nat \<Rightarrow> phase) \<Rightarrow> bool"
  for E clk cf tabs keys sent envs where
  boots: "ph n = Starting \<Longrightarrow> api_boot open_driver ping now (envs n) = Inr (srv, h) \<Longrightarrow>
    fleet_step E clk cf tabs keys sent envs (c, ph) (c, ph(n := Serving))"
| boot_fails: "ph n = Starting \<Longrightarrow> api_boot open_driver ping now (envs n) = Inl err \<Longrightarrow>
    fleet_step E clk cf tabs keys sent envs (c, ph) (c, ph(n := Exited 1))"
| arrives: "ph n = Serving \<Longrightarrow> message_fits msg \<Longrightarrow>
    fleet_step E clk cf tabs keys sent envs (c, ph) (c\<lparr>c_reqs := c_reqs c @ [new_req n key msg]\<rparr>, ph)"
| advances: "i < length (c_reqs c) \<Longrightarrow> q = c_reqs c ! i \<Longrightarrow> ph (q_node q) = Serving \<or> ph (q_node q) = Closing \<Longrightarrow>
    send_step (node_deps E clk (q_node q)) (q, node_world c (q_node q)) = Some (q', w') \<Longrightarrow>
    fleet_step E clk cf tabs keys sent envs (c, ph) ((put_world (q_node q) w' c)\<lparr>c_reqs := (c_reqs c)[i := q']\<rparr>, ph)"
| others: "sql_steps cf (tabs (c_db c)) (tabs d) \<Longrightarrow> dom (keys (c_redis c)) \<subseteq> dom (keys r) \<Longrightarrow> sent r = sent (c_redis c) \<Longrightarrow>
    fleet_step E clk cf tabs keys sent envs (c, ph) (c\<lparr>c_db := d, c_redis := r\<rparr>, ph)"
| listen_fails: "ph n = Serving \<Longrightarrow> fleet_step E clk cf tabs keys sent envs (c, ph) (c, ph(n := Exited 1))"
| signal: "ph n = Serving \<Longrightarrow> fleet_step E clk cf tabs keys sent envs (c, ph) (c, ph(n := Closing))"
| exits: "ph n = Closing \<Longrightarrow> fleet_step E clk cf tabs keys sent envs (c, ph) (c, ph(n := Exited 0))"

inductive fleet_reach ::
    "('d, 'r) deps \<Rightarrow> (nat \<Rightarrow> clock) \<Rightarrow> sql_conf \<Rightarrow> ('d \<Rightarrow> tables) \<Rightarrow> ('r \<Rightarrow> (string \<rightharpoonup> int)) \<Rightarrow> ('r \<Rightarrow> (string \<times> json) list)
       \<Rightarrow> (nat \<Rightarrow> environ) \<Rightarrow> ('d, 'r) cluster \<times> (nat \<Rightarrow> phase) \<Rightarrow> bool"
  for E clk cf tabs keys sent envs where
  start: "c_reqs c = [] \<Longrightarrow> sent (c_redis c) = [] \<Longrightarrow> c_gens c = (\<lambda>n. NewGenerator (WorkerID (Load (envs n)))) \<Longrightarrow>
    c_pos c = (\<lambda>n. 0) \<Longrightarrow> fleet_reach E clk cf tabs keys sent envs (c, \<lambda>n. Starting)"
| step: "fleet_reach E clk cf tabs keys sent envs s \<Longrightarrow> fleet_step E clk cf tabs keys sent envs s s' \<Longrightarrow>
    fleet_reach E clk cf tabs keys sent envs s'"

section \<open>A fleet is a cluster\<close>

lemma fleet_step_cluster:
  "fleet_step E clk cf tabs keys sent envs s s' \<Longrightarrow> fst s' = fst s \<or> cluster_step E clk cf tabs keys sent (fst s) (fst s')"
  by (induction rule: fleet_step.induct) (auto intro: cluster_step.intros)

definition fleet_start :: "('r \<Rightarrow> (string \<times> json) list) \<Rightarrow> (nat \<Rightarrow> environ) \<Rightarrow> ('d, 'r) cluster \<times> (nat \<Rightarrow> phase) \<Rightarrow> bool" where
  "fleet_start sent envs s \<longleftrightarrow> cluster_start sent (\<lambda>n. WorkerID (Load (envs n))) (fst s) \<and> snd s = (\<lambda>n. Starting)"

interpretation fl: refinement "fleet_start sent envs" "fleet_step E clk cf tabs keys sent envs" "fleet_reach E clk cf tabs keys sent envs"
    "cluster_start sent (\<lambda>n. WorkerID (Load (envs n)))" "cluster_step E clk cf tabs keys sent"
    "cluster_reach E clk cf tabs keys sent (\<lambda>n. WorkerID (Load (envs n)))" fst for E clk cf tabs keys sent envs
proof
  let ?R = "fleet_reach E clk cf tabs keys sent envs" and ?S = "fleet_step E clk cf tabs keys sent envs"
  show "P s" if "?R s" "\<And>s. fleet_start sent envs s \<Longrightarrow> P s" "\<And>s t. ?R s \<Longrightarrow> P s \<Longrightarrow> ?S s t \<Longrightarrow> P t" for P s
    by (rule fleet_reach.induct [OF that(1)])
      (rule that(2), simp add: fleet_start_def cluster_start_def, erule (2) that(3))
  show "?R s" if "fleet_start sent envs s" for s
    using that by (cases s) (auto simp: fleet_start_def cluster_start_def intro!: fleet_reach.start)
  show "(cluster_step E clk cf tabs keys sent)\<^sup>*\<^sup>* (fst s) (fst t)" if "?S s t" for s t
    using fleet_step_cluster [OF that] by auto
qed (auto simp: fleet_start_def intro: fleet_reach.step)

text \<open>A node that has exited stays so, and its calls stay as they were.\<close>

lemma exited_step:
  assumes "fleet_step E clk cf tabs keys sent envs s s'" and "snd s n = Exited k"
    and "i < length (c_reqs (fst s))" and "q_node (c_reqs (fst s) ! i) = n"
  shows "snd s' n = Exited k \<and> i < length (c_reqs (fst s')) \<and> c_reqs (fst s') ! i = c_reqs (fst s) ! i"
  using assms
proof (induction rule: fleet_step.induct)
  case (advances j c q ph q' w')
  then have "i \<noteq> j" by auto
  with advances show ?case by simp
qed (auto simp: nth_append)

lemma exited_steps:
  assumes "(fleet_step E clk cf tabs keys sent envs)\<^sup>*\<^sup>* s s'" and "snd s n = Exited k"
    and "i < length (c_reqs (fst s))" and "q_node (c_reqs (fst s) ! i) = n"
  shows "snd s' n = Exited k \<and> i < length (c_reqs (fst s')) \<and> c_reqs (fst s') ! i = c_reqs (fst s) ! i"
  using assms(1)
proof (induction rule: rtranclp_induct)
  case base
  with assms show ?case by simp
next
  case (step y z)
  then show ?case using exited_step [OF step.hyps(2), of n k i] assms(4) by simp
qed

lemma worker_from_env:
  assumes "env ''WORKER_ID'' = Some (dec n)" and "n \<le> 1023"
  shows "WorkerID (Load env) \<le> 1023" and "unat (WorkerID (Load env)) = n"
proof -
  have w: "WorkerID (Load env) = word_of_nat n"
    using assms(1) by (simp add: Load_def getEnvInt64_def Getenv_def parse_digits_value dec_digits)
  have u: "unat (word_of_nat n :: int64) = n"
    using assms(2) by (simp add: unsigned_of_nat take_bit_nat_eq_self)
  show "unat (WorkerID (Load env)) = n" by (simp add: w u)
  show "WorkerID (Load env) \<le> 1023" using assms(2) by (simp add: w word_le_nat_alt u)
qed

section \<open>A sample fleet\<close>

lemma fleet_runs:
  assumes "fleet_reach E clk cf tabs keys sent envs (c, ph)" and "ph n = Serving" and "i < length (c_reqs c)"
    and "send_run (node_deps E clk n) k (c_reqs c ! i, node_world c n) = Some (q', w')" and "q_node (c_reqs c ! i) = n"
  shows "fleet_reach E clk cf tabs keys sent envs ((put_world n w' c)\<lparr>c_reqs := (c_reqs c)[i := q']\<rparr>, ph)"
proof (rule call_runs [where R = "\<lambda>c. fleet_reach E clk cf tabs keys sent envs (c, ph)", OF _ assms(1,3-)])
  fix c q1 w1
  assume c: "fleet_reach E clk cf tabs keys sent envs (c, ph)" "i < length (c_reqs c)" "q_node (c_reqs c ! i) = n"
    "send_step (node_deps E clk n) (c_reqs c ! i, node_world c n) = Some (q1, w1)"
  show "fleet_reach E clk cf tabs keys sent envs ((put_world n w1 c)\<lparr>c_reqs := (c_reqs c)[i := q1]\<rparr>, ph)"
    using fleet_reach.step [OF c(1) fleet_step.advances [OF c(2) refl]] c(3,4) assms(2) by simp
qed

definition sample_envs :: "nat \<Rightarrow> environ" where
  "sample_envs n = [''WORKER_ID'' \<mapsto> dec (Suc n)]"

definition sample_fleet :: "(ref_server, ref_redis) cluster" where
  "sample_fleet = sample_cluster\<lparr>c_gens := (\<lambda>n. NewGenerator (WorkerID (Load (sample_envs n)))),
     c_reqs := [new_req 0 ''k'' (sample_msg ''7'')]\<rparr>"

lemma sample_env_worker: "WorkerID (Load (sample_envs 0)) = 1"
proof -
  have "unat (WorkerID (Load (sample_envs 0))) = 1" by (rule worker_from_env) (simp_all add: sample_envs_def)
  then show ?thesis by (simp add: word_unat_eq_iff)
qed

lemma sample_fleet_reach:
  "fleet_reach sample_deps (\<lambda>n. sample_clock) plain_conf ref_tables (\<lambda>r. map_of (rr_keys r)) rr_sent sample_envs
     (sample_fleet, (\<lambda>n. Starting)(0 := Serving))"
proof -
  let ?R = "fleet_reach sample_deps (\<lambda>n. sample_clock) plain_conf ref_tables (\<lambda>r. map_of (rr_keys r)) rr_sent sample_envs"
  let ?c = "sample_fleet\<lparr>c_reqs := []\<rparr>"
  have s: "?R (?c, \<lambda>n. Starting)"
    by (rule fleet_reach.start) (simp_all add: sample_fleet_def sample_cluster_def sample_world_def)
  obtain srv h where b: "api_boot (\<lambda>d. None) (\<lambda>d. None) 7 (sample_envs 0) = Inr (srv, h)"
    by (auto simp: api_boot_result Connect_def Let_def)
  have r: "?R (?c, (\<lambda>n. Starting)(0 := Serving))" by (rule fleet_reach.step [OF s], rule fleet_step.boots) (use b in simp_all)
  have "?R (?c\<lparr>c_reqs := c_reqs ?c @ [new_req 0 ''k'' (sample_msg ''7'')]\<rparr>, (\<lambda>n. Starting)(0 := Serving))"
    by (rule fleet_reach.step [OF r fleet_step.arrives]) (simp_all add: sample_fits(1))
  moreover have "?c\<lparr>c_reqs := c_reqs ?c @ [new_req 0 ''k'' (sample_msg ''7'')]\<rparr> = sample_fleet" by (simp add: sample_fleet_def)
  ultimately show ?thesis by simp
qed

lemma sample_fleet_world: "node_world sample_fleet 0 = sample_world"
proof -
  have "NewGenerator 1 = \<lparr>workerID = 1, sequence = 0, lastStamp = 0\<rparr>"
    using workerID_NewGenerator [of 1] by (simp add: NewGenerator_def Let_def split: if_splits)
  then show ?thesis by (simp add: node_world_def sample_fleet_def sample_cluster_def sample_world_def sample_env_worker)
qed

text \<open>The sample call has stored its message and not yet published it.\<close>

definition half_sent :: send_req where
  "half_sent = \<lparr>q_node = 0, q_key = ''k'', q_msg = sent_msg, q_pc = AtPublish\<rparr>"

definition half_world :: "(ref_server, ref_redis) world" where
  "half_world = after_send\<lparr>w_redis := (w_redis after_send)\<lparr>rr_sent := []\<rparr>\<rparr>"

definition half_fleet :: "(ref_server, ref_redis) cluster" where
  "half_fleet = (put_world 0 half_world sample_fleet)\<lparr>c_reqs := [half_sent]\<rparr>"

lemma half_run: "send_run sample_deps 5 (new_req 0 ''k'' (sample_msg ''7''), sample_world) = Some (half_sent, half_world)"
proof -
  have g: "idempotency_guard sample_deps ''k'' sample_world =
      (None, sample_world\<lparr>w_redis := \<lparr>rr_keys = [(lock_name ''k'', lock_ttl)], rr_sent = [], rr_faults = []\<rparr>\<rparr>)"
    by (simp add: guard_key sample_defs)
  show ?thesis
    by (simp add: send_run_unfold(2) send_step_def new_req_def g)
      (simp add: send_run_unfold(3-) numeral_2_eq_2 send_step_def IsMember_def count_positive_def QueryRowScan_def sample_defs sample_msg_def member_matches_def same_def
        next_id_def time_now_def sample_next sample_now has_conversation_def insert_stmt_def sent_msg_def after_send_def
        half_sent_def half_world_def)
qed

lemma half_fleet_reach:
  "fleet_reach sample_deps (\<lambda>n. sample_clock) plain_conf ref_tables (\<lambda>r. map_of (rr_keys r)) rr_sent sample_envs
     (half_fleet, (\<lambda>n. Starting)(0 := Serving))"
  using fleet_runs [OF sample_fleet_reach, where i = 0 and n = 0 and k = 5 and q' = half_sent and w' = half_world] half_run
  by (simp add: sample_node sample_fleet_world) (simp add: sample_fleet_def half_fleet_def new_req_def)

section \<open>Properties\<close>

text \<open>
  (C6) A deployment with one \<^verbatim>\<open>WORKER_ID\<close> per node never gives two messages the same identifier, restarts included: suppose that the
  processes that serve calls are started with decimal numbers from 0 to 1023 in that variable, that two processes have different
  numbers or one of them read its clock only at earlier milliseconds than the other (it was replaced by the other), and that no clock has gone
  back or left its range. Then the identifiers drawn by all calls on all nodes, in every interleaving, are distinct.
\<close>

theorem fleet_ids_distinct:
  assumes "fleet_reach E clk cf tabs keys sent envs (c, ph)"
    and "\<forall>n. clock_in_range (clk n) 0 (c_pos c n) \<and> clock_monotone (clk n) 0 (c_pos c n)"
    and "\<forall>q\<in>set (c_reqs c). envs (q_node q) ''WORKER_ID'' = Some (dec (w (q_node q))) \<and> w (q_node q) \<le> 1023"
    and "\<forall>q\<in>set (c_reqs c). \<forall>q'\<in>set (c_reqs c). let n = q_node q; n' = q_node q' in
      n = n' \<or> w n \<noteq> w n' \<or> before (clk n) (c_pos c n) (clk n') (c_pos c n') \<or> before (clk n') (c_pos c n') (clk n) (c_pos c n)"
  shows "distinct (map (msg_ID \<circ> q_msg) (filter (\<lambda>q. drawn (q_pc q)) (c_reqs c)))"
proof (rule cluster_ids)
  show "cluster_reach E clk cf tabs keys sent (\<lambda>n. WorkerID (Load (envs n))) c" using fl.reach_sim [OF assms(1)] by simp
  show "\<forall>n. clock_in_range (clk n) 0 (c_pos c n) \<and> clock_monotone (clk n) 0 (c_pos c n)" by (rule assms(2))
  have w: "WorkerID (Load (envs (q_node q))) \<le> 1023" "unat (WorkerID (Load (envs (q_node q)))) = w (q_node q)"
    if "q \<in> set (c_reqs c)" for q
    using worker_from_env [of "envs (q_node q)" "w (q_node q)"] assms(3) that by simp_all
  then show "workers_apart clk (\<lambda>n. WorkerID (Load (envs n))) c"
    using assms(4) unfolding workers_apart_def Let_def by metis
qed

theorem fleet_ids_distinct_witness:
  "distinct (map (msg_ID \<circ> q_msg) (filter (\<lambda>q. drawn (q_pc q)) (c_reqs half_fleet))) \<and> map (drawn \<circ> q_pc) (c_reqs half_fleet) = [True]"
proof -
  have "c_pos half_fleet n = (if n = 0 then 2 else 0)" for n
    by (simp add: half_fleet_def half_world_def put_world_def after_send_def sample_fleet_def sample_cluster_def)
  then have "\<forall>n. clock_in_range sample_clock 0 (c_pos half_fleet n) \<and> clock_monotone sample_clock 0 (c_pos half_fleet n)"
    using sample_clock_ok by (auto intro: clock_range_subset clock_monotone_subset)
  then have "distinct (map (msg_ID \<circ> q_msg) (filter (\<lambda>q. drawn (q_pc q)) (c_reqs half_fleet)))"
    by (rule fleet_ids_distinct [OF half_fleet_reach, where w = Suc])
      (simp_all add: half_fleet_def half_sent_def sample_envs_def)
  then show ?thesis by (simp add: half_fleet_def half_sent_def)
qed

text \<open>
  (C37) A signal drops the calls in progress: from every state in which a node serves and a call of it has not returned, the signal can end
  the process with status 0 while the call is where it was, and then the call never goes on, whatever happens
  later: no response is sent, and a message that was stored but not yet published is never published by it.
\<close>

theorem signal_drops_calls:
  assumes "fleet_reach E clk cf tabs keys sent envs (c, ph)" and "ph n = Serving"
    and "i < length (c_reqs c)" and "q_node (c_reqs c ! i) = n" and "pc_result (q_pc (c_reqs c ! i)) = None"
  shows "\<exists>ph'. (fleet_step E clk cf tabs keys sent envs)\<^sup>*\<^sup>* (c, ph) (c, ph') \<and> ph' n = Exited 0 \<and>
    (\<forall>c'' ph''. (fleet_step E clk cf tabs keys sent envs)\<^sup>*\<^sup>* (c, ph') (c'', ph'') \<longrightarrow>
       c_reqs c'' ! i = c_reqs c ! i \<and> pc_result (q_pc (c_reqs c'' ! i)) = None)"
proof -
  let ?S = "fleet_step E clk cf tabs keys sent envs" and ?ph = "ph(n := Closing, n := Exited 0)"
  have "?S (c, ph) (c, ph(n := Closing))" using assms(2) by (rule fleet_step.signal)
  moreover have "?S (c, ph(n := Closing)) (c, ?ph)" by (rule fleet_step.exits) simp
  ultimately have "?S\<^sup>*\<^sup>* (c, ph) (c, ?ph)" by (meson converse_rtranclp_into_rtranclp rtranclp.rtrancl_refl)
  moreover have "c_reqs c'' ! i = c_reqs c ! i \<and> pc_result (q_pc (c_reqs c'' ! i)) = None"
    if "?S\<^sup>*\<^sup>* (c, ?ph) (c'', ph'')" for c'' ph''
    using exited_steps [OF that, of n 0 i] assms(3-5) by simp
  ultimately show ?thesis by (intro exI [of _ ?ph]) (simp add: assms(5))
qed

theorem signal_drops_calls_witness:
  "stored (ref_tables (c_db half_fleet)) sent_msg \<and> rr_sent (c_redis half_fleet) = [] \<and>
   (\<exists>ph'. ph' 0 = Exited 0 \<and>
      (fleet_step sample_deps (\<lambda>n. sample_clock) plain_conf ref_tables (\<lambda>r. map_of (rr_keys r)) rr_sent sample_envs)\<^sup>*\<^sup>*
        (half_fleet, (\<lambda>n. Starting)(0 := Serving)) (half_fleet, ph'))"
proof -
  have "stored (ref_tables (c_db half_fleet)) sent_msg" "rr_sent (c_redis half_fleet) = []"
    by (simp_all add: half_fleet_def half_world_def put_world_def after_send_def stored_def sent_msg_def sample_msg_def)
  moreover have i: "0 < length (c_reqs half_fleet)" "q_node (c_reqs half_fleet ! 0) = 0" "pc_result (q_pc (c_reqs half_fleet ! 0)) = None"
    by (simp_all add: half_fleet_def half_sent_def)
  obtain ph' where "(fleet_step sample_deps (\<lambda>n. sample_clock) plain_conf ref_tables (\<lambda>r. map_of (rr_keys r)) rr_sent sample_envs)\<^sup>*\<^sup>*
      (half_fleet, (\<lambda>n. Starting)(0 := Serving)) (half_fleet, ph')" "ph' 0 = Exited 0"
    using signal_drops_calls [OF half_fleet_reach _ i] by (elim exE conjE meta_impE) (simp, rule that)
  ultimately show ?thesis by (intro exI conjI)
qed

end
