(* ===== verification/Hub.thy ===== *)
theory Hub
  imports TeamChat_Prelude "HOL-Library.AList"
begin

text \<open>
  \<^verbatim>\<open>hub.go\<close>: the registry of the clients connected to one WebSocket worker. A client is known by its
  address, a number; the map from users to clients is an association list with unique keys. Each
  method holds the mutex for its whole body, so a call is one step. The locale \<open>registry\<close> states what
  the sessions rely on: a lookup after each operation. The hub is an interpretation of it.
\<close>

type_synonym cref = nat
type_synonym hub = "(string \<times> cref) list"

section \<open>The methods\<close>

definition NewHub :: hub where
  "NewHub = []"

definition Register :: "string \<Rightarrow> cref \<Rightarrow> hub \<Rightarrow> hub" where
  "Register userID c h = AList.update userID c h"

definition Unregister :: "string \<Rightarrow> cref \<Rightarrow> hub \<Rightarrow> hub" where
  "Unregister userID c h =
     (case map_of h userID of
        Some existing \<Rightarrow> if existing = c then AList.delete userID h else h
      | None \<Rightarrow> h)"

definition ActiveCount :: "hub \<Rightarrow> nat" where
  "ActiveCount h = length h"

text \<open>
  \<^verbatim>\<open>Shutdown\<close> closes the connection of each entry and deletes the entry, in the order of the map
  iteration: the first result is the clients whose connections are closed.
\<close>

fun shutdown_loop :: "hub \<Rightarrow> cref list \<Rightarrow> hub \<Rightarrow> cref list \<times> hub" where
  "shutdown_loop [] closed h = (closed, h)"
| "shutdown_loop ((userID, c) # es) closed h = shutdown_loop es (closed @ [c]) (AList.delete userID h)"

definition Shutdown :: "hub \<Rightarrow> cref list \<times> hub" where
  "Shutdown h = shutdown_loop h [] h"

section \<open>The contract\<close>

locale registry =
  fixes lookup :: "'h \<Rightarrow> string \<rightharpoonup> cref"
    and ok :: "'h \<Rightarrow> bool"
    and new :: 'h
    and reg :: "string \<Rightarrow> cref \<Rightarrow> 'h \<Rightarrow> 'h"
    and unreg :: "string \<Rightarrow> cref \<Rightarrow> 'h \<Rightarrow> 'h"
    and shut :: "'h \<Rightarrow> cref list \<times> 'h"
  assumes new_ok: "ok new" and lookup_new: "lookup new = Map.empty"
    and reg_ok: "ok h \<Longrightarrow> ok (reg u c h)"
    and lookup_reg: "ok h \<Longrightarrow> lookup (reg u c h) = (lookup h)(u \<mapsto> c)"
    and unreg_ok: "ok h \<Longrightarrow> ok (unreg u c h)"
    and lookup_unreg: "ok h \<Longrightarrow> lookup (unreg u c h) = (if lookup h u = Some c then (lookup h)(u := None) else lookup h)"
    and shut_ok: "ok h \<Longrightarrow> shut h = (cs, h') \<Longrightarrow> ok h'"
    and lookup_shut: "ok h \<Longrightarrow> shut h = (cs, h') \<Longrightarrow> lookup h' = Map.empty \<and> set cs = ran (lookup h)"
begin

lemma stale_unreg: "ok h \<Longrightarrow> c \<noteq> c' \<Longrightarrow> lookup (unreg u c (reg u c' h)) = lookup (reg u c' h)"
  by (simp add: lookup_unreg reg_ok lookup_reg)

lemma reg_unreg: "ok h \<Longrightarrow> lookup h u = None \<Longrightarrow> lookup (unreg u c (reg u c h)) = lookup h"
  by (auto simp: lookup_unreg reg_ok lookup_reg fun_eq_iff)

lemma unreg_other: "ok h \<Longrightarrow> u \<noteq> u' \<Longrightarrow> lookup (unreg u c h) u' = lookup h u'"
  by (simp add: lookup_unreg)

end

definition hub_ok :: "hub \<Rightarrow> bool" where
  "hub_ok h \<longleftrightarrow> distinct (map fst h)"

lemma shutdown_loop_closed: "fst (shutdown_loop es closed h) = closed @ map snd es"
  by (induction es closed h rule: shutdown_loop.induct) auto

lemma shutdown_loop_hub: "map_of (snd (shutdown_loop es closed h)) = (map_of h) |` (- fst ` set es)"
  by (induction es closed h rule: shutdown_loop.induct)
    (auto simp: delete_conv' fun_eq_iff restrict_map_def)

lemma shutdown_loop_ok: "hub_ok h \<Longrightarrow> hub_ok (snd (shutdown_loop es closed h))"
  by (induction es closed h rule: shutdown_loop.induct) (auto simp: hub_ok_def distinct_delete)

interpretation hb: registry map_of hub_ok NewHub Register Unregister Shutdown
proof
  fix h h' :: hub and u c cs
  show "hub_ok NewHub" "map_of NewHub = Map.empty" by (simp_all add: NewHub_def hub_ok_def)
  show "hub_ok h \<Longrightarrow> hub_ok (Register u c h)" by (simp add: hub_ok_def Register_def distinct_update)
  show "hub_ok h \<Longrightarrow> map_of (Register u c h) = (map_of h)(u \<mapsto> c)" by (simp add: Register_def update_conv')
  show "hub_ok h \<Longrightarrow> hub_ok (Unregister u c h)"
    by (simp add: hub_ok_def Unregister_def distinct_delete split: option.split)
  show "hub_ok h \<Longrightarrow> map_of (Unregister u c h) = (if map_of h u = Some c then (map_of h)(u := None) else map_of h)"
    by (simp add: Unregister_def delete_conv' split: option.split)
  show "hub_ok h \<Longrightarrow> Shutdown h = (cs, h') \<Longrightarrow> hub_ok h'"
    using shutdown_loop_ok [of h h "[]"] by (simp add: Shutdown_def)
  show "hub_ok h \<Longrightarrow> Shutdown h = (cs, h') \<Longrightarrow> map_of h' = Map.empty \<and> set cs = ran (map_of h)"
    using shutdown_loop_hub [of h "[]" h] shutdown_loop_closed [of h "[]" h]
    by (auto simp: Shutdown_def hub_ok_def ran_distinct restrict_map_def fun_eq_iff map_of_eq_None_iff)
qed

section \<open>Properties\<close>

text \<open>
  A reconnection is safe from the old session's clean-up: when a user registers a new client and
  the old one unregisters afterwards, the new client stays registered, and nobody else is affected.
\<close>

lemma reconnect_survives:
  assumes "hub_ok h" and "old \<noteq> new"
  shows "map_of (Unregister u old (Register u new h)) = (map_of h)(u \<mapsto> new)"
  using hb.stale_unreg [OF assms] hb.lookup_reg [OF assms(1)] by simp

text \<open>
  \<^verbatim>\<open>Shutdown\<close> empties the registry and closes exactly the registered clients, each once (a client
  registered under two names apart, which never happens).
\<close>

lemma Shutdown_complete:
  assumes "hub_ok h" and "Shutdown h = (closed, h')"
  shows "ActiveCount h' = 0 \<and> closed = map snd h \<and> set closed = ran (map_of h)"
proof -
  have "map_of h' = Map.empty" "set closed = ran (map_of h)" using hb.lookup_shut [OF assms] by simp_all
  moreover have "closed = map snd h"
    using shutdown_loop_closed [of h "[]" h] assms(2) by (simp add: Shutdown_def)
  ultimately show ?thesis by (cases h') (auto simp: ActiveCount_def fun_eq_iff split: if_splits)
qed

end
