(* ===== verification/Ws_Session.thy ===== *)
theory Ws_Session
  imports Repository Json Hub Transition_Systems
begin

text \<open>
  The WebSocket worker: \<^verbatim>\<open>ws_handler.go\<close> and \<^verbatim>\<open>client.go\<close>. A worker is the sessions opened so far, by
  address, and the hub. A session has a connection, the buffer \<^verbatim>\<open>Send\<close>, a context and its goroutines:
  the read pump, the write pump and one listener for each channel. Each turn of a goroutine's loop and
  each deferred action is one step of the relation \<open>ws_step\<close>, so all interleavings are covered. What
  the network and Redis do is open: a read or a write may fail at any time, a listener may
  receive any payload. When the deadlines make a read or a write fail and when the ticker fires is the subject of
  \<open>Heartbeat\<close>.
\<close>

section \<open>Sessions\<close>

definition sendBuffer :: nat where
  "sendBuffer = 256"

datatype frame = JsonFrame message | PingFrame | CloseFrame

text \<open>The pumps: in the loop, then the deferred actions one by one.\<close>

datatype read_state = R_loop | R_cancel | R_unregister | R_close | R_done
datatype write_state = W_loop | W_cancel | W_close | W_done

record session =
  UserID :: string
  conn_open :: bool
  Send :: "message list"
  send_closed :: bool
  cancelled :: bool
  reader :: read_state
  writer :: write_state
  listeners :: "string list"
  frames :: "frame list"

record worker =
  sessions :: "session list"
  hub :: hub

definition new_session :: "string \<Rightarrow> string list \<Rightarrow> session" where
  "new_session u channelIDs = \<lparr>UserID = u, conn_open = True, Send = [], send_closed = False, cancelled = False, reader = R_loop,
     writer = W_loop, listeners = channelIDs, frames = []\<rparr>"

section \<open>ServeWS\<close>

text \<open>
  The end of \<^verbatim>\<open>ServeWS\<close>: the client is registered and its goroutines are started, one listener per
  channel. A connection whose channels cannot be read is closed and leaves no session.
\<close>

definition start_session :: "string \<Rightarrow> string list \<Rightarrow> worker \<Rightarrow> worker" where
  "start_session u channelIDs wk =
     wk\<lparr>sessions := sessions wk @ [new_session u channelIDs], hub := Register u (length (sessions wk)) (hub wk)\<rparr>"

datatype serve_result = MissingUserID | UpgradeFailed | FetchFailed go_error | Connected

definition ServeWS :: "'d sql_db \<Rightarrow> string \<Rightarrow> bool \<Rightarrow> worker \<Rightarrow> 'd \<Rightarrow> serve_result \<times> worker \<times> 'd" where
  "ServeWS db userID upgraded wk d =
     (if userID = [] then (MissingUserID, wk, d)
      else if \<not> upgraded then (UpgradeFailed, wk, d)
      else (case GetChannelIDsByUser db userID d of
              (Inl err, d) \<Rightarrow> (FetchFailed err, wk, d)
            | (Inr channelIDs, d) \<Rightarrow> (Connected, start_session userID channelIDs wk, d)))"

text \<open>
  The same in small steps, for requests that are handled while others are: the parameter and the upgrade, then the query, then the end. The
  start of the goroutines is one step with the registration, since a goroutine that has been started need not have run yet.
\<close>

datatype conn_pc = AtUpgrade | AtFetch | AtRegister "string list" | ConnDone serve_result

record conn_req =
  cn_user :: string
  cn_upgraded :: bool
  cn_pc :: conn_pc

definition new_conn :: "string \<Rightarrow> bool \<Rightarrow> conn_req" where
  "new_conn u upgraded = \<lparr>cn_user = u, cn_upgraded = upgraded, cn_pc = AtUpgrade\<rparr>"

definition conn_step :: "'d sql_db \<Rightarrow> conn_req \<times> worker \<times> 'd \<Rightarrow> conn_req \<times> worker \<times> 'd" where
  "conn_step db = (\<lambda>(q, wk, d).
     case cn_pc q of
       AtUpgrade \<Rightarrow>
         (q\<lparr>cn_pc := (if cn_user q = [] then ConnDone MissingUserID
                     else if \<not> cn_upgraded q then ConnDone UpgradeFailed else AtFetch)\<rparr>, wk, d)
     | AtFetch \<Rightarrow>
         (case GetChannelIDsByUser db (cn_user q) d of
            (Inl err, d) \<Rightarrow> (q\<lparr>cn_pc := ConnDone (FetchFailed err)\<rparr>, wk, d)
          | (Inr channelIDs, d) \<Rightarrow> (q\<lparr>cn_pc := AtRegister channelIDs\<rparr>, wk, d))
     | AtRegister channelIDs \<Rightarrow> (q\<lparr>cn_pc := ConnDone Connected\<rparr>, start_session (cn_user q) channelIDs wk, d)
     | ConnDone r \<Rightarrow> (q, wk, d))"

text \<open>A request that is handled without interruption is \<open>ServeWS\<close>.\<close>

lemma conn_steps_ServeWS:
  assumes "ServeWS db u upgraded wk d = (r, wk', d')"
  shows "(conn_step db ^^ 3) (new_conn u upgraded, wk, d) = ((new_conn u upgraded)\<lparr>cn_pc := ConnDone r\<rparr>, wk', d')"
  using assms
  by (auto simp: numeral_3_eq_3 conn_step_def new_conn_def ServeWS_def split: if_splits prod.splits sum.splits)

lemma conn_step_cases:
  assumes "conn_step db (q, wk, d) = (q', wk', d')"
  obtains (moved) "wk' = wk" "d' = d" "cn_user q' = cn_user q" "\<And>ids. cn_pc q' \<noteq> AtRegister ids"
  | (failed) err where "GetChannelIDsByUser db (cn_user q) d = (Inl err, d')" "wk' = wk" "cn_user q' = cn_user q" "\<And>ids. cn_pc q' \<noteq> AtRegister ids"
  | (fetched) ids where "GetChannelIDsByUser db (cn_user q) d = (Inr ids, d')" "wk' = wk" "q' = q\<lparr>cn_pc := AtRegister ids\<rparr>"
  | (started) ids where "cn_pc q = AtRegister ids" "wk' = start_session (cn_user q) ids wk" "d' = d" "q' = q\<lparr>cn_pc := ConnDone Connected\<rparr>"
proof (cases "cn_pc q")
  case AtUpgrade
  then show ?thesis using assms by (intro moved) (auto simp: conn_step_def split: if_splits)
next
  case AtFetch
  obtain r d1 where g: "GetChannelIDsByUser db (cn_user q) d = (r, d1)" by force
  show ?thesis
  proof (cases r)
    case (Inl err)
    then show ?thesis using assms AtFetch g by (intro failed) (auto simp: conn_step_def)
  next
    case (Inr ids)
    then show ?thesis using assms AtFetch g by (intro fetched) (auto simp: conn_step_def)
  qed
next
  case (AtRegister ids)
  then show ?thesis using assms by (intro started) (auto simp: conn_step_def)
next
  case (ConnDone r)
  then show ?thesis using assms by (intro moved) (auto simp: conn_step_def)
qed

section \<open>The goroutines\<close>

text \<open>
  The body of the loop of \<^verbatim>\<open>listenToRedis\<close> for one payload (\<open>None\<close> when it is not JSON): what cannot be
  decoded is skipped, so are the user's own messages, and a message that finds the buffer full is
  dropped.
\<close>

definition forward :: "time_json \<Rightarrow> string \<Rightarrow> json option \<Rightarrow> message list \<Rightarrow> message list" where
  "forward tj userID payload buf =
     (case Option.bind payload (Unmarshal_message tj) of
        None \<Rightarrow> buf
      | Some domainMsg \<Rightarrow>
          if SenderID domainMsg = userID then buf
          else if length buf < sendBuffer then buf @ [domainMsg]
          else buf)"

definition listenToRedis :: "time_json \<Rightarrow> json option \<Rightarrow> session \<Rightarrow> session" where
  "listenToRedis tj payload s = s\<lparr>Send := forward tj (UserID s) payload (Send s)\<rparr>"

text \<open>
  One turn of the write pump: it takes a message from the buffer, or a tick makes it ping; \<open>ok\<close> is
  what the write returns. A write on a closed connection fails. When the channel is closed and empty, the pump writes a close frame and
  ends; when it is open and empty, the pump waits.
\<close>

definition write_message :: "bool \<Rightarrow> session \<Rightarrow> session" where
  "write_message ok s =
     (case Send s of
        [] \<Rightarrow> if send_closed s
              then s\<lparr>frames := frames s @ (if ok \<and> conn_open s then [CloseFrame] else []), writer := W_cancel\<rparr>
              else s
      | m # ms \<Rightarrow> if ok \<and> conn_open s then s\<lparr>Send := ms, frames := frames s @ [JsonFrame m]\<rparr>
                  else s\<lparr>Send := ms, writer := W_cancel\<rparr>)"

definition write_ping :: "bool \<Rightarrow> session \<Rightarrow> session" where
  "write_ping ok s = (if ok \<and> conn_open s then s\<lparr>frames := frames s @ [PingFrame]\<rparr> else s\<lparr>writer := W_cancel\<rparr>)"

fun write_exit :: "write_state \<Rightarrow> session \<Rightarrow> session" where
  "write_exit W_cancel s = s\<lparr>cancelled := True, writer := W_close\<rparr>"
| "write_exit W_close s = s\<lparr>conn_open := False, writer := W_done\<rparr>"
| "write_exit _ s = s"

text \<open>One turn of the read pump: the frames of the client are ignored; a read on a closed connection fails.\<close>

definition read_message :: "bool \<Rightarrow> session \<Rightarrow> session" where
  "read_message ok s = (if ok \<and> conn_open s then s else s\<lparr>reader := R_cancel\<rparr>)"

text \<open>The deferred actions of the read pump; the second one is a call of the hub.\<close>

fun read_exit :: "read_state \<Rightarrow> session \<Rightarrow> session" where
  "read_exit R_cancel s = s\<lparr>cancelled := True, reader := R_unregister\<rparr>"
| "read_exit R_unregister s = s\<lparr>reader := R_close\<rparr>"
| "read_exit R_close s = s\<lparr>conn_open := False, reader := R_done\<rparr>"
| "read_exit _ s = s"

definition read_exit_hub :: "cref \<Rightarrow> session \<Rightarrow> hub \<Rightarrow> hub" where
  "read_exit_hub i s h = (if reader s = R_unregister then Unregister (UserID s) i h else h)"

text \<open>A listener returns.\<close>

definition listener_exit :: "string \<Rightarrow> session \<Rightarrow> session" where
  "listener_exit c s = s\<lparr>listeners := remove1 c (listeners s)\<rparr>"

definition on_session :: "cref \<Rightarrow> (session \<Rightarrow> session) \<Rightarrow> worker \<Rightarrow> worker" where
  "on_session i f wk = wk\<lparr>sessions := (sessions wk)[i := f (sessions wk ! i)]\<rparr>"

definition close_conns :: "cref list \<Rightarrow> session list \<Rightarrow> session list" where
  "close_conns cs ss = fold (\<lambda>i ss. ss[i := (ss ! i)\<lparr>conn_open := False\<rparr>]) cs ss"

definition worker_shutdown :: "worker \<Rightarrow> worker" where
  "worker_shutdown wk =
     (let (closed, h) = Shutdown (hub wk) in wk\<lparr>sessions := close_conns closed (sessions wk), hub := h\<rparr>)"

section \<open>The worker\<close>

text \<open>
  The turns in which nothing comes in from Redis, then all turns. A listener ends when the context is cancelled, or when its Redis subscription
  is closed, which may happen at any time.
\<close>

inductive pump_step :: "worker \<Rightarrow> worker \<Rightarrow> bool" where
  listener_done: "i < length (sessions wk) \<Longrightarrow> c \<in> set (listeners (sessions wk ! i)) \<Longrightarrow> cancelled (sessions wk ! i) \<Longrightarrow>
    pump_step wk (on_session i (listener_exit c) wk)"
| subscription_closed: "i < length (sessions wk) \<Longrightarrow> c \<in> set (listeners (sessions wk ! i)) \<Longrightarrow>
    pump_step wk (on_session i (listener_exit c) wk)"
| written: "i < length (sessions wk) \<Longrightarrow> writer (sessions wk ! i) = W_loop \<Longrightarrow>
    f = write_message ok \<or> f = write_ping ok \<Longrightarrow> pump_step wk (on_session i f wk)"
| write_defer: "i < length (sessions wk) \<Longrightarrow> pump_step wk (on_session i (\<lambda>s. write_exit (writer s) s) wk)"
| received: "i < length (sessions wk) \<Longrightarrow> reader (sessions wk ! i) = R_loop \<Longrightarrow>
    pump_step wk (on_session i (read_message ok) wk)"
| read_defer: "i < length (sessions wk) \<Longrightarrow>
    pump_step wk
      (on_session i (\<lambda>s. read_exit (reader s) s) (wk\<lparr>hub := read_exit_hub i (sessions wk ! i) (hub wk)\<rparr>))"

inductive goroutine_step :: "time_json \<Rightarrow> worker \<Rightarrow> worker \<Rightarrow> bool" for tj where
  redis_message: "i < length (sessions wk) \<Longrightarrow> c \<in> set (listeners (sessions wk ! i)) \<Longrightarrow>
    goroutine_step tj wk (on_session i (listenToRedis tj payload) wk)"
| pump: "pump_step wk wk' \<Longrightarrow> goroutine_step tj wk wk'"

inductive ws_step :: "time_json \<Rightarrow> worker \<Rightarrow> worker \<Rightarrow> bool" for tj where
  connect: "ws_step tj wk (start_session u channelIDs wk)"
| goroutine: "goroutine_step tj wk wk' \<Longrightarrow> ws_step tj wk wk'"
| shutdown: "ws_step tj wk (worker_shutdown wk)"

inductive ws_reach :: "time_json \<Rightarrow> worker \<Rightarrow> bool" for tj where
  start: "ws_reach tj \<lparr>sessions = [], hub = NewHub\<rparr>"
| step: "ws_reach tj wk \<Longrightarrow> ws_step tj wk wk' \<Longrightarrow> ws_reach tj wk'"

interpretation ws: transition_system "\<lambda>wk. wk = \<lparr>sessions = [], hub = NewHub\<rparr>" "ws_step tj" "ws_reach tj" for tj
proof
  show "P s" if "ws_reach tj s" "\<And>s. s = \<lparr>sessions = [], hub = NewHub\<rparr> \<Longrightarrow> P s" "\<And>s t. ws_reach tj s \<Longrightarrow> P s \<Longrightarrow> ws_step tj s t \<Longrightarrow> P t"
    for P s
    by (rule ws_reach.induct [OF that(1)]) (rule that(2), simp, erule (2) that(3))
qed (auto intro: ws_reach.intros)

section \<open>Invariants\<close>

fun foreign_frame :: "string \<Rightarrow> frame \<Rightarrow> bool" where
  "foreign_frame u (JsonFrame m) \<longleftrightarrow> SenderID m \<noteq> u"
| "foreign_frame u PingFrame \<longleftrightarrow> True"
| "foreign_frame u CloseFrame \<longleftrightarrow> True"

text \<open>
  A session: the buffer is bounded, nothing of the user's own is in it or was sent, its channel is not closed and no close frame
  was sent, and a pump that has done a deferred action has left its effect.
\<close>

definition session_ok :: "session \<Rightarrow> bool" where
  "session_ok s \<longleftrightarrow>
     length (Send s) \<le> sendBuffer \<and>
     list_all (\<lambda>m. SenderID m \<noteq> UserID s) (Send s) \<and>
     list_all (foreign_frame (UserID s)) (frames s) \<and>
     \<not> send_closed s \<and> CloseFrame \<notin> set (frames s) \<and>
     (reader s \<in> {R_unregister, R_close, R_done} \<or> writer s \<in> {W_close, W_done} \<longrightarrow> cancelled s) \<and>
     (reader s = R_done \<or> writer s = W_done \<longrightarrow> \<not> conn_open s)"

text \<open>The hub: every entry is a session of that user whose read pump has not unregistered it.\<close>

definition hub_inv :: "worker \<Rightarrow> bool" where
  "hub_inv wk \<longleftrightarrow> hub_ok (hub wk) \<and>
     (\<forall>u i. map_of (hub wk) u = Some i \<longrightarrow> i < length (sessions wk) \<and> UserID (sessions wk ! i) = u \<and>
        reader (sessions wk ! i) \<notin> {R_close, R_done})"

lemma close_conns_length [simp]: "length (close_conns cs ss) = length ss"
  by (induction cs arbitrary: ss) (simp_all add: close_conns_def)

lemma close_conns_nth:
  "i < length ss \<Longrightarrow> close_conns cs ss ! i = (if i \<in> set cs then (ss ! i)\<lparr>conn_open := False\<rparr> else ss ! i)"
proof (induction cs arbitrary: ss)
  case (Cons a cs)
  have "close_conns (a # cs) ss = close_conns cs (ss[a := (ss ! a)\<lparr>conn_open := False\<rparr>])"
    by (simp add: close_conns_def)
  with Cons show ?case by (cases "a = i") auto
qed (simp add: close_conns_def)

lemma on_session_simps [simp]:
  "length (sessions (on_session i f wk)) = length (sessions wk)" "hub (on_session i f wk) = hub wk"
  by (simp_all add: on_session_def)

lemma on_session_nth:
  "j < length (sessions wk) \<Longrightarrow> sessions (on_session i f wk) ! j = (if i = j then f (sessions wk ! j) else sessions wk ! j)"
  by (simp add: on_session_def nth_list_update)

lemma forward_bounded: "length buf \<le> sendBuffer \<Longrightarrow> length (forward tj u p buf) \<le> sendBuffer"
  by (auto simp: forward_def split: option.split)

lemma forward_no_echo:
  "list_all (\<lambda>m. SenderID m \<noteq> u) buf \<Longrightarrow> list_all (\<lambda>m. SenderID m \<noteq> u) (forward tj u p buf)"
  by (auto simp: forward_def split: option.split)

lemma session_ok_new: "session_ok (new_session u cs)"
  by (simp add: session_ok_def new_session_def)

lemma session_ok_ops:
  assumes "session_ok s"
  shows "session_ok (listenToRedis tj p s)"
    and "session_ok (listener_exit c s)"
    and "writer s = W_loop \<Longrightarrow> session_ok (write_message ok s)"
    and "writer s = W_loop \<Longrightarrow> session_ok (write_ping ok s)"
    and "session_ok (write_exit (writer s) s)"
    and "reader s = R_loop \<Longrightarrow> session_ok (read_message ok s)"
    and "session_ok (read_exit (reader s) s)"
    and "session_ok (s\<lparr>conn_open := False\<rparr>)"
proof -
  note ok = assms [unfolded session_ok_def]
  show "session_ok (listenToRedis tj p s)"
    using ok by (simp add: session_ok_def listenToRedis_def forward_bounded forward_no_echo)
  show "session_ok (listener_exit c s)" using ok by (simp add: session_ok_def listener_exit_def)
  show "writer s = W_loop \<Longrightarrow> session_ok (write_message ok s)"
    using ok by (auto simp: session_ok_def write_message_def split: list.splits)
  show "writer s = W_loop \<Longrightarrow> session_ok (write_ping ok s)"
    using ok by (auto simp: session_ok_def write_ping_def)
  show "session_ok (write_exit (writer s) s)"
    using ok by (cases "writer s") (auto simp: session_ok_def)
  show "reader s = R_loop \<Longrightarrow> session_ok (read_message ok s)"
    using ok by (auto simp: session_ok_def read_message_def)
  show "session_ok (read_exit (reader s) s)"
    using ok by (cases "reader s") (auto simp: session_ok_def)
  show "session_ok (s\<lparr>conn_open := False\<rparr>)" using ok by (simp add: session_ok_def)
qed

definition ws_inv :: "worker \<Rightarrow> bool" where
  "ws_inv wk \<longleftrightarrow> (\<forall>i<length (sessions wk). session_ok (sessions wk ! i)) \<and> hub_inv wk"

lemma hub_inv_on_session:
  assumes "hub_inv wk" and "i < length (sessions wk)" and "UserID (f (sessions wk ! i)) = UserID (sessions wk ! i)"
    and "reader (f (sessions wk ! i)) \<in> {R_close, R_done} \<Longrightarrow> reader (sessions wk ! i) \<in> {R_close, R_done}"
  shows "hub_inv (on_session i f wk)"
  using assms unfolding hub_inv_def by (auto simp: on_session_nth)

lemma keeps_reader [simp]:
  "UserID (listenToRedis tj p s) = UserID s" "reader (listenToRedis tj p s) = reader s"
  "UserID (write_message ok s) = UserID s" "reader (write_message ok s) = reader s"
  "UserID (write_ping ok s) = UserID s" "reader (write_ping ok s) = reader s"
  "UserID (read_message ok s) = UserID s"
  by (simp_all add: listenToRedis_def write_message_def write_ping_def read_message_def split: list.split)

lemma listener_exit_keeps [simp]:
  "UserID (listener_exit c s) = UserID s" "reader (listener_exit c s) = reader s" "writer (listener_exit c s) = writer s"
  "conn_open (listener_exit c s) = conn_open s" "cancelled (listener_exit c s) = cancelled s"
  "frames (listener_exit c s) = frames s" "Send (listener_exit c s) = Send s" "listeners (listener_exit c s) = remove1 c (listeners s)"
  by (simp_all add: listener_exit_def)

lemma keeps_exit [simp]: "UserID (write_exit k s) = UserID s" "reader (write_exit k s) = reader s"
  by (cases k; simp)+

lemma keeps_read_exit [simp]: "UserID (read_exit k s) = UserID s"
  by (cases k) simp_all

lemma exit_keeps [simp]:
  "frames (write_exit k s) = frames s" "Send (write_exit k s) = Send s"
  "\<not> conn_open s \<Longrightarrow> \<not> conn_open (write_exit k s)"
  by (cases k; simp)+

lemma read_exit_keeps [simp]:
  "frames (read_exit k s) = frames s" "Send (read_exit k s) = Send s"
  "\<not> conn_open s \<Longrightarrow> \<not> conn_open (read_exit k s)"
  by (cases k; simp)+

lemma reader_read_message:
  "reader s = R_loop \<Longrightarrow> reader (read_message ok s) \<noteq> R_close \<and> reader (read_message ok s) \<noteq> R_done"
  by (simp add: read_message_def)

lemma hub_inv_start:
  assumes "hub_inv wk"
  shows "hub_inv (start_session u cs wk)"
proof -
  have ok: "hub_ok (hub wk)" using assms by (simp add: hub_inv_def)
  show ?thesis
    using assms hb.reg_ok [OF ok] unfolding hub_inv_def
    by (auto simp: start_session_def hb.lookup_reg [OF ok] nth_append new_session_def less_Suc_eq split: if_splits)
qed

lemma hub_inv_read_defer:
  assumes "hub_inv wk" and "i < length (sessions wk)"
  shows "hub_inv (on_session i (\<lambda>s. read_exit (reader s) s) (wk\<lparr>hub := read_exit_hub i (sessions wk ! i) (hub wk)\<rparr>))"
proof -
  have ok: "hub_ok (hub wk)" using assms by (simp add: hub_inv_def)
  let ?s = "sessions wk ! i"
  show ?thesis
  proof (cases "reader ?s = R_unregister")
    case True
    have own: "map_of (hub wk) u = Some i \<Longrightarrow> UserID ?s = u" for u using assms by (simp add: hub_inv_def)
    have gone: "map_of (Unregister (UserID ?s) i (hub wk)) u \<noteq> Some i" for u
      using own [of u] by (cases "UserID ?s = u") (auto simp: hb.lookup_unreg [OF ok])
    have old: "map_of (Unregister (UserID ?s) i (hub wk)) u = Some j \<Longrightarrow> map_of (hub wk) u = Some j" for u j
      by (simp add: hb.lookup_unreg [OF ok] split: if_splits)
    let ?wk = "on_session i (\<lambda>s. read_exit (reader s) s) (wk\<lparr>hub := Unregister (UserID ?s) i (hub wk)\<rparr>)"
    have "j < length (sessions ?wk) \<and> UserID (sessions ?wk ! j) = u \<and> reader (sessions ?wk ! j) \<notin> {R_close, R_done}"
      if "map_of (hub ?wk) u = Some j" for u j
    proof -
      from that have "map_of (hub wk) u = Some j" "j \<noteq> i" using old gone by auto
      with assms(1) show ?thesis by (simp add: hub_inv_def on_session_nth)
    qed
    then have "hub_inv ?wk" using hb.unreg_ok [OF ok] by (simp add: hub_inv_def)
    with True show ?thesis by (simp add: read_exit_hub_def)
  next
    case False
    then have same: "read_exit_hub i ?s (hub wk) = hub wk" by (simp add: read_exit_hub_def)
    show ?thesis
      unfolding same by (rule hub_inv_on_session) (use assms False in \<open>cases "reader ?s"; simp\<close>)+
  qed
qed

lemma hub_inv_shutdown:
  assumes "hub_inv wk"
  shows "hub_inv (worker_shutdown wk)"
proof (cases "Shutdown (hub wk)")
  case (Pair cs h)
  have "hub_ok (hub wk)" using assms by (simp add: hub_inv_def)
  with hb.shut_ok [OF this Pair] hb.lookup_shut [OF this Pair] Pair show ?thesis
    by (simp add: hub_inv_def worker_shutdown_def)
qed

lemma pump_inv:
  assumes "pump_step wk wk'" and "ws_inv wk"
  shows "ws_inv wk'"
  using assms
proof (induction rule: pump_step.induct)
  case (listener_done i wk c)
  then show ?case by (auto simp: ws_inv_def on_session_nth session_ok_ops intro!: hub_inv_on_session)
next
  case (subscription_closed i wk c)
  then show ?case by (auto simp: ws_inv_def on_session_nth session_ok_ops intro!: hub_inv_on_session)
next
  case (written i wk f ok)
  then show ?case by (auto simp: ws_inv_def on_session_nth session_ok_ops intro!: hub_inv_on_session)
next
  case (write_defer i wk)
  then show ?case by (auto simp: ws_inv_def on_session_nth session_ok_ops intro!: hub_inv_on_session)
next
  case (received i wk ok)
  then show ?case
    by (auto simp: ws_inv_def on_session_nth session_ok_ops reader_read_message intro!: hub_inv_on_session)
next
  case (read_defer i wk)
  then show ?case by (auto simp: ws_inv_def on_session_nth session_ok_ops hub_inv_read_defer)
qed

lemma goroutine_inv:
  assumes "goroutine_step tj wk wk'" and "ws_inv wk"
  shows "ws_inv wk'"
  using assms
proof (induction rule: goroutine_step.induct)
  case (redis_message i wk c payload)
  then show ?case by (auto simp: ws_inv_def on_session_nth session_ok_ops intro!: hub_inv_on_session)
next
  case (pump wk wk')
  then show ?case by (rule pump_inv)
qed

lemma ws_step_inv:
  assumes "ws_step tj wk wk'" and "ws_inv wk"
  shows "ws_inv wk'"
  using assms
proof (induction rule: ws_step.induct)
  case (connect wk u cs)
  then show ?case
    by (auto simp: ws_inv_def hub_inv_start) (auto simp: start_session_def nth_append session_ok_new)
next
  case (goroutine wk wk')
  then show ?case by (rule goroutine_inv)
next
  case (shutdown wk)
  then show ?case
    by (auto simp: ws_inv_def hub_inv_shutdown)
      (auto simp: worker_shutdown_def close_conns_nth session_ok_ops split: prod.splits)
qed

lemma ws_reach_inv: "ws_reach tj wk \<Longrightarrow> ws_inv wk"
proof (induction rule: ws_reach.induct)
  case start
  show ?case using hb.new_ok hb.lookup_new by (simp add: ws_inv_def hub_inv_def)
next
  case (step wk wk')
  then show ?case by (blast intro: ws_step_inv)
qed

section \<open>Delivery\<close>

text \<open>The messages a session has taken in, in order: those sent to the client, then those in the buffer.\<close>

fun json_messages :: "frame list \<Rightarrow> message list" where
  "json_messages [] = []"
| "json_messages (JsonFrame m # fs) = m # json_messages fs"
| "json_messages (PingFrame # fs) = json_messages fs"
| "json_messages (CloseFrame # fs) = json_messages fs"

lemma json_messages_append [simp]: "json_messages (xs @ ys) = json_messages xs @ json_messages ys"
  by (induction xs rule: json_messages.induct) simp_all

lemma json_messages_set: "m \<in> set (json_messages fs) \<longleftrightarrow> JsonFrame m \<in> set fs"
  by (induction fs rule: json_messages.induct) auto

definition taken_in :: "session \<Rightarrow> message list" where
  "taken_in s = json_messages (frames s) @ Send s"

lemma forward_appends: "\<exists>ms. length ms \<le> 1 \<and> forward tj u p buf = buf @ ms"
  by (auto simp: forward_def split: option.split)

lemma taken_in_listener_exit [simp]: "taken_in (listener_exit c s) = taken_in s"
  by (simp add: taken_in_def)

lemma taken_in_forward: "\<exists>ms. length ms \<le> 1 \<and> taken_in (listenToRedis tj p s) = taken_in s @ ms"
  using forward_appends [of tj "UserID s" p "Send s"] by (auto simp: taken_in_def listenToRedis_def)

lemma taken_in_write:
  "writer (write_message ok s) = W_loop \<Longrightarrow> taken_in (write_message ok s) = taken_in s"
  "taken_in (write_ping ok s) = taken_in s"
  by (auto simp: taken_in_def write_message_def write_ping_def split: list.splits if_splits)

lemma taken_in_other [simp]:
  "taken_in (s\<lparr>listeners := ls\<rparr>) = taken_in s" "taken_in (write_exit k s) = taken_in s"
  "taken_in (read_message ok s) = taken_in s" "taken_in (read_exit k' s) = taken_in s"
  "taken_in (s\<lparr>conn_open := b\<rparr>) = taken_in s"
  by (simp_all add: taken_in_def read_message_def)

lemma shutdown_nth:
  "i < length (sessions wk) \<Longrightarrow> \<exists>b. sessions (worker_shutdown wk) ! i = (sessions wk ! i)\<lparr>conn_open := b\<rparr> \<and>
     (b \<longrightarrow> conn_open (sessions wk ! i))"
  by (auto simp: worker_shutdown_def close_conns_nth split: prod.splits intro: exI [of _ "conn_open (sessions wk ! i)"])

lemma goroutine_taken_in:
  assumes "goroutine_step tj wk wk'" and "i < length (sessions wk)" and "writer (sessions wk' ! i) = W_loop"
  shows "\<exists>ms. length ms \<le> 1 \<and> taken_in (sessions wk' ! i) = taken_in (sessions wk ! i) @ ms"
  using assms
proof (induction rule: goroutine_step.induct)
  case (redis_message j wk c payload)
  then show ?case using taken_in_forward by (cases "i = j") (simp_all add: on_session_nth)
next
  case (pump wk wk')
  then show ?case
  proof (induction rule: pump_step.induct)
    case (written j wk f ok)
    then show ?case by (cases "i = j") (auto simp: on_session_nth taken_in_write)
  qed (auto simp: on_session_nth split: if_splits)
qed

section \<open>Closed connections\<close>

lemma closed_ops:
  assumes "\<not> conn_open s"
  shows "\<not> conn_open (listenToRedis tj p s) \<and> frames (listenToRedis tj p s) = frames s"
    and "\<not> conn_open (write_message ok s) \<and> frames (write_message ok s) = frames s"
    and "\<not> conn_open (write_ping ok s) \<and> frames (write_ping ok s) = frames s"
    and "\<not> conn_open (write_exit k s) \<and> frames (write_exit k s) = frames s"
    and "\<not> conn_open (read_message ok s) \<and> frames (read_message ok s) = frames s"
    and "\<not> conn_open (read_exit k' s) \<and> frames (read_exit k' s) = frames s"
  using assms
  by (simp_all add: listenToRedis_def write_message_def write_ping_def read_message_def split: list.split)

lemma closed_step:
  assumes "ws_step tj wk wk'" and "i < length (sessions wk)" and "\<not> conn_open (sessions wk ! i)"
  shows "i < length (sessions wk') \<and> \<not> conn_open (sessions wk' ! i) \<and> frames (sessions wk' ! i) = frames (sessions wk ! i)"
  using assms
proof (induction rule: ws_step.induct)
  case (connect wk u cs)
  then show ?case by (simp add: start_session_def nth_append)
next
  case (shutdown wk)
  then show ?case using shutdown_nth [of i wk] by (auto simp: worker_shutdown_def split: prod.splits)
next
  case (goroutine wk wk')
  then show ?case
  proof (induction rule: goroutine_step.induct)
    case (redis_message j wk c payload)
    then show ?case by (auto simp: on_session_nth closed_ops)
  next
    case (pump wk wk')
    then show ?case by (induction rule: pump_step.induct) (auto simp: on_session_nth closed_ops)
  qed
qed

section \<open>Properties\<close>

text \<open>A sample run: one user connects twice, and a message of another user arrives at the first session.\<close>

definition ws_zero :: worker where
  "ws_zero = \<lparr>sessions = [], hub = NewHub\<rparr>"

definition ws_one :: worker where
  "ws_one = start_session ''7'' [''9''] ws_zero"

definition ws_two :: worker where
  "ws_two = start_session ''7'' [''9''] ws_one"

definition ws_payload :: json where
  "ws_payload = JObj [(''id'', JNum ''5''), (''sender_id'', JStr ''8'')]"

definition ws_got :: worker where
  "ws_got = on_session 0 (listenToRedis \<lparr>time_text = (\<lambda>t. []), time_parse = (\<lambda>s. None)\<rparr> (Some ws_payload)) ws_two"

lemma ws_two_reach: "ws_reach tj ws_zero" "ws_reach tj ws_one" "ws_reach tj ws_two"
proof -
  show 0: "ws_reach tj ws_zero" unfolding ws_zero_def by (rule ws_reach.start)
  show 1: "ws_reach tj ws_one" unfolding ws_one_def by (rule ws_reach.step [OF 0 ws_step.connect])
  show "ws_reach tj ws_two" unfolding ws_two_def by (rule ws_reach.step [OF 1 ws_step.connect])
qed

lemma ws_two_sessions: "sessions ws_two = [new_session ''7'' [''9''], new_session ''7'' [''9'']]"
  by (simp add: ws_two_def ws_one_def ws_zero_def start_session_def)

lemma ws_got_step: "ws_step \<lparr>time_text = (\<lambda>t. []), time_parse = (\<lambda>s. None)\<rparr> ws_two ws_got"
  unfolding ws_got_def
  by (rule ws_step.goroutine, rule goroutine_step.redis_message [of _ _ "''9''"]) (simp_all add: ws_two_sessions new_session_def)

text \<open>
  (C24) Every session, in every interleaving: the outbound buffer never holds more than 256 messages,
  and no message of the user's own is ever buffered or sent back to the user.
\<close>

theorem bounded_no_echo:
  assumes "ws_reach tj wk" and "s \<in> set (sessions wk)"
  shows "length (Send s) \<le> 256 \<and> (\<forall>m. m \<in> set (Send s) \<or> JsonFrame m \<in> set (frames s) \<longrightarrow> SenderID m \<noteq> UserID s)"
proof -
  have ok: "session_ok s" using ws_reach_inv [OF assms(1)] assms(2) by (auto simp: ws_inv_def in_set_conv_nth)
  then have "foreign_frame (UserID s) f" if "f \<in> set (frames s)" for f
    using that by (auto simp: session_ok_def list_all_iff)
  with ok show ?thesis by (fastforce simp: session_ok_def sendBuffer_def list_all_iff)
qed

theorem bounded_no_echo_witness: "length (Send (sessions ws_got ! 0)) \<le> 256"
proof -
  have "sessions ws_got ! 0 \<in> set (sessions ws_got)"
    by (rule nth_mem) (simp add: ws_got_def ws_two_sessions)
  from bounded_no_echo [OF ws_reach.step [OF ws_two_reach(3) ws_got_step] this] show ?thesis by simp
qed

text \<open>
  Delivery is in order and without loss after acceptance: while the write pump runs, every step of
  the worker keeps the sequence of messages a session has taken in (those written to the socket, then those in
  the buffer) and appends at most one message. So the client sees a prefix of what was accepted, in
  that order, each once.
\<close>

lemma delivery_in_order:
  assumes "ws_step tj wk wk'" and "i < length (sessions wk)" and "writer (sessions wk' ! i) = W_loop"
  shows "\<exists>ms. length ms \<le> 1 \<and> taken_in (sessions wk' ! i) = taken_in (sessions wk ! i) @ ms"
  using assms
proof (induction rule: ws_step.induct)
  case (connect wk u cs)
  then show ?case by (simp add: start_session_def nth_append)
next
  case (goroutine wk wk')
  then show ?case by (rule goroutine_taken_in)
next
  case (shutdown wk)
  then show ?case using shutdown_nth [of i wk] by auto
qed

text \<open>
  A closed connection stays closed: after it nothing more is written to it, whatever the goroutines,
  Redis and the other sessions do.
\<close>

lemma closed_is_final:
  assumes "(ws_step tj)\<^sup>*\<^sup>* wk wk'" and "i < length (sessions wk)" and "\<not> conn_open (sessions wk ! i)"
  shows "\<not> conn_open (sessions wk' ! i) \<and> frames (sessions wk' ! i) = frames (sessions wk ! i)"
proof -
  have "i < length (sessions wk') \<and> \<not> conn_open (sessions wk' ! i) \<and> frames (sessions wk' ! i) = frames (sessions wk ! i)"
    using assms(1)
  proof (induction rule: rtranclp_induct)
    case base
    with assms show ?case by simp
  next
    case (step y z)
    then show ?case using closed_step [OF step.hyps(2)] by simp
  qed
  then show ?thesis by simp
qed

definition ws_shut :: worker where
  "ws_shut = worker_shutdown ws_two"

lemma ws_shut_sessions:
  "sessions ws_shut = [new_session ''7'' [''9''], (new_session ''7'' [''9''])\<lparr>conn_open := False\<rparr>]" "hub ws_shut = []"
  by (simp_all add: ws_shut_def worker_shutdown_def Shutdown_def ws_two_def ws_one_def ws_zero_def start_session_def
      Register_def NewHub_def close_conns_def)

text \<open>
  The hub in every reachable state: an entry is a live session of that user, one whose clean-up has not
  unregistered it; and a shutdown empties the hub and closes every session that was registered.
\<close>

lemma hub_tracks_sessions:
  assumes "ws_reach tj wk" and "map_of (hub wk) u = Some i"
  shows "i < length (sessions wk) \<and> UserID (sessions wk ! i) = u \<and> reader (sessions wk ! i) \<notin> {R_close, R_done}
    \<and> \<not> conn_open (sessions (worker_shutdown wk) ! i) \<and> ActiveCount (hub (worker_shutdown wk)) = 0"
proof -
  have inv: "hub_inv wk" and ok: "hub_ok (hub wk)" using ws_reach_inv [OF assms(1)] by (simp_all add: ws_inv_def hub_inv_def)
  obtain cs h where s: "Shutdown (hub wk) = (cs, h)" by force
  have h: "map_of h = Map.empty" "set cs = ran (map_of (hub wk))" using hb.lookup_shut [OF ok s] by simp_all
  have i: "i < length (sessions wk)" "i \<in> set cs" using inv assms(2) h(2) by (auto simp: hub_inv_def ran_def)
  have "h = []" using h(1) by (cases h) (auto simp: fun_eq_iff split: if_splits)
  with i inv assms(2) s show ?thesis
    by (auto simp: hub_inv_def worker_shutdown_def close_conns_nth ActiveCount_def)
qed

text \<open>
  (C40) A shutdown misses replaced sessions: when a user has connected a second time while the first
  connection is open, the shutdown of the hub leaves the first connection open with its pumps running,
  though the hub is empty afterwards.
\<close>

theorem shutdown_misses_replaced:
  assumes "ws_reach tj wk"
  shows "let wk2 = worker_shutdown (start_session u cs' (start_session u cs wk)); s = sessions wk2 ! length (sessions wk)
    in UserID s = u \<and> conn_open s \<and> reader s = R_loop \<and> writer s = W_loop \<and> hub wk2 = []"
proof -
  let ?n = "length (sessions wk)" and ?wk = "start_session u cs' (start_session u cs wk)"
  have inv: "hub_inv wk" and ok: "hub_ok (hub wk)" using ws_reach_inv [OF assms] by (simp_all add: ws_inv_def hub_inv_def)
  have hub: "map_of (hub ?wk) = (map_of (hub wk))(u \<mapsto> Suc ?n)"
    using hb.lookup_reg [OF ok] hb.lookup_reg [OF hb.reg_ok [OF ok]] by (simp add: start_session_def)
  have n: "?n \<notin> ran (map_of (hub ?wk))" unfolding hub
    using inv by (auto simp: ran_def hub_inv_def split: if_splits)
  have ok': "hub_ok (hub ?wk)" using hb.reg_ok [OF hb.reg_ok [OF ok]] by (simp add: start_session_def)
  obtain closed h where s: "Shutdown (hub ?wk) = (closed, h)" by force
  have "map_of h = Map.empty" "?n \<notin> set closed" using hb.lookup_shut [OF ok' s] n by simp_all
  moreover from this(1) have "h = []" by (cases h) (auto simp: fun_eq_iff split: if_splits)
  moreover have "sessions ?wk ! ?n = new_session u cs" "?n < length (sessions ?wk)"
    by (simp_all add: start_session_def nth_append)
  ultimately show ?thesis
    using s by (simp add: Let_def worker_shutdown_def close_conns_nth) (simp add: new_session_def)
qed

theorem shutdown_misses_replaced_witness:
  "conn_open (sessions (worker_shutdown ws_two) ! 0) \<and> hub (worker_shutdown ws_two) = []"
  using shutdown_misses_replaced [OF ws_two_reach(1), of "''7''" "[''9'']" "[''9'']"]
  by (simp add: ws_two_def ws_one_def Let_def) (simp add: ws_zero_def)

text \<open>
  Connecting: a successful \<^verbatim>\<open>ServeWS\<close> adds one open session for the user, registers it, starts one
  listener for each channel the user is a member of at that time and for no other, and leaves all
  other sessions as they are.
\<close>

lemma ServeWS_subscribes:
  assumes "mysql_server db cf tabs" and "ServeWS db u True wk d = (Connected, wk', d')" and "hub_ok (hub wk)"
  shows "\<exists>s. sessions wk' = sessions wk @ [s] \<and> UserID s = u \<and> conn_open s \<and> Send s = []
    \<and> map_of (hub wk') = (map_of (hub wk))(u \<mapsto> length (sessions wk))
    \<and> mset (listeners s) = mset (map m_channel_id (filter (\<lambda>m. same cf (m_user_id m) u) (channel_members (tabs d))))"
proof -
  obtain ids where g: "GetChannelIDsByUser db u d = (Inr ids, d')" and wk': "wk' = start_session u ids wk"
    using assms(2) by (auto simp: ServeWS_def split: if_splits prod.splits sum.splits)
  from mysql_server.GetChannelIDsByUser_contract(2) [OF assms(1) g refl] show ?thesis
    by (simp add: wk' start_session_def new_session_def hb.lookup_reg [OF assms(3)])
qed

end
