(* ===== verification/Teardown.thy ===== *)
theory Teardown
  imports Ws_Session
begin

text \<open>
  What becomes of a session whose connection is closed (\<^verbatim>\<open>client.go\<close>): its read pump fails, runs its deferred actions and so cancels the context
  and leaves the hub, the write pump fails at the next message or tick, and the listeners see the cancelled context. That all this happens, in
  every run in which the scheduler keeps giving turns to the goroutines, is the property.
\<close>

section \<open>Turns\<close>

text \<open>
  A turn of the read pump, of the write pump (a message or a tick; waiting is no turn) and of a listener that sees the context cancelled.
\<close>

definition read_turn :: "cref \<Rightarrow> worker \<Rightarrow> worker \<Rightarrow> bool" where
  "read_turn i wk wk' \<longleftrightarrow>
     (if reader (sessions wk ! i) = R_loop then \<exists>ok. wk' = on_session i (read_message ok) wk
      else wk' = on_session i (\<lambda>s. read_exit (reader s) s) (wk\<lparr>hub := read_exit_hub i (sessions wk ! i) (hub wk)\<rparr>))"

definition write_turn :: "cref \<Rightarrow> worker \<Rightarrow> worker \<Rightarrow> bool" where
  "write_turn i wk wk' \<longleftrightarrow>
     (if writer (sessions wk ! i) = W_loop
      then \<exists>ok. Send (sessions wk ! i) \<noteq> [] \<and> wk' = on_session i (write_message ok) wk \<or> wk' = on_session i (write_ping ok) wk
      else wk' = on_session i (\<lambda>s. write_exit (writer s) s) wk)"

definition listener_turn :: "cref \<Rightarrow> string \<Rightarrow> worker \<Rightarrow> worker \<Rightarrow> bool" where
  "listener_turn i c wk wk' \<longleftrightarrow> c \<in> set (listeners (sessions wk ! i)) \<and> cancelled (sessions wk ! i) \<and> wk' = on_session i (listener_exit c) wk"

text \<open>
  A run gives every goroutine of session \<open>i\<close> its turns: a pump that has not ended moves again, and a listener with a cancelled context moves
  again unless it has ended otherwise. (On a closed connection a read returns at once, a write at the latest with the next tick; of a context that is done and
  messages that keep coming, \<^verbatim>\<open>select\<close> does not choose the messages for ever.)
\<close>

definition fair_run :: "time_json \<Rightarrow> cref \<Rightarrow> (nat \<Rightarrow> worker) \<Rightarrow> bool" where
  "fair_run tj i run \<longleftrightarrow>
     (\<forall>k. ws_step tj (run k) (run (Suc k))) \<and>
     (\<forall>k. reader (sessions (run k) ! i) \<noteq> R_done \<longrightarrow> (\<exists>k'\<ge>k. read_turn i (run k') (run (Suc k')))) \<and>
     (\<forall>k. writer (sessions (run k) ! i) \<noteq> W_done \<longrightarrow> (\<exists>k'\<ge>k. write_turn i (run k') (run (Suc k')))) \<and>
     (\<forall>k c. cancelled (sessions (run k) ! i) \<longrightarrow> c \<in> set (listeners (sessions (run k) ! i)) \<longrightarrow>
        (\<exists>k'\<ge>k. listener_turn i c (run k') (run (Suc k')) \<or> c \<notin> set (listeners (sessions (run k') ! i))))"

section \<open>What is left to do\<close>

fun read_left :: "read_state \<Rightarrow> nat" where
  "read_left R_loop = 4" | "read_left R_cancel = 3" | "read_left R_unregister = 2" | "read_left R_close = 1" | "read_left R_done = 0"

fun write_left :: "write_state \<Rightarrow> nat" where
  "write_left W_loop = 3" | "write_left W_cancel = 2" | "write_left W_close = 1" | "write_left W_done = 0"

lemma left_zero [simp]: "read_left r = 0 \<longleftrightarrow> r = R_done" "write_left w = 0 \<longleftrightarrow> w = W_done"
  by (cases r; simp) (cases w; simp)

definition finished :: "session \<Rightarrow> bool" where
  "finished s \<longleftrightarrow> reader s = R_done \<and> writer s = W_done \<and> listeners s = []"

text \<open>A step takes nothing back: no pump returns to an earlier point, no listener starts, and a cancelled context stays so.\<close>

definition no_more :: "session \<Rightarrow> session \<Rightarrow> bool" where
  "no_more s s' \<longleftrightarrow> read_left (reader s') \<le> read_left (reader s) \<and> write_left (writer s') \<le> write_left (writer s) \<and>
     (listeners s' = listeners s \<or> (\<exists>c\<in>set (listeners s). listeners s' = remove1 c (listeners s))) \<and> (cancelled s \<longrightarrow> cancelled s')"

lemma no_more_ops:
  "no_more s s" "no_more s (listenToRedis tj p s)" "c \<in> set (listeners s) \<Longrightarrow> no_more s (listener_exit c s)"
  "writer s = W_loop \<Longrightarrow> no_more s (write_message ok s)" "writer s = W_loop \<Longrightarrow> no_more s (write_ping ok s)"
  "no_more s (write_exit (writer s) s)" "reader s = R_loop \<Longrightarrow> no_more s (read_message ok s)" "no_more s (read_exit (reader s) s)"
  "no_more s (s\<lparr>conn_open := b\<rparr>)"
proof -
  show "no_more s (write_exit (writer s) s)" by (cases "writer s") (simp_all add: no_more_def)
  show "no_more s (read_exit (reader s) s)" by (cases "reader s") (simp_all add: no_more_def)
  show "writer s = W_loop \<Longrightarrow> no_more s (write_message ok s)"
    by (auto simp: no_more_def write_message_def split: list.splits)
qed (auto simp: no_more_def listenToRedis_def write_ping_def read_message_def)

lemma step_no_more:
  assumes "ws_step tj wk wk'" and "i < length (sessions wk)"
  shows "no_more (sessions wk ! i) (sessions wk' ! i)"
  using assms
proof (induction rule: ws_step.induct)
  case (connect wk u cs)
  then show ?case by (simp add: start_session_def nth_append no_more_ops)
next
  case (shutdown wk)
  then show ?case using shutdown_nth [of i wk] by (auto simp: no_more_ops)
next
  case (goroutine wk wk')
  then show ?case
  proof (induction rule: goroutine_step.induct)
    case (redis_message j wk c payload)
    then show ?case by (auto simp: on_session_nth no_more_ops)
  next
    case (pump wk wk')
    then show ?case by (induction rule: pump_step.induct) (auto simp: on_session_nth no_more_ops)
  qed
qed

text \<open>On a closed connection every turn of a pump is progress.\<close>

lemma read_turn_progress:
  assumes "read_turn i wk wk'" and "i < length (sessions wk)" and "\<not> conn_open (sessions wk ! i)" and "reader (sessions wk ! i) \<noteq> R_done"
  shows "read_left (reader (sessions wk' ! i)) < read_left (reader (sessions wk ! i))"
  using assms by (cases "reader (sessions wk ! i)") (auto simp: read_turn_def on_session_nth read_message_def)

lemma write_turn_progress:
  assumes "write_turn i wk wk'" and "i < length (sessions wk)" and "\<not> conn_open (sessions wk ! i)" and "writer (sessions wk ! i) \<noteq> W_done"
  shows "write_left (writer (sessions wk' ! i)) < write_left (writer (sessions wk ! i))"
  using assms
  by (cases "writer (sessions wk ! i)") (auto simp: write_turn_def on_session_nth write_message_def write_ping_def split: list.splits)

section \<open>Fair runs\<close>

lemma run_steps:
  assumes "\<And>k. ws_step tj (run k) (run (Suc k))"
  shows "(ws_step tj)\<^sup>*\<^sup>* (run 0) (run k)"
  by (induction k) (auto intro: rtranclp.rtrancl_into_rtrancl assms)

lemma run_closed:
  assumes "\<And>k. ws_step tj (run k) (run (Suc k))" and "i < length (sessions (run 0))" and "\<not> conn_open (sessions (run 0) ! i)"
  shows "i < length (sessions (run k)) \<and> \<not> conn_open (sessions (run k) ! i)"
proof (induction k)
  case (Suc k)
  then show ?case using closed_step [OF assms(1)] by blast
qed (use assms in simp)

text \<open>In the rest, \<open>run\<close> is a fair run that begins with the connection of session \<open>i\<close> closed.\<close>

lemma pumps_end:
  assumes "fair_run tj i run" and "i < length (sessions (run 0))" and "\<not> conn_open (sessions (run 0) ! i)"
  shows "\<exists>k. \<forall>k'\<ge>k. reader (sessions (run k') ! i) = R_done" and "\<exists>k. \<forall>k'\<ge>k. writer (sessions (run k') ! i) = W_done"
proof -
  let ?s = "\<lambda>k. sessions (run k) ! i"
  have step: "ws_step tj (run k) (run (Suc k))" for k using assms(1) by (simp add: fair_run_def)
  note c = run_closed [OF step assms(2,3)]
  have more: "no_more (?s k) (?s (Suc k))" for k using step_no_more [OF step] c by blast
  have "\<exists>k'\<ge>k. read_left (reader (?s k')) < read_left (reader (?s k)) \<or> read_left (reader (?s (Suc k'))) < read_left (reader (?s k'))"
    if "read_left (reader (?s k)) \<noteq> 0" for k
  proof -
    from that obtain k' where k': "k' \<ge> k" "read_turn i (run k') (run (Suc k'))" using assms(1) by (auto simp: fair_run_def)
    then show ?thesis using read_turn_progress [OF k'(2)] c that by (intro exI [of _ k']) fastforce
  qed
  then have "\<exists>k\<ge>0. \<forall>k'\<ge>k. read_left (reader (?s k')) = 0" by (intro eventually_zero) (use more in \<open>simp_all add: no_more_def\<close>)
  then show "\<exists>k. \<forall>k'\<ge>k. reader (?s k') = R_done" by simp
  have "\<exists>k'\<ge>k. write_left (writer (?s k')) < write_left (writer (?s k)) \<or> write_left (writer (?s (Suc k'))) < write_left (writer (?s k'))"
    if "write_left (writer (?s k)) \<noteq> 0" for k
  proof -
    from that obtain k' where k': "k' \<ge> k" "write_turn i (run k') (run (Suc k'))" using assms(1) by (auto simp: fair_run_def)
    then show ?thesis using write_turn_progress [OF k'(2)] c that by (intro exI [of _ k']) fastforce
  qed
  then have "\<exists>k\<ge>0. \<forall>k'\<ge>k. write_left (writer (?s k')) = 0" by (intro eventually_zero) (use more in \<open>simp_all add: no_more_def\<close>)
  then show "\<exists>k. \<forall>k'\<ge>k. writer (?s k') = W_done" by simp
qed

lemma remove1_shorter: "c \<in> set xs \<Longrightarrow> length (remove1 c xs) < length xs"
  using length_pos_if_in_set [of c xs] by (simp add: length_remove1)

lemma listeners_shrink:
  assumes "\<And>k. no_more (s k) (s (Suc k))" and "k \<le> k'"
  shows "listeners (s k') = listeners (s k) \<or> length (listeners (s k')) < length (listeners (s k))"
  using assms(2)
proof (induction rule: dec_induct)
  case (step m)
  have "listeners (s (Suc m)) = listeners (s m) \<or> length (listeners (s (Suc m))) < length (listeners (s m))"
    using assms(1) [of m] by (auto simp: no_more_def remove1_shorter)
  with step.IH show ?case by auto
qed simp

lemma listeners_end:
  assumes "fair_run tj i run" and "i < length (sessions (run 0))" and "\<not> conn_open (sessions (run 0) ! i)"
    and "\<And>k. k0 \<le> k \<Longrightarrow> cancelled (sessions (run k) ! i)"
  shows "\<exists>k. \<forall>k'\<ge>k. listeners (sessions (run k') ! i) = []"
proof -
  let ?s = "\<lambda>k. sessions (run (k0 + k)) ! i"
  have step: "ws_step tj (run k) (run (Suc k))" for k using assms(1) by (simp add: fair_run_def)
  note c = run_closed [OF step assms(2,3)]
  have more: "no_more (?s k) (?s (Suc k))" for k using step_no_more [OF step [of "k0 + k"]] c by simp
  have "\<exists>k'\<ge>k. length (listeners (?s k')) < length (listeners (?s k)) \<or> length (listeners (?s (Suc k'))) < length (listeners (?s k'))"
    if "length (listeners (?s k)) \<noteq> 0" for k
  proof -
    from that obtain ch where ch: "ch \<in> set (listeners (?s k))" by (cases "listeners (?s k)") auto
    obtain k1 where k1: "k1 \<ge> k0 + k" "listener_turn i ch (run k1) (run (Suc k1)) \<or> ch \<notin> set (listeners (sessions (run k1) ! i))"
      using assms(1) assms(4) [of "k0 + k"] ch unfolding fair_run_def by (meson le_add1)
    then obtain k' where k': "k1 = k0 + k'" "k \<le> k'" by (metis add_le_cancel_left le_Suc_ex le_add1 le_trans)
    show ?thesis
    proof (cases "ch \<in> set (listeners (?s k'))")
      case True
      then have "listener_turn i ch (run (k0 + k')) (run (Suc (k0 + k')))" using k1(2) k' by simp
      then have "length (listeners (?s (Suc k'))) < length (listeners (?s k'))"
        using c [of "k0 + k'"] by (auto simp: listener_turn_def on_session_nth remove1_shorter)
      with k'(2) show ?thesis by blast
    next
      case False
      then show ?thesis using listeners_shrink [of ?s, OF more k'(2)] ch k'(2) by metis
    qed
  qed
  then have "\<exists>k\<ge>0. \<forall>k'\<ge>k. length (listeners (?s k')) = 0"
  proof (rule eventually_zero [rotated])
    show "length (listeners (?s (Suc k))) \<le> length (listeners (?s k))" for k
      using listeners_shrink [of ?s, OF more, of k "Suc k"] by auto
  qed
  then obtain k where "\<And>k'. k' \<ge> k \<Longrightarrow> listeners (sessions (run (k0 + k')) ! i) = []" by auto
  then have "listeners (sessions (run k') ! i) = []" if "k' \<ge> k0 + k" for k'
    using that by (metis add_le_cancel_left le_Suc_ex le_add1 le_trans)
  then show ?thesis by blast
qed

section \<open>Properties\<close>

text \<open>
  (C25) No goroutine leaks: once the connection of a session is closed, in every fair run of the worker, whatever Redis, the clients and the other sessions do, both
  pumps and all listeners of the session end, and from then on the hub does not hold it.
\<close>

theorem teardown_completes:
  assumes "ws_reach tj (run 0)" and "i < length (sessions (run 0))" and "\<not> conn_open (sessions (run 0) ! i)" and "fair_run tj i run"
  shows "\<exists>k. \<forall>k'\<ge>k. finished (sessions (run k') ! i) \<and> i \<notin> ran (map_of (hub (run k')))"
proof -
  let ?s = "\<lambda>k. sessions (run k) ! i"
  have step: "ws_step tj (run k) (run (Suc k))" for k using assms(4) by (simp add: fair_run_def)
  have inv: "ws_inv (run k)" for k using ws_reach_inv [OF ws.reach_steps [OF assms(1) run_steps [of tj run, OF step]]] .
  note c = run_closed [OF step assms(2,3)]
  obtain kr where kr: "\<And>k. kr \<le> k \<Longrightarrow> reader (?s k) = R_done" using pumps_end(1) [OF assms(4,2,3)] by blast
  obtain kw where kw: "\<And>k. kw \<le> k \<Longrightarrow> writer (?s k) = W_done" using pumps_end(2) [OF assms(4,2,3)] by blast
  have "cancelled (?s k)" if "kr \<le> k" for k
    using inv [of k] c [of k] kr [OF that] by (auto simp: ws_inv_def session_ok_def)
  then obtain kl where kl: "\<And>k. kl \<le> k \<Longrightarrow> listeners (?s k) = []" using listeners_end [OF assms(4,2,3)] by blast
  have "finished (?s k) \<and> i \<notin> ran (map_of (hub (run k)))" if "max kr (max kw kl) \<le> k" for k
  proof -
    have "reader (?s k) = R_done" "writer (?s k) = W_done" "listeners (?s k) = []" using that kr kw kl by simp_all
    with inv [of k] show ?thesis by (fastforce simp: finished_def ws_inv_def hub_inv_def ran_def)
  qed
  then show ?thesis by blast
qed

text \<open>A fair run: after the shutdown of the sample worker, session 1 is given its turns one after the other.\<close>

definition tidy :: "cref \<Rightarrow> worker \<Rightarrow> worker" where
  "tidy i wk = (let s = sessions wk ! i in
     if reader s = R_loop then on_session i (read_message False) wk
     else if reader s \<noteq> R_done
     then on_session i (\<lambda>s. read_exit (reader s) s) (wk\<lparr>hub := read_exit_hub i (sessions wk ! i) (hub wk)\<rparr>)
     else if writer s = W_loop then on_session i (write_ping False) wk
     else if writer s \<noteq> W_done then on_session i (\<lambda>s. write_exit (writer s) s) wk
     else if listeners s \<noteq> [] then on_session i (listener_exit (hd (listeners s))) wk
     else worker_shutdown wk)"

lemma tidy_step:
  assumes "i < length (sessions wk)" and "session_ok (sessions wk ! i)"
  shows "ws_step tj wk (tidy i wk)"
proof -
  let ?s = "sessions wk ! i"
  note go = ws_step.goroutine [OF goroutine_step.pump]
  have "listeners ?s \<noteq> [] \<Longrightarrow> pump_step wk (on_session i (listener_exit (hd (listeners ?s))) wk)"
    by (rule pump_step.subscription_closed [OF assms(1)]) simp
  then show ?thesis
    using assms go [OF pump_step.received [of i wk False]] go [OF pump_step.read_defer [of i wk]] go [OF pump_step.written [of i wk "write_ping False" False]]
      go [OF pump_step.write_defer [of i wk]] go ws_step.shutdown
    by (simp add: tidy_def Let_def)
qed

definition stage :: "nat \<Rightarrow> session" where
  "stage k = (new_session ''7'' [''9''])\<lparr>conn_open := False, cancelled := (2 \<le> k),
     reader := (if k = 0 then R_loop else if k = 1 then R_cancel else if k = 2 then R_unregister else if k = 3 then R_close else R_done),
     writer := (if k \<le> 4 then W_loop else if k = 5 then W_cancel else if k = 6 then W_close else W_done),
     listeners := (if k < 8 then [''9''] else [])\<rparr>"

definition tidy_run :: "nat \<Rightarrow> worker" where
  "tidy_run k = \<lparr>sessions = [new_session ''7'' [''9''], stage k], hub = []\<rparr>"

lemma tidy_run_start: "tidy_run 0 = ws_shut"
  using ws_shut_sessions by (simp add: tidy_run_def stage_def new_session_def)

lemma tidy_run_Suc: "tidy_run (Suc k) = tidy 1 (tidy_run k)"
proof -
  consider "k = 0" | "k = 1" | "k = 2" | "k = 3" | "k = 4" | "k = 5" | "k = 6" | "k = 7" | "8 \<le> k" by linarith
  then show ?thesis
    by cases (simp_all add: tidy_run_def stage_def tidy_def new_session_def on_session_def read_message_def write_ping_def listener_exit_def
        read_exit_hub_def Unregister_def worker_shutdown_def Shutdown_def close_conns_def)
qed

lemma tidy_run_fair: "fair_run tj 1 tidy_run"
  unfolding fair_run_def
proof (intro conjI allI impI)
  fix k
  have "session_ok (stage k)" by (simp add: stage_def session_ok_def new_session_def)
  then show "ws_step tj (tidy_run k) (tidy_run (Suc k))"
    unfolding tidy_run_Suc by (intro tidy_step) (simp_all add: tidy_run_def)
  show "\<exists>k'\<ge>k. read_turn 1 (tidy_run k') (tidy_run (Suc k'))" if "reader (sessions (tidy_run k) ! 1) \<noteq> R_done"
    using that unfolding tidy_run_Suc by (intro exI [of _ k]) (auto simp: read_turn_def tidy_def)
  show "\<exists>k'\<ge>k. write_turn 1 (tidy_run k') (tidy_run (Suc k'))" if "writer (sessions (tidy_run k) ! 1) \<noteq> W_done"
    using that unfolding tidy_run_Suc
    by (intro exI [of _ "max k 4"]) (auto simp: write_turn_def tidy_def tidy_run_def stage_def new_session_def split: if_splits)
  show "\<exists>k'\<ge>k. listener_turn 1 c (tidy_run k') (tidy_run (Suc k')) \<or> c \<notin> set (listeners (sessions (tidy_run k') ! 1))" for c
    by (intro exI [of _ "max k 8"]) (simp add: tidy_run_def stage_def)
qed

theorem teardown_completes_witness:
  "\<exists>k. finished (sessions (tidy_run k) ! 1) \<and> tidy_run 0 = ws_shut"
proof -
  let ?tj = "\<lparr>time_text = (\<lambda>t. []), time_parse = (\<lambda>s. None)\<rparr>"
  have "ws_reach ?tj (tidy_run 0)" unfolding tidy_run_start ws_shut_def by (rule ws_reach.step [OF ws_two_reach(3) ws_step.shutdown])
  from teardown_completes [of ?tj tidy_run 1, OF this] tidy_run_fair tidy_run_start show ?thesis by (auto simp: ws_shut_sessions)
qed

end
