(* ===== verification/Heartbeat.thy ===== *)
theory Heartbeat
  imports TeamChat_Prelude
begin

text \<open>
  The heartbeat of a WebSocket session (\<^verbatim>\<open>client.go\<close>) in time: when the read pump gives a connection up, and
  when the write pump sends its pings. Times are nanoseconds. \<^verbatim>\<open>Ws_Session\<close> leaves open when a read or a
  write fails; here the deadlines decide it. What the WebSocket package does with a frame that arrives is
  the parameter \<open>on_frame\<close>, with the documented behaviour of the package as the locale \<open>frame_reader\<close>.
\<close>

section \<open>Timing constants\<close>

definition writeWait :: int where
  "writeWait = 10 * second"

definition pongWait :: int where
  "pongWait = 60 * second"

definition pingPeriod :: int where
  "pingPeriod = (pongWait * 9) div 10"

definition readLimit :: nat where
  "readLimit = 512"

lemmas timing = second_def writeWait_def pongWait_def pingPeriod_def

text \<open>The ticker of the write pump: its ticks are a ping period apart.\<close>

definition tick :: "int \<Rightarrow> nat \<Rightarrow> int" where
  "tick t0 k = t0 + int k * pingPeriod"

section \<open>The read pump\<close>

text \<open>Frames of the client, and what \<^verbatim>\<open>ReadMessage\<close> does with one: run a handler and go on, return to the loop, or fail.\<close>

datatype in_frame = PongIn | PingIn | DataIn nat | CloseIn

datatype read_result = RunPongHandler | KeepReading | ReturnMessage | ReturnError

locale frame_reader =
  fixes on_frame :: "nat \<Rightarrow> in_frame \<Rightarrow> read_result"
  assumes pong_frame: "on_frame limit PongIn = RunPongHandler"
    and ping_frame: "on_frame limit PingIn = KeepReading"
    and small_frame: "n \<le> limit \<Longrightarrow> on_frame limit (DataIn n) = ReturnMessage"
    and big_frame: "limit < n \<Longrightarrow> on_frame limit (DataIn n) = ReturnError"
    and close_frame: "on_frame limit CloseIn = ReturnError"

text \<open>
  The loop of \<^verbatim>\<open>readPump\<close> on the frames that arrive: the time at which it ends. A read fails at its
  deadline; only the pong handler moves the deadline.
\<close>

fun readPump_loop :: "(nat \<Rightarrow> in_frame \<Rightarrow> read_result) \<Rightarrow> int \<Rightarrow> (int \<times> in_frame) list \<Rightarrow> int" where
  "readPump_loop on_frame deadline [] = deadline"
| "readPump_loop on_frame deadline ((t, f) # fs) =
     (if deadline \<le> t then deadline
      else (case on_frame readLimit f of
              RunPongHandler \<Rightarrow> readPump_loop on_frame (t + pongWait) fs
            | KeepReading \<Rightarrow> readPump_loop on_frame deadline fs
            | ReturnMessage \<Rightarrow> readPump_loop on_frame deadline fs
            | ReturnError \<Rightarrow> t))"

definition readPump_end :: "(nat \<Rightarrow> in_frame \<Rightarrow> read_result) \<Rightarrow> int \<Rightarrow> (int \<times> in_frame) list \<Rightarrow> int" where
  "readPump_end on_frame t0 fs = readPump_loop on_frame (t0 + pongWait) fs"

text \<open>Frames that do not end the session by themselves.\<close>

fun harmless :: "in_frame \<Rightarrow> bool" where
  "harmless (DataIn n) \<longleftrightarrow> n \<le> readLimit"
| "harmless CloseIn \<longleftrightarrow> False"
| "harmless _ \<longleftrightarrow> True"

text \<open>The last pong received up to a time, the start counting as one.\<close>

definition last_pong :: "int \<Rightarrow> (int \<times> in_frame) list \<Rightarrow> int \<Rightarrow> int \<Rightarrow> bool" where
  "last_pong t0 fs e p \<longleftrightarrow> t0 \<le> p \<and> (p = t0 \<or> (p, PongIn) \<in> set fs \<and> p \<le> e) \<and> (\<forall>q. (q, PongIn) \<in> set fs \<and> q < e \<longrightarrow> q \<le> p)"

context frame_reader
begin

lemma harmless_frame: "harmless f \<Longrightarrow> on_frame readLimit f \<noteq> ReturnError"
  by (cases f) (simp_all add: pong_frame ping_frame small_frame)

lemma run_pong: "on_frame readLimit f = RunPongHandler \<longleftrightarrow> f = PongIn"
proof (cases f)
  case (DataIn n)
  then show ?thesis using small_frame [of n readLimit] big_frame [of readLimit n] by (cases "n \<le> readLimit") auto
qed (simp_all add: pong_frame ping_frame close_frame)

lemma frame_cases:
  obtains (pong) "f = PongIn" "on_frame readLimit f = RunPongHandler"
  | (ignored) "f \<noteq> PongIn" "on_frame readLimit f \<in> {KeepReading, ReturnMessage}"
  | (error) "f \<noteq> PongIn" "on_frame readLimit f = ReturnError" "\<not> harmless f"
  using run_pong [of f] harmless_frame [of f] by (cases "on_frame readLimit f") auto

lemma loop_ge: "sorted (s # map fst fs) \<Longrightarrow> s \<le> readPump_loop on_frame (s + pongWait) fs"
proof (induction fs arbitrary: s)
  case Nil
  then show ?case by (simp add: timing)
next
  case (Cons a fs)
  obtain t f where a: "a = (t, f)" by force
  have "s \<le> t" "sorted (t # map fst fs)" "sorted (s # map fst fs)" using Cons.prems by (auto simp: a)
  with Cons.IH [of t] Cons.IH [of s] show ?case
    by (cases f rule: frame_cases) (auto simp: a timing)
qed

text \<open>The loop ends a pong wait after the last pong, or earlier by an error.\<close>

lemma loop_last_pong:
  "sorted (s # map fst fs) \<Longrightarrow> e = readPump_loop on_frame (s + pongWait) fs \<Longrightarrow>
   \<exists>p. last_pong s fs e p \<and> e \<le> p + pongWait \<and> (list_all (harmless \<circ> snd) fs \<longrightarrow> e = p + pongWait)"
proof (induction fs arbitrary: s)
  case Nil
  then show ?case by (simp add: last_pong_def)
next
  case (Cons a fs)
  obtain t f where a: "a = (t, f)" by force
  have t: "s \<le> t" "sorted (t # map fst fs)" "sorted (s # map fst fs)" using Cons.prems(1) by (auto simp: a)
  have later: "t \<le> q" if "(q, PongIn) \<in> set (a # fs)" for q using that t(2) by (auto simp: a)
  show ?case
  proof (cases "s + pongWait \<le> t")
    case True
    then show ?thesis
      using Cons.prems(2) later by (intro exI [of _ s]) (force simp: a last_pong_def)
  next
    case early: False
    show ?thesis
    proof (cases f rule: frame_cases)
      case pong
      with early Cons.prems(2) have e: "e = readPump_loop on_frame (t + pongWait) fs" by (simp add: a)
      from Cons.IH [OF t(2) e] obtain p where "last_pong t fs e p" "e \<le> p + pongWait"
        "list_all (harmless \<circ> snd) fs \<longrightarrow> e = p + pongWait" by blast
      with loop_ge [OF t(2)] e t(1) show ?thesis
        by (intro exI [of _ p]) (auto simp: a pong last_pong_def comp_def)
    next
      case ignored
      with early Cons.prems(2) have e: "e = readPump_loop on_frame (s + pongWait) fs" by (auto simp: a)
      from Cons.IH [OF t(3) e] ignored(1) show ?thesis by (auto simp: a last_pong_def)
    next
      case error
      with early Cons.prems(2) have "e = t" by (simp add: a)
      with error early later t(1) show ?thesis
        by (intro exI [of _ s]) (force simp: a last_pong_def)
    qed
  qed
qed

lemma loop_without_pong:
  "list_all (harmless \<circ> snd) fs \<Longrightarrow> (\<And>q. (q, PongIn) \<in> set fs \<Longrightarrow> d \<le> q) \<Longrightarrow> readPump_loop on_frame d fs = d"
proof (induction fs)
  case (Cons a fs)
  obtain t f where a: "a = (t, f)" by force
  have "readPump_loop on_frame d fs = d" using Cons.prems by (intro Cons.IH) auto
  with Cons.prems show ?case by (cases f rule: frame_cases) (auto simp: a)
qed simp

lemma responsive_loop:
  assumes "sorted (t0 # map fst fs)" and "list_all (harmless \<circ> snd) fs" and "D < pongWait - pingPeriod"
    and pongs: "\<And>k. 1 \<le> k \<Longrightarrow> k \<le> n \<Longrightarrow> \<exists>q. (q, PongIn) \<in> set fs \<and> tick t0 k \<le> q \<and> q \<le> tick t0 k + D"
  shows "tick t0 n + pongWait \<le> readPump_loop on_frame (t0 + pongWait) fs"
proof -
  define e where "e = readPump_loop on_frame (t0 + pongWait) fs"
  obtain p where p: "last_pong t0 fs e p" "e = p + pongWait"
    using loop_last_pong [OF assms(1) e_def] assms(2) by blast
  define k where "k = nat ((p - t0) div pingPeriod + 1)"
  have "t0 \<le> p" using p(1) by (simp add: last_pong_def)
  then have k: "1 \<le> k" "p < tick t0 k" "tick t0 k \<le> p + pingPeriod"
    by (simp_all add: k_def tick_def timing pos_imp_zdiv_nonneg_iff)
  have "n < k"
  proof (rule ccontr)
    assume "\<not> n < k"
    then obtain q where q: "(q, PongIn) \<in> set fs" "tick t0 k \<le> q" "q \<le> tick t0 k + D" using pongs [OF k(1)] by auto
    then have "p < q" "q < e" using k assms(3) p(2) by linarith+
    with p(1) q(1) show False by (auto simp: last_pong_def)
  qed
  have "tick t0 n \<le> tick t0 (k - 1)" using \<open>n < k\<close> by (simp add: tick_def timing)
  moreover have "tick t0 (k - 1) = tick t0 k - pingPeriod" using k(1) by (simp add: tick_def algebra_simps of_nat_diff)
  ultimately show ?thesis using k(3) p(2) by (simp add: e_def [symmetric])
qed

end

definition ref_on_frame :: "nat \<Rightarrow> in_frame \<Rightarrow> read_result" where
  "ref_on_frame limit f =
     (case f of
        PongIn \<Rightarrow> RunPongHandler
      | PingIn \<Rightarrow> KeepReading
      | DataIn n \<Rightarrow> if n \<le> limit then ReturnMessage else ReturnError
      | CloseIn \<Rightarrow> ReturnError)"

interpretation fr: frame_reader ref_on_frame
  by unfold_locales (simp_all add: ref_on_frame_def)

section \<open>The write pump\<close>

text \<open>
  One turn of the loop of \<^verbatim>\<open>writePump\<close>: it takes a message (available from a time on) or a tick, and
  its write takes some time; a write that would last \<^verbatim>\<open>writeWait\<close> fails at its deadline and ends the pump. The
  channel of the ticker holds one tick: those that come while it is full are dropped, so after a tick is taken the next is
  the first one later than that.
\<close>

datatype turn = TakeMessage int int | TakeTick int

record write_timer =
  w_now :: int
  w_tick :: int
  w_pings :: "int list"
  w_end :: "int option"

definition next_tick :: "int \<Rightarrow> int \<Rightarrow> int" where
  "next_tick t0 t = t0 + ((t - t0) div pingPeriod + 1) * pingPeriod"

definition write_until :: "int \<Rightarrow> int \<Rightarrow> write_timer \<Rightarrow> write_timer" where
  "write_until start dur st =
     (if dur < writeWait then st\<lparr>w_now := start + dur\<rparr>
      else st\<lparr>w_now := start + writeWait, w_end := Some (start + writeWait)\<rparr>)"

definition writePump_turn :: "int \<Rightarrow> turn \<Rightarrow> write_timer \<Rightarrow> write_timer" where
  "writePump_turn t0 tn st =
     (if w_end st \<noteq> None then st
      else (case tn of
              TakeMessage avail dur \<Rightarrow> write_until (max (w_now st) avail) dur st
            | TakeTick dur \<Rightarrow>
                (let start = max (w_now st) (w_tick st)
                 in write_until start dur (st\<lparr>w_tick := next_tick t0 start, w_pings := w_pings st @ [start]\<rparr>))))"

definition start_timer :: "int \<Rightarrow> write_timer" where
  "start_timer t0 = \<lparr>w_now = t0, w_tick = next_tick t0 t0, w_pings = [], w_end = None\<rparr>"

fun writePump_run :: "int \<Rightarrow> turn list \<Rightarrow> write_timer \<Rightarrow> write_timer" where
  "writePump_run t0 [] st = st"
| "writePump_run t0 (tn # tns) st = writePump_run t0 tns (writePump_turn t0 tn st)"

text \<open>
  A select between a waiting message and a waiting tick may take either. A run is prompt when no message is taken
  while a tick waits.
\<close>

fun prompt_turn :: "write_timer \<Rightarrow> turn \<Rightarrow> bool" where
  "prompt_turn st (TakeMessage avail dur) \<longleftrightarrow> 0 \<le> dur \<and> max (w_now st) avail < w_tick st"
| "prompt_turn st (TakeTick dur) \<longleftrightarrow> 0 \<le> dur"

fun prompt :: "int \<Rightarrow> turn list \<Rightarrow> write_timer \<Rightarrow> bool" where
  "prompt t0 [] st \<longleftrightarrow> True"
| "prompt t0 (tn # tns) st \<longleftrightarrow> prompt_turn st tn \<and> prompt t0 tns (writePump_turn t0 tn st)"

text \<open>Every tick before the next one has had its ping, less than a write deadline late.\<close>

definition timer_ok :: "int \<Rightarrow> write_timer \<Rightarrow> bool" where
  "timer_ok t0 st \<longleftrightarrow>
     w_tick st = tick t0 (Suc (length (w_pings st))) \<and>
     (w_end st = None \<longrightarrow> w_now st < w_tick st + writeWait) \<and>
     (\<forall>j<length (w_pings st). tick t0 (Suc j) \<le> w_pings st ! j \<and> w_pings st ! j < tick t0 (Suc j) + writeWait)"

lemma next_tick_on_time:
  assumes "tick t0 k \<le> t" and "t < tick t0 (Suc k)"
  shows "next_tick t0 t = tick t0 (Suc k)"
proof -
  have "(t - t0) div pingPeriod = int k"
    using assms by (intro int_div_pos_eq [where r = "t - tick t0 k"]) (simp_all add: tick_def algebra_simps)
  then show ?thesis by (simp add: next_tick_def tick_def)
qed

lemma write_until_fields [simp]:
  "w_tick (write_until a b st) = w_tick st" "w_pings (write_until a b st) = w_pings st"
  by (simp_all add: write_until_def)

lemma timer_ok_turn:
  assumes "timer_ok t0 st" and "prompt_turn st tn"
  shows "timer_ok t0 (writePump_turn t0 tn st)"
proof (cases "w_end st")
  case (Some e)
  with assms show ?thesis by (simp add: writePump_turn_def)
next
  case None
  let ?n = "length (w_pings st)"
  show ?thesis
  proof (cases tn)
    case (TakeMessage avail dur)
    with assms None show ?thesis by (auto simp: timer_ok_def writePump_turn_def write_until_def)
  next
    case (TakeTick dur)
    define start where "start = max (w_now st) (w_tick st)"
    have s: "tick t0 (Suc ?n) \<le> start" "start < tick t0 (Suc ?n) + writeWait"
      using assms(1) None by (auto simp: timer_ok_def start_def timing)
    have nt: "next_tick t0 start = tick t0 (Suc (Suc ?n))"
      using s by (intro next_tick_on_time) (auto simp: tick_def timing)
    have "start + dur < tick t0 (Suc (Suc ?n)) + writeWait" if "dur < writeWait"
      using that s by (simp add: tick_def timing)
    moreover have "writePump_turn t0 tn st =
        write_until start dur (st\<lparr>w_tick := tick t0 (Suc (Suc ?n)), w_pings := w_pings st @ [start]\<rparr>)"
      using None TakeTick nt by (simp add: writePump_turn_def start_def Let_def)
    ultimately show ?thesis
      using assms(1) None s by (auto simp: timer_ok_def write_until_def nth_append less_Suc_eq)
  qed
qed

lemma timer_ok_start: "timer_ok t0 (start_timer t0)"
  by (simp add: timer_ok_def start_timer_def next_tick_def tick_def timing)

lemma timer_ok_run: "timer_ok t0 st \<Longrightarrow> prompt t0 tns st \<Longrightarrow> timer_ok t0 (writePump_run t0 tns st)"
  by (induction tns arbitrary: st) (simp_all add: timer_ok_turn)

section \<open>Properties\<close>



text \<open>
  (C28) A silent client is detected: whatever frames arrive, the read pump ends at the latest a pong wait
  after the last pong it got (or after its start, if there was none). Data and pings of the client do not extend this.
\<close>

theorem silent_client_detected:
  assumes "frame_reader on_frame" and "sorted (t0 # map fst fs)"
  shows "\<exists>p. last_pong t0 fs (readPump_end on_frame t0 fs) p \<and> readPump_end on_frame t0 fs \<le> p + pongWait"
  using frame_reader.loop_last_pong [OF assms refl] unfolding readPump_end_def by blast

theorem silent_client_detected_witness:
  "\<exists>p. last_pong 0 [(55 * second, PongIn), (90 * second, DataIn 20)]
      (readPump_end ref_on_frame 0 [(55 * second, PongIn), (90 * second, DataIn 20)]) p \<and>
    readPump_end ref_on_frame 0 [(55 * second, PongIn), (90 * second, DataIn 20)] \<le> p + pongWait"
  by (rule silent_client_detected [OF fr.frame_reader_axioms]) (simp add: timing)

text \<open>
  A pong within the pong wait may be too late: if no pong comes before six seconds after the first ping, the
  connection is closed a pong wait after its start, though a client that answers the ping after, say, seven seconds is well
  within the documented sixty seconds.
\<close>

lemma late_pong_closed:
  assumes "frame_reader on_frame" and "sorted (t0 # map fst fs)" and "list_all (harmless \<circ> snd) fs"
    and "\<And>q. (q, PongIn) \<in> set fs \<Longrightarrow> tick t0 1 + (pongWait - pingPeriod) \<le> q"
  shows "readPump_end on_frame t0 fs = t0 + pongWait"
proof -
  have "t0 + pongWait \<le> q" if "(q, PongIn) \<in> set fs" for q
    using assms(4) [OF that] by (simp add: tick_def)
  then show ?thesis
    unfolding readPump_end_def by (intro frame_reader.loop_without_pong [OF assms(1,3)])
qed

text \<open>
  Pings are on time: in a run of the write pump that never lets a tick wait behind a second message, the ping
  of every tick is sent at the tick or less than a write deadline after it, and no tick is skipped.
\<close>

lemma pings_on_time:
  assumes "prompt t0 tns (start_timer t0)" and "st = writePump_run t0 tns (start_timer t0)" and "w_end st = None"
  shows "(\<forall>j<length (w_pings st). tick t0 (Suc j) \<le> w_pings st ! j \<and> w_pings st ! j < tick t0 (Suc j) + writeWait) \<and>
    w_now st < tick t0 (Suc (length (w_pings st))) + writeWait"
  using timer_ok_run [OF timer_ok_start assms(1)] assms(2,3) by (simp add: timer_ok_def)

end
