(* ===== verification/Ws_Main.thy ===== *)
theory Ws_Main
  imports Ws_Session Config Database_Pool
begin

text \<open>
  \<^verbatim>\<open>ws-worker/main.go\<close>: the start of the WebSocket worker, its one route, and its end. A signal shuts the hub
  down, then closes the server, then \<^verbatim>\<open>main\<close> returns; requests may come in until the server is closed, and the goroutines of the sessions run
  until the process exits. The worker of such a process is one of \<open>Ws_Session\<close>, so its invariants hold.
\<close>

section \<open>Start-up and route\<close>

record ws_server =
  ws_Addr :: string
  ws_rdb :: string
  ws_pool :: pool
  ws_worker :: worker

definition ws_boot ::
    "(string \<Rightarrow> go_error option) \<Rightarrow> (string \<Rightarrow> go_error option) \<Rightarrow> int \<Rightarrow> environ \<Rightarrow> go_error + ws_server" where
  "ws_boot open_driver ping now env =
     (let cfg = Load env
      in (case Connect open_driver ping now (MySQLDSN cfg) of
            Inl err \<Rightarrow> Inl err
          | Inr pl \<Rightarrow> Inr \<lparr>ws_Addr = WSPort cfg, ws_rdb = RedisAddr cfg, ws_pool = pl,
                         ws_worker = \<lparr>sessions = [], hub = NewHub\<rparr>\<rparr>))"

text \<open>The mux: a request for \<^verbatim>\<open>/ws\<close> is handled by \<^verbatim>\<open>ServeWS\<close>, every other path is not found (\<open>None\<close>).\<close>

definition ws_route :: "string \<Rightarrow> string \<Rightarrow> bool \<Rightarrow> conn_req option" where
  "ws_route path userID upgraded = (if path = ''/ws'' then Some (new_conn userID upgraded) else None)"

section \<open>The process\<close>

datatype ws_phase = WServing | WShutdown | WClosed | WExited nat

record 'd ws_proc =
  wp_phase :: ws_phase
  wp_worker :: worker
  wp_conns :: "conn_req list"
  wp_db :: 'd

text \<open>
  The steps. \<open>accepts\<close>: a request comes in, which ends when the server is closed; \<open>handles\<close>: a handler goes on, which ends only with the
  process, since \<^verbatim>\<open>srv.Close\<close> waits for no handler and does not touch upgraded connections; \<open>runs\<close>: a goroutine of a session; \<open>others\<close>: anybody else at the
  database; \<open>signal\<close>, \<open>closes\<close>, \<open>exits\<close>: \<^verbatim>\<open>hub.Shutdown\<close>, \<^verbatim>\<open>srv.Close\<close> and the return of \<^verbatim>\<open>main\<close>; \<open>listen_fails\<close>: \<^verbatim>\<open>log.Fatalf\<close>.
\<close>

inductive ws_proc_step :: "'d sql_db \<Rightarrow> time_json \<Rightarrow> 'd ws_proc \<Rightarrow> 'd ws_proc \<Rightarrow> bool" for db tj where
  accepts: "wp_phase p \<in> {WServing, WShutdown} \<Longrightarrow> ws_route path u up = Some q \<Longrightarrow>
    ws_proc_step db tj p (p\<lparr>wp_conns := wp_conns p @ [q]\<rparr>)"
| handles: "wp_phase p \<in> {WServing, WShutdown, WClosed} \<Longrightarrow> i < length (wp_conns p) \<Longrightarrow>
    conn_step db (wp_conns p ! i, wp_worker p, wp_db p) = (q, wk, d) \<Longrightarrow>
    ws_proc_step db tj p (p\<lparr>wp_worker := wk, wp_conns := (wp_conns p)[i := q], wp_db := d\<rparr>)"
| runs: "wp_phase p \<in> {WServing, WShutdown, WClosed} \<Longrightarrow> goroutine_step tj (wp_worker p) wk \<Longrightarrow>
    ws_proc_step db tj p (p\<lparr>wp_worker := wk\<rparr>)"
| others: "ws_proc_step db tj p (p\<lparr>wp_db := d\<rparr>)"
| signal: "wp_phase p = WServing \<Longrightarrow>
    ws_proc_step db tj p (p\<lparr>wp_phase := WShutdown, wp_worker := worker_shutdown (wp_worker p)\<rparr>)"
| closes: "wp_phase p = WShutdown \<Longrightarrow> ws_proc_step db tj p (p\<lparr>wp_phase := WClosed\<rparr>)"
| exits: "wp_phase p = WClosed \<Longrightarrow> ws_proc_step db tj p (p\<lparr>wp_phase := WExited 0\<rparr>)"
| listen_fails: "wp_phase p = WServing \<Longrightarrow> ws_proc_step db tj p (p\<lparr>wp_phase := WExited 1\<rparr>)"

text \<open>A process serves after its start-up, or exits with status 1 when the database cannot be opened or does not answer the ping.\<close>

definition ws_started :: "'d ws_proc \<Rightarrow> bool" where
  "ws_started p \<longleftrightarrow> wp_conns p = [] \<and> (\<exists>open_driver ping now env.
     (\<exists>srv. ws_boot open_driver ping now env = Inr srv \<and> wp_phase p = WServing \<and> wp_worker p = ws_worker srv) \<or>
     (\<exists>err. ws_boot open_driver ping now env = Inl err \<and> wp_phase p = WExited 1 \<and> wp_worker p = \<lparr>sessions = [], hub = NewHub\<rparr>))"

inductive ws_proc_reach :: "'d sql_db \<Rightarrow> time_json \<Rightarrow> 'd ws_proc \<Rightarrow> bool" for db tj where
  boot: "ws_started p \<Longrightarrow> ws_proc_reach db tj p"
| step: "ws_proc_reach db tj p \<Longrightarrow> ws_proc_step db tj p p' \<Longrightarrow> ws_proc_reach db tj p'"

section \<open>A process is a worker\<close>

lemma ws_boot_worker: "ws_boot open_driver ping now env = Inr srv \<Longrightarrow> ws_worker srv = \<lparr>sessions = [], hub = NewHub\<rparr>"
  by (auto simp: ws_boot_def Let_def split: sum.splits)

lemma conn_step_worker:
  assumes "conn_step db (q, wk, d) = (q', wk', d')"
  shows "wk' = wk \<or> ws_step tj wk wk'"
  using assms by (cases rule: conn_step_cases) (auto intro: ws_step.intros)

lemma ws_proc_step_worker:
  "ws_proc_step db tj p p' \<Longrightarrow> wp_worker p' = wp_worker p \<or> ws_step tj (wp_worker p) (wp_worker p')"
  by (induction rule: ws_proc_step.induct) (auto dest: conn_step_worker intro: ws_step.intros)

interpretation wp: refinement ws_started "ws_proc_step db tj" "ws_proc_reach db tj"
  "\<lambda>wk. wk = \<lparr>sessions = [], hub = NewHub\<rparr>" "ws_step tj" "ws_reach tj" wp_worker for db tj
proof
  show "P s" if "ws_proc_reach db tj s" "\<And>s. ws_started s \<Longrightarrow> P s"
    "\<And>s t. ws_proc_reach db tj s \<Longrightarrow> P s \<Longrightarrow> ws_proc_step db tj s t \<Longrightarrow> P t" for P and s :: "'a ws_proc"
    by (rule ws_proc_reach.induct [OF that(1)]) (erule that(2), erule (2) that(3))
  show "(ws_step tj)\<^sup>*\<^sup>* (wp_worker s) (wp_worker t)" if "ws_proc_step db tj s t" for s t :: "'a ws_proc"
    using ws_proc_step_worker [OF that] by auto
  show "wp_worker s = \<lparr>sessions = [], hub = NewHub\<rparr>" if "ws_started s" for s :: "'a ws_proc"
    using that ws_boot_worker by (auto simp: ws_started_def)
qed (auto intro: ws_proc_reach.intros)

text \<open>A sample process: one user has connected.\<close>

definition sample_ws :: "ref_server ws_proc" where
  "sample_ws = \<lparr>wp_phase = WServing, wp_worker = \<lparr>sessions = [], hub = NewHub\<rparr>, wp_conns = [],
     wp_db = \<lparr>ref_tables = empty_tables, ref_faults = []\<rparr>\<rparr>"

definition byte_conf :: sql_conf where
  "byte_conf = \<lparr>coll = (\<lambda>s. s), ts0 = (\<lambda>t. t), ts3 = (\<lambda>t. t)\<rparr>"

definition no_times :: time_json where
  "no_times = \<lparr>time_text = (\<lambda>t. []), time_parse = (\<lambda>s. None)\<rparr>"

lemma sample_ids: "GetChannelIDsByUser (ref_db byte_conf) u \<lparr>ref_tables = empty_tables, ref_faults = []\<rparr> =
    (Inr [], \<lparr>ref_tables = empty_tables, ref_faults = []\<rparr>)"
  by (simp add: GetChannelIDsByUser_def QueryScan_def ref_db_def ref_query_def ref_fault_def empty_tables_def)

definition sample_ws1 :: "ref_server ws_proc" where
  "sample_ws1 = sample_ws\<lparr>wp_worker := start_session ''7'' [] (wp_worker sample_ws),
     wp_conns := [(new_conn ''7'' True)\<lparr>cn_pc := ConnDone Connected\<rparr>]\<rparr>"

text \<open>A request for \<^verbatim>\<open>/ws\<close> that is handled without interruption.\<close>

lemma ws_proc_connects:
  assumes "wp_phase p \<in> {WServing, WShutdown}" and "ServeWS db u up (wp_worker p) (wp_db p) = (r, wk, d)"
  shows "(ws_proc_step db tj)\<^sup>*\<^sup>* p
    (p\<lparr>wp_worker := wk, wp_conns := wp_conns p @ [(new_conn u up)\<lparr>cn_pc := ConnDone r\<rparr>], wp_db := d\<rparr>)"
proof -
  let ?S = "ws_proc_step db tj" and ?q = "new_conn u up"
  let ?p = "\<lambda>(q, wk, d). p\<lparr>wp_worker := wk, wp_conns := wp_conns p @ [q], wp_db := d\<rparr>"
  have acc: "?S p (p\<lparr>wp_conns := wp_conns p @ [?q]\<rparr>)"
    by (rule ws_proc_step.accepts [where path = "''/ws''" and u = u and up = up]) (use assms(1) in \<open>simp_all add: ws_route_def\<close>)
  have go: "?S (?p x) (?p (conn_step db x))" for x
  proof -
    obtain q w1 d1 q' w2 d2 where x: "x = (q, w1, d1)" "conn_step db (q, w1, d1) = (q', w2, d2)" by (metis prod_cases3)
    have "?S (?p x) ((?p x)\<lparr>wp_worker := w2, wp_conns := (wp_conns (?p x))[length (wp_conns p) := q'], wp_db := d2\<rparr>)"
      by (rule ws_proc_step.handles) (use assms(1) x in auto)
    with x show ?thesis by simp
  qed
  have "?S\<^sup>*\<^sup>* (?p x) (?p ((conn_step db ^^ n) x))" for x n
    by (induction n) (auto intro: rtranclp.rtrancl_into_rtrancl go)
  from this [of "(?q, wp_worker p, wp_db p)" 3] have "?S\<^sup>*\<^sup>* (p\<lparr>wp_conns := wp_conns p @ [?q]\<rparr>)
      (p\<lparr>wp_worker := wk, wp_conns := wp_conns p @ [?q\<lparr>cn_pc := ConnDone r\<rparr>], wp_db := d\<rparr>)"
    unfolding conn_steps_ServeWS [OF assms(2)] by simp
  with acc show ?thesis by (rule converse_rtranclp_into_rtranclp)
qed

lemma sample_ws_reach: "ws_proc_reach (ref_db byte_conf) no_times sample_ws" "ws_proc_reach (ref_db byte_conf) no_times sample_ws1"
proof -
  obtain srv where "ws_boot (\<lambda>d. None) (\<lambda>d. None) 7 Map.empty = Inr srv" and "ws_worker srv = \<lparr>sessions = [], hub = NewHub\<rparr>"
    by (auto simp: ws_boot_def Connect_def Let_def)
  then have "ws_started sample_ws"
    unfolding ws_started_def by (intro conjI exI disjI1) (auto simp: sample_ws_def)
  then show r: "ws_proc_reach (ref_db byte_conf) no_times sample_ws" by (rule ws_proc_reach.boot)
  have "ServeWS (ref_db byte_conf) ''7'' True (wp_worker sample_ws) (wp_db sample_ws) =
      (Connected, start_session ''7'' [] (wp_worker sample_ws), wp_db sample_ws)"
    by (simp add: sample_ws_def ServeWS_def sample_ids)
  from wp.conc.reach_steps [OF r ws_proc_connects [OF _ this]] show "ws_proc_reach (ref_db byte_conf) no_times sample_ws1"
    by (simp add: sample_ws1_def sample_ws_def)
qed

section \<open>Properties\<close>

text \<open>
  (C26) The sessions that are registered when the signal comes are closed: whatever happens between the shutdown of the hub and the end of the
  process, their connections are closed and nothing more is written to them.
\<close>

theorem signal_closes_registered:
  assumes "ws_proc_reach db tj p" and "wp_phase p = WServing" and "map_of (hub (wp_worker p)) u = Some i"
    and "(ws_proc_step db tj)\<^sup>*\<^sup>* (p\<lparr>wp_phase := WShutdown, wp_worker := worker_shutdown (wp_worker p)\<rparr>) p'"
  shows "\<not> conn_open (sessions (wp_worker p') ! i) \<and>
    frames (sessions (wp_worker p') ! i) = frames (sessions (wp_worker p) ! i)"
proof -
  let ?wk = "wp_worker p"
  have inv: "hub_inv ?wk" using ws_reach_inv [OF wp.reach_sim [OF assms(1)]] by (simp add: ws_inv_def)
  have i: "i < length (sessions ?wk)" using inv assms(3) by (simp add: hub_inv_def)
  have c: "\<not> conn_open (sessions (worker_shutdown ?wk) ! i)" 
    using hub_tracks_sessions [OF wp.reach_sim [OF assms(1)] assms(3)] by simp
  have "(ws_step tj)\<^sup>*\<^sup>* (worker_shutdown ?wk) (wp_worker p')" using wp.steps_sim [OF wp.conc.reach_step [OF assms(1) ws_proc_step.signal [OF assms(2)]] assms(4)] by simp
  from closed_is_final [OF this, of i] c i shutdown_nth [OF i] show ?thesis
    by (auto simp: worker_shutdown_def split: prod.splits)
qed

theorem signal_closes_registered_witness:
  "\<not> conn_open (sessions (worker_shutdown (wp_worker sample_ws1)) ! 0)"
  using signal_closes_registered [OF sample_ws_reach(2) _ _ rtranclp.rtrancl_refl, of "''7''" 0]
  by (simp add: sample_ws1_def sample_ws_def start_session_def Register_def NewHub_def)

text \<open>
  A connection that comes in between the shutdown of the hub and the closing of the server is not closed: the process can exit with
  the new session open and registered.
\<close>

lemma late_connection_cut:
  assumes "ws_proc_reach db tj p" and "wp_phase p = WShutdown" and "u \<noteq> []"
    and "GetChannelIDsByUser db u (wp_db p) = (Inr ids, d)"
  shows "\<exists>p'. (ws_proc_step db tj)\<^sup>*\<^sup>* p p' \<and> wp_phase p' = WExited 0 \<and>
    (\<exists>i. map_of (hub (wp_worker p')) u = Some i \<and> i < length (sessions (wp_worker p')) \<and>
       UserID (sessions (wp_worker p') ! i) = u \<and> conn_open (sessions (wp_worker p') ! i))"
proof -
  let ?wk = "start_session u ids (wp_worker p)"
  let ?p1 = "p\<lparr>wp_worker := ?wk, wp_conns := wp_conns p @ [(new_conn u True)\<lparr>cn_pc := ConnDone Connected\<rparr>], wp_db := d\<rparr>"
  have ok: "hub_ok (hub (wp_worker p))"
    using ws_reach_inv [OF wp.reach_sim [OF assms(1)]] by (simp add: ws_inv_def hub_inv_def)
  have "ServeWS db u True (wp_worker p) (wp_db p) = (Connected, ?wk, d)" using assms(3,4) by (simp add: ServeWS_def)
  then have "(ws_proc_step db tj)\<^sup>*\<^sup>* p ?p1" using assms(2) by (intro ws_proc_connects) simp_all
  moreover have "ws_proc_step db tj ?p1 (?p1\<lparr>wp_phase := WClosed\<rparr>)" by (rule ws_proc_step.closes) (simp add: assms(2))
  moreover have "ws_proc_step db tj (?p1\<lparr>wp_phase := WClosed\<rparr>) (?p1\<lparr>wp_phase := WExited 0\<rparr>)"
    using ws_proc_step.exits [of "?p1\<lparr>wp_phase := WClosed\<rparr>"] by simp
  ultimately have "(ws_proc_step db tj)\<^sup>*\<^sup>* p (?p1\<lparr>wp_phase := WExited 0\<rparr>)"
    by (meson rtranclp.rtrancl_into_rtrancl)
  moreover have "map_of (hub ?wk) u = Some (length (sessions (wp_worker p)))"
    using hb.lookup_reg [OF ok] by (simp add: start_session_def)
  moreover have "sessions ?wk ! length (sessions (wp_worker p)) = new_session u ids" "length (sessions (wp_worker p)) < length (sessions ?wk)"
    by (simp_all add: start_session_def)
  ultimately show ?thesis
    by (intro exI [of _ "?p1\<lparr>wp_phase := WExited 0\<rparr>"] conjI exI [of _ "length (sessions (wp_worker p))"])
      (simp_all add: new_session_def)
qed

text \<open>
  No close frame is ever sent: in every state of the process, no session has had a close frame written to it. Connections
  end by being closed, at a shutdown too.
\<close>

lemma no_close_frame:
  assumes "ws_proc_reach db tj p" and "s \<in> set (sessions (wp_worker p))"
  shows "CloseFrame \<notin> set (frames s)"
  using ws_reach_inv [OF wp.reach_sim [OF assms(1)]] assms(2)
  by (auto simp: ws_inv_def session_ok_def in_set_conv_nth)

end
