(* ===== verification/Overtaking.thy ===== *)
theory Overtaking
  imports Concurrent_Send Sync_Service
begin

text \<open>
  Delta sync under concurrent sends. \<open>Sync_Service\<close> shows that a client that pages through a channel gets every message that is stored at
  that moment. Here the table changes between two syncs: identifiers are drawn before the insert, so a call that is overtaken between the two
  stores its message below an identifier that clients have already passed.
\<close>

section \<open>Pages never go back\<close>

lemma page_above: "m \<in> set (page cf t ch l) \<Longrightarrow> l < msg_ID m"
  by (auto simp: page_def message_of_def dest!: in_set_takeD messages_since_above)

text \<open>A run of one call keeps what every step of a call keeps; here, that a later state is reached from \<open>c0\<close>.\<close>

lemma steps_run:
  assumes "(cluster_step E clk cf tabs keys sent)\<^sup>*\<^sup>* c0 c" and "i < length (c_reqs c)"
    and "send_run (node_deps E clk n) k (c_reqs c ! i, node_world c n) = Some (q', w')" and "q_node (c_reqs c ! i) = n"
  shows "(cluster_step E clk cf tabs keys sent)\<^sup>*\<^sup>* c0 ((put_world n w' c)\<lparr>c_reqs := (c_reqs c)[i := q']\<rparr>)"
proof (rule call_runs [where R = "(cluster_step E clk cf tabs keys sent)\<^sup>*\<^sup>* c0", OF _ assms])
  fix c q1 w1
  assume c: "(cluster_step E clk cf tabs keys sent)\<^sup>*\<^sup>* c0 c" "i < length (c_reqs c)" "q_node (c_reqs c ! i) = n"
    "send_step (node_deps E clk n) (c_reqs c ! i, node_world c n) = Some (q1, w1)"
  have "cluster_step E clk cf tabs keys sent c ((put_world n w1 c)\<lparr>c_reqs := (c_reqs c)[i := q1]\<rparr>)"
    using cluster_step.advances [OF c(2) refl] c(3,4) by simp
  with c(1) show "(cluster_step E clk cf tabs keys sent)\<^sup>*\<^sup>* c0 ((put_world n w1 c)\<lparr>c_reqs := (c_reqs c)[i := q1]\<rparr>)"
    by (rule rtranclp.rtrancl_into_rtrancl)
qed

section \<open>A call that is overtaken\<close>

text \<open>
  Two calls on one node with a clock that never goes back. The first draws its identifier; the second draws the next one and runs to its
  end; then the first goes on.
\<close>

definition early_msg :: message where
  "early_msg = (sample_msg ''7'')\<lparr>msg_ID := 20975616\<rparr>"

definition late_msg :: message where
  "late_msg = (sample_msg ''7'')\<lparr>msg_ID := 20975617, msg_CreatedAt := sample_clock 2\<rparr>"

definition early_sent :: message where
  "early_sent = early_msg\<lparr>msg_CreatedAt := sample_clock 3\<rparr>"

definition row_of :: "message \<Rightarrow> msg_row" where
  "row_of m = \<lparr>r_id = msg_ID m, r_conversation_id = ConversationID m, r_sender_id = SenderID m, r_content = Content m,
     r_created_at = Some (msg_CreatedAt m)\<rparr>"

definition wire_of :: "message \<Rightarrow> string \<times> json" where
  "wire_of m = (''chat:room:9'', projr (Marshal_message nano_text m))"

definition over_world :: "string list \<Rightarrow> message list \<Rightarrow> generator \<Rightarrow> nat \<Rightarrow> (ref_server, ref_redis) world" where
  "over_world ks ms g k =
     \<lparr>w_db = \<lparr>ref_tables = sample_tables\<lparr>messages := map row_of ms\<rparr>, ref_faults = []\<rparr>,
      w_redis = \<lparr>rr_keys = map (\<lambda>k. (lock_name k, lock_ttl)) ks, rr_sent = map wire_of ms, rr_faults = []\<rparr>,
      w_gen = g, w_pos = k\<rparr>"

abbreviation early_call :: "message \<Rightarrow> send_pc \<Rightarrow> send_req" where
  "early_call m pc \<equiv> \<lparr>q_node = 0, q_key = ''a'', q_msg = m, q_pc = pc\<rparr>"

abbreviation late_call :: "message \<Rightarrow> send_pc \<Rightarrow> send_req" where
  "late_call m pc \<equiv> \<lparr>q_node = 0, q_key = ''b'', q_msg = m, q_pc = pc\<rparr>"

abbreviation gen1 :: "uint64 \<Rightarrow> uint64 \<Rightarrow> generator" where
  "gen1 sq st \<equiv> \<lparr>workerID = 1, sequence = sq, lastStamp = st\<rparr>"

lemma next_same: "Next sample_clock (gen1 0 5) (Suc 0) = Some (20975617, gen1 1 5, 2)"
  by (simp add: Next_same sample_clock_millis pack_def layout_defs)

lemmas over_defs = send_step_def over_world_def guard_key IsMember_def count_positive_def QueryRowScan_def sample_defs sample_msg_def
  member_matches_def same_def next_id_def time_now_def has_conversation_def insert_stmt_def Publish_def lock_name_def
  early_msg_def late_msg_def early_sent_def row_of_def wire_of_def new_req_def

lemma early_draws:
  "send_run sample_deps 3 (new_req 0 ''a'' (sample_msg ''7''), over_world [] [] (gen1 0 0) 0) =
     Some (early_call early_msg AtStamp, over_world [''a''] [] (gen1 0 5) (Suc 0))"
  by (simp add: numeral_3_eq_3 over_defs sample_next)

lemma late_runs:
  "send_run sample_deps 6 (new_req 0 ''b'' (sample_msg ''7''), over_world [''a''] [] (gen1 0 5) (Suc 0)) =
     Some (late_call late_msg (Finished None), over_world [''b'', ''a''] [late_msg] (gen1 1 5) 3)"
  by (simp add: send_run_unfold numeral_2_eq_2 over_defs next_same Marshal_message_def time_in_range_def sample_clock_def)

lemma early_ends:
  "send_run sample_deps 3 (early_call early_msg AtStamp, over_world [''b'', ''a''] [late_msg] (gen1 1 5) 3) =
     Some (early_call early_sent (Finished None), over_world [''b'', ''a''] [late_msg, early_sent] (gen1 1 5) 4)"
  by (simp add: numeral_3_eq_3 over_defs Marshal_message_def time_in_range_def sample_clock_def)

abbreviation over_step :: "(ref_server, ref_redis) cluster \<Rightarrow> (ref_server, ref_redis) cluster \<Rightarrow> bool" where
  "over_step \<equiv> cluster_step sample_deps (\<lambda>n. sample_clock) plain_conf ref_tables (\<lambda>r. map_of (rr_keys r)) rr_sent"

definition over_cluster :: "(ref_server, ref_redis) world \<Rightarrow> send_req list \<Rightarrow> (ref_server, ref_redis) cluster" where
  "over_cluster w qs = \<lparr>c_db = w_db w, c_redis = w_redis w, c_gens = (\<lambda>n. NewGenerator 1)(0 := w_gen w), c_pos = (\<lambda>n. 0)(0 := w_pos w),
     c_reqs = qs\<rparr>"

lemma over_cluster_simps [simp]:
  "c_reqs (over_cluster w qs) = qs" "c_db (over_cluster w qs) = w_db w" "c_redis (over_cluster w qs) = w_redis w"
  "node_world (over_cluster w qs) 0 = w" "(put_world 0 w' (over_cluster w qs))\<lparr>c_reqs := qs'\<rparr> = over_cluster w' qs'"
  by (simp_all add: over_cluster_def node_world_def put_world_def)

lemma over_runs:
  assumes "over_step\<^sup>*\<^sup>* c0 (over_cluster w qs)" and "i < length qs" and "send_run sample_deps k (qs ! i, w) = Some (q', w')"
    and "q_node (qs ! i) = 0"
  shows "over_step\<^sup>*\<^sup>* c0 (over_cluster w' (qs[i := q']))"
  using steps_run [OF assms(1), where i = i and n = 0 and k = k and q' = q' and w' = w'] assms(2-) by (simp add: sample_node)

lemma over_arrives:
  assumes "over_step\<^sup>*\<^sup>* c0 (over_cluster w qs)"
  shows "over_step\<^sup>*\<^sup>* c0 (over_cluster w (qs @ [new_req 0 key (sample_msg ''7'')]))"
proof -
  have "over_step (over_cluster w qs) ((over_cluster w qs)\<lparr>c_reqs := c_reqs (over_cluster w qs) @ [new_req 0 key (sample_msg ''7'')]\<rparr>)"
    by (rule cluster_step.arrives [OF sample_fits(1)])
  with assms show ?thesis by (simp add: over_cluster_def rtranclp.rtrancl_into_rtrancl)
qed

text \<open>The state in which the client syncs, and the one in which both calls have been accepted.\<close>

definition synced_cluster :: "(ref_server, ref_redis) cluster" where
  "synced_cluster = over_cluster (over_world [''b'', ''a''] [late_msg] (gen1 1 5) 3)
     [early_call early_msg AtStamp, late_call late_msg (Finished None)]"

definition both_cluster :: "(ref_server, ref_redis) cluster" where
  "both_cluster = over_cluster (over_world [''b'', ''a''] [late_msg, early_sent] (gen1 1 5) 4)
     [early_call early_sent (Finished None), late_call late_msg (Finished None)]"

lemma synced_reach: "cluster_reach sample_deps (\<lambda>n. sample_clock) plain_conf ref_tables (\<lambda>r. map_of (rr_keys r)) rr_sent (\<lambda>n. 1) synced_cluster"
proof -
  let ?c = "over_cluster (over_world [] [] (gen1 0 0) 0) []"
  have g: "NewGenerator 1 = gen1 0 0"
    using workerID_NewGenerator [of 1] by (simp add: NewGenerator_def Let_def split: if_splits)
  have c: "cluster_reach sample_deps (\<lambda>n. sample_clock) plain_conf ref_tables (\<lambda>r. map_of (rr_keys r)) rr_sent (\<lambda>n. 1) ?c"
    by (rule cluster_reach.start) (simp_all add: over_cluster_def over_world_def g fun_eq_iff)
  have "over_step\<^sup>*\<^sup>* ?c (over_cluster (over_world [] [] (gen1 0 0) 0) [new_req 0 ''a'' (sample_msg ''7'')])"
    using over_arrives [OF rtranclp.rtrancl_refl, of "over_world [] [] (gen1 0 0) 0" "[]"] by simp
  from over_runs [OF this, of 0, simplified, OF early_draws]
  have "over_step\<^sup>*\<^sup>* ?c (over_cluster (over_world [''a''] [] (gen1 0 5) (Suc 0)) [early_call early_msg AtStamp])"
    by (simp add: new_req_def)
  from over_arrives [OF this, of "''b''"]
  have "over_step\<^sup>*\<^sup>* ?c (over_cluster (over_world [''a''] [] (gen1 0 5) (Suc 0)) [early_call early_msg AtStamp, new_req 0 ''b'' (sample_msg ''7'')])"
    by simp
  from over_runs [OF this, of 1, simplified, OF late_runs] have "over_step\<^sup>*\<^sup>* ?c synced_cluster"
    by (simp add: new_req_def synced_cluster_def)
  with c show ?thesis by (rule cl.reach_steps)
qed

lemma both_after: "over_step\<^sup>*\<^sup>* synced_cluster both_cluster"
  unfolding synced_cluster_def both_cluster_def
  using over_runs [OF rtranclp.rtrancl_refl, of 0 "[early_call early_msg AtStamp, late_call late_msg (Finished None)]" 3 _ _ _, simplified,
      OF early_ends] by simp

section \<open>Property\<close>

text \<open>
  (C16) A message can be lost for delta sync: with one node and a clock that never goes back, there is a reachable state in which a client that
  syncs from the beginning gets everything that is stored, and from which a call of a member goes on and is accepted, so that its message is stored
  and published; yet no later sync of the client, from the last identifier it got or any larger one, ever returns that message.
\<close>

theorem overtaken_never_synced:
  "\<exists>c0 c1 m. cluster_reach sample_deps (\<lambda>n. sample_clock) plain_conf ref_tables (\<lambda>r. map_of (rr_keys r)) rr_sent (\<lambda>n. 1) c0 \<and> over_step\<^sup>*\<^sup>* c0 c1 \<and>
     page plain_conf (ref_tables (c_db c0)) ''9'' 0 = map message_of (messages (ref_tables (c_db c0))) \<and>
     page plain_conf (ref_tables (c_db c0)) ''9'' 0 = [late_msg] \<and>
     m = q_msg (c_reqs c1 ! 0) \<and> q_pc (c_reqs c1 ! 0) = Finished None \<and> ConversationID m = ''9'' \<and> stored (ref_tables (c_db c1)) m \<and>
     msg_ID m \<notin> {msg_ID m' |m' c2 l. over_step\<^sup>*\<^sup>* c1 c2 \<and> msg_ID late_msg \<le> l \<and> m' \<in> set (page plain_conf (ref_tables (c_db c2)) ''9'' l)}"
proof (intro exI conjI)
  show "cluster_reach sample_deps (\<lambda>n. sample_clock) plain_conf ref_tables (\<lambda>r. map_of (rr_keys r)) rr_sent (\<lambda>n. 1) synced_cluster" by (rule synced_reach)
  show "over_step\<^sup>*\<^sup>* synced_cluster both_cluster" by (rule both_after)
  show "page plain_conf (ref_tables (c_db synced_cluster)) ''9'' 0 = [late_msg]"
    "page plain_conf (ref_tables (c_db synced_cluster)) ''9'' 0 = map message_of (messages (ref_tables (c_db synced_cluster)))"
    by (simp_all add: synced_cluster_def over_world_def page_def messages_since_def row_of_def late_msg_def sample_msg_def message_of_def same_def)
  show "q_pc (c_reqs both_cluster ! 0) = Finished None" "ConversationID (q_msg (c_reqs both_cluster ! 0)) = ''9''"
    "stored (ref_tables (c_db both_cluster)) (q_msg (c_reqs both_cluster ! 0))"
    by (simp_all add: both_cluster_def early_sent_def early_msg_def sample_msg_def over_world_def stored_def row_of_def)
  have less: "msg_ID (q_msg (c_reqs both_cluster ! 0)) < msg_ID late_msg"
    by (simp add: both_cluster_def early_sent_def early_msg_def late_msg_def)
  have "msg_ID late_msg < msg_ID m'" if "msg_ID late_msg \<le> l" "m' \<in> set (page plain_conf (ref_tables (c_db c2)) ''9'' l)" for l m' and c2 :: "(ref_server, ref_redis) cluster"
    using that(1) page_above [OF that(2)] by (rule le_less_trans)
  with less show "msg_ID (q_msg (c_reqs both_cluster ! 0)) \<notin> {msg_ID m' |m' c2 l. over_step\<^sup>*\<^sup>* both_cluster c2 \<and> msg_ID late_msg \<le> l \<and>
      m' \<in> set (page plain_conf (ref_tables (c_db c2)) ''9'' l)}" by fastforce
qed simp

end
