(* ===== verification/Idempotency_Window.thy ===== *)
theory Idempotency_Window
  imports Overtaking
begin

text \<open>
  The life of idempotency keys. \<open>Concurrent_Send\<close> describes a cluster within the life of its keys. Here Redis lets time pass: a key
  disappears when the time to live that \<^verbatim>\<open>SendMessage\<close> gave it is over. Two calls with one key are accepted only if they took the lock at
  least 30 seconds apart.
\<close>

section \<open>Time\<close>

text \<open>
  The cluster, the time of the Redis server in nanoseconds, and for each call the time at which it was granted the lock (a record for the
  properties only; no step depends on it).
\<close>

record ('d, 'r) timed =
  t_cluster :: "('d, 'r) cluster"
  t_now :: int
  t_locked :: "nat \<rightharpoonup> int"

fun granted :: "send_pc \<Rightarrow> send_pc \<Rightarrow> bool" where
  "granted AtLock AtCheck \<longleftrightarrow> True"
| "granted _ _ \<longleftrightarrow> False"

text \<open>The steps of the cluster, except that others keep the keys they find with the life they have, and time.\<close>

inductive timed_step ::
    "('d, 'r) deps \<Rightarrow> (nat \<Rightarrow> clock) \<Rightarrow> sql_conf \<Rightarrow> ('d \<Rightarrow> tables) \<Rightarrow> ('r \<Rightarrow> (string \<rightharpoonup> int)) \<Rightarrow> ('r \<Rightarrow> (string \<times> json) list)
       \<Rightarrow> ('d, 'r) timed \<Rightarrow> ('d, 'r) timed \<Rightarrow> bool"
  for E clk cf tabs keys sent where
  arrives: "message_fits msg \<Longrightarrow> c = t_cluster s \<Longrightarrow>
    timed_step E clk cf tabs keys sent s (s\<lparr>t_cluster := c\<lparr>c_reqs := c_reqs c @ [new_req n key msg]\<rparr>\<rparr>)"
| advances: "c = t_cluster s \<Longrightarrow> i < length (c_reqs c) \<Longrightarrow> q = c_reqs c ! i \<Longrightarrow>
    send_step (node_deps E clk (q_node q)) (q, node_world c (q_node q)) = Some (q', w') \<Longrightarrow>
    timed_step E clk cf tabs keys sent s
      (s\<lparr>t_cluster := (put_world (q_node q) w' c)\<lparr>c_reqs := (c_reqs c)[i := q']\<rparr>,
         t_locked := (if granted (q_pc q) (q_pc q') then (t_locked s)(i \<mapsto> t_now s) else t_locked s)\<rparr>)"
| others: "c = t_cluster s \<Longrightarrow> sql_steps cf (tabs (c_db c)) (tabs d) \<Longrightarrow> keys (c_redis c) \<subseteq>\<^sub>m keys r \<Longrightarrow> sent r = sent (c_redis c) \<Longrightarrow>
    timed_step E clk cf tabs keys sent s (s\<lparr>t_cluster := c\<lparr>c_db := d, c_redis := r\<rparr>\<rparr>)"
| passes: "c = t_cluster s \<Longrightarrow> 0 \<le> dt \<Longrightarrow> keys r = age dt (keys (c_redis c)) \<Longrightarrow> sent r = sent (c_redis c) \<Longrightarrow>
    timed_step E clk cf tabs keys sent s (s\<lparr>t_cluster := c\<lparr>c_redis := r\<rparr>, t_now := t_now s + dt\<rparr>)"

inductive timed_reach ::
    "('d, 'r) deps \<Rightarrow> (nat \<Rightarrow> clock) \<Rightarrow> sql_conf \<Rightarrow> ('d \<Rightarrow> tables) \<Rightarrow> ('r \<Rightarrow> (string \<rightharpoonup> int)) \<Rightarrow> ('r \<Rightarrow> (string \<times> json) list)
       \<Rightarrow> ('d, 'r) timed \<Rightarrow> bool"
  for E clk cf tabs keys sent where
  start: "c_reqs (t_cluster s) = [] \<Longrightarrow> t_locked s = Map.empty \<Longrightarrow> timed_reach E clk cf tabs keys sent s"
| step: "timed_reach E clk cf tabs keys sent s \<Longrightarrow> timed_step E clk cf tabs keys sent s s' \<Longrightarrow> timed_reach E clk cf tabs keys sent s'"

section \<open>What a call does to the keys\<close>

context backend
begin

lemma guard_keys:
  assumes "idempotency_guard E key w = (e, w')"
  shows "keys (w_redis w) \<subseteq>\<^sub>m keys (w_redis w')"
    and "e = None \<Longrightarrow> key \<noteq> [] \<Longrightarrow> keys (w_redis w) (lock_name key) = None \<and> keys (w_redis w') (lock_name key) = Some lock_ttl"
proof -
  obtain a r where s: "SetNX (redis_client E) (lock_name key) ''1'' lock_ttl (w_redis w) = (a, r)" by force
  have w': "w_redis w' = (if key = [] then w_redis w else r)" and a: "e = None \<Longrightarrow> key \<noteq> [] \<Longrightarrow> a = Inr True"
    using assms s by (auto simp: guard_no_key guard_key split: sum.splits if_splits)
  consider (failed) x where "a = Inl x" | (got) "a = Inr True" | (taken) "a = Inr False"
    by (metis (full_types) sum.exhaust)
  then show "keys (w_redis w) \<subseteq>\<^sub>m keys (w_redis w')"
    by cases (use s setnx_error setnx_true setnx_false in \<open>fastforce simp: w' map_le_def\<close>)+
  show "keys (w_redis w) (lock_name key) = None \<and> keys (w_redis w') (lock_name key) = Some lock_ttl" if "e = None" "key \<noteq> []"
    using setnx_true [OF s [unfolded a [OF that]]] that by (simp add: w')
qed

lemma send_step_keys:
  assumes "send_step E (q, w) = Some (q', w')"
  shows "keys (w_redis w) \<subseteq>\<^sub>m keys (w_redis w') \<and> (granted (q_pc q) (q_pc q') \<longrightarrow> q_key q \<noteq> [] \<longrightarrow>
    keys (w_redis w) (lock_name (q_key q)) = None \<and> keys (w_redis w') (lock_name (q_key q)) = Some lock_ttl)"
proof (cases "q_pc q")
  case AtLock
  obtain e w1 where g: "idempotency_guard E (q_key q) w = (e, w1)" by force
  with assms AtLock guard_keys [OF g] show ?thesis by (auto simp: send_step_def split: option.splits)
next
  case AtPublish
  obtain y r where y: "Publish (redis_client E) (tjson E) (''chat:room:'' @ ConversationID (q_msg q)) (q_msg q) (w_redis w) = (y, r)"
    by force
  from assms AtPublish y Publish_log [OF y] show ?thesis by (auto simp: send_step_def)
qed (use assms in \<open>auto simp: send_step_def Let_def next_id_def time_now_def split: prod.splits option.splits if_splits\<close>)

end

section \<open>The window\<close>

fun passed :: "send_pc \<Rightarrow> bool" where
  "passed AtLock = False" | "passed (Rejected e) = False" | "passed _ = True"

lemma send_step_key: "send_step E (q, w) = Some (q', w') \<Longrightarrow> q_key q' = q_key q"
  by (cases "q_pc q") (auto simp: send_step_def Let_def split: prod.splits option.splits if_splits)

lemma send_step_passed: "send_step E (q, w) = Some (q', w') \<Longrightarrow> passed (q_pc q') \<Longrightarrow> passed (q_pc q) \<or> granted (q_pc q) (q_pc q')"
  by (cases "q_pc q") (auto simp: send_step_def Let_def split: prod.splits option.splits if_splits)

text \<open>
  A lock granted less than its life ago is still there, with the life that is left; two locks of one key are a life apart; and a call
  past the lock has a record of it.
\<close>

definition alive :: "(string \<rightharpoonup> int) \<Rightarrow> int \<Rightarrow> string \<Rightarrow> int \<Rightarrow> bool" where
  "alive ks now key t \<longleftrightarrow> t \<le> now \<and> (key \<noteq> [] \<and> now - t < lock_ttl \<longrightarrow> (\<exists>n. ks (lock_name key) = Some n \<and> lock_ttl - (now - t) \<le> n))"

definition apart :: "int \<Rightarrow> int \<Rightarrow> bool" where
  "apart t u \<longleftrightarrow> t + lock_ttl \<le> u \<or> u + lock_ttl \<le> t"

definition window_inv :: "(string \<rightharpoonup> int) \<Rightarrow> int \<Rightarrow> send_req list \<Rightarrow> (nat \<rightharpoonup> int) \<Rightarrow> bool" where
  "window_inv ks now qs lk \<longleftrightarrow>
     (\<forall>i t. lk i = Some t \<longrightarrow> i < length qs \<and> alive ks now (q_key (qs ! i)) t) \<and>
     (\<forall>i j t u. lk i = Some t \<longrightarrow> lk j = Some u \<longrightarrow> i \<noteq> j \<longrightarrow> q_key (qs ! i) = q_key (qs ! j) \<longrightarrow> q_key (qs ! i) \<noteq> [] \<longrightarrow> apart t u) \<and>
     (\<forall>i<length qs. passed (q_pc (qs ! i)) \<longrightarrow> lk i \<noteq> None)"

lemma alive_le: "alive ks now key t \<Longrightarrow> ks \<subseteq>\<^sub>m ks' \<Longrightarrow> alive ks' now key t"
  unfolding alive_def map_le_def by (metis domI)

lemma alive_age: "alive ks now key t \<Longrightarrow> 0 \<le> dt \<Longrightarrow> alive (age dt ks) (now + dt) key t"
  by (auto simp: alive_def age_def)

lemma alive_expired: "alive ks now key t \<Longrightarrow> key \<noteq> [] \<Longrightarrow> ks (lock_name key) = None \<Longrightarrow> t + lock_ttl \<le> now"
  by (force simp: alive_def)

lemma window_le: "window_inv ks now qs lk \<Longrightarrow> ks \<subseteq>\<^sub>m ks' \<Longrightarrow> window_inv ks' now qs lk"
  unfolding window_inv_def using alive_le by blast

lemma window_age: "window_inv ks now qs lk \<Longrightarrow> 0 \<le> dt \<Longrightarrow> window_inv (age dt ks) (now + dt) qs lk"
  unfolding window_inv_def using alive_age by blast

lemma window_arrives: "window_inv ks now qs lk \<Longrightarrow> window_inv ks now (qs @ [new_req n key msg]) lk"
  unfolding window_inv_def by (auto simp: nth_append new_req_def less_Suc_eq)

text \<open>A step of a call that leaves the keys' life alone and is not granted a lock, or is granted it.\<close>

lemma window_update:
  assumes "window_inv ks now qs lk" and "i < length qs" and "q_key q' = q_key (qs ! i)" and "passed (q_pc q') \<Longrightarrow> lk i \<noteq> None"
  shows "window_inv ks now (qs[i := q']) lk"
proof -
  have "q_key (qs[i := q'] ! j) = q_key (qs ! j)" for j using assms(2,3) by (cases "j = i") simp_all
  then show ?thesis using assms unfolding window_inv_def by (auto simp: nth_list_update)
qed

lemma window_grant:
  assumes "window_inv ks now qs lk" and "i < length qs" and "ks \<subseteq>\<^sub>m ks'"
    and "q_key (qs ! i) \<noteq> [] \<Longrightarrow> ks (lock_name (q_key (qs ! i))) = None \<and> ks' (lock_name (q_key (qs ! i))) = Some lock_ttl"
  shows "window_inv ks' now qs (lk(i \<mapsto> now))"
proof -
  have inv: "window_inv ks' now qs lk" by (rule window_le [OF assms(1,3)])
  have "alive ks' now (q_key (qs ! i)) now" using assms(4) by (auto simp: alive_def)
  moreover have "apart t now" if "lk j = Some t" "q_key (qs ! j) = q_key (qs ! i)" "q_key (qs ! i) \<noteq> []" for j t
  proof -
    have "alive ks now (q_key (qs ! j)) t" using assms(1) that(1) by (simp add: window_inv_def)
    from alive_expired [OF this] assms(4) that(2,3) show ?thesis by (simp add: apart_def)
  qed
  moreover have "apart t u \<Longrightarrow> apart u t" for t u by (auto simp: apart_def)
  ultimately show ?thesis using inv assms(2) unfolding window_inv_def by (auto split: if_splits)
qed

lemma timed_window:
  assumes "backend E cf tabs keys sent"
  shows "timed_reach E clk cf tabs keys sent s \<Longrightarrow>
    window_inv (keys (c_redis (t_cluster s))) (t_now s) (c_reqs (t_cluster s)) (t_locked s)"
proof (induction rule: timed_reach.induct)
  case (start s)
  then show ?case by (simp add: window_inv_def)
next
  case (step s s')
  from step.hyps(2) show ?case
  proof cases
    case (arrives msg c n key)
    then show ?thesis using window_arrives [OF step.IH] by simp
  next
    case (advances c i q q' w')
    let ?w = "node_world c (q_node q)" and ?ks = "keys (c_redis (t_cluster s))"
    note k = backend.send_step_keys [OF node_backend [OF assms] advances(5), THEN conjunct1]
      backend.send_step_keys [OF node_backend [OF assms] advances(5), THEN conjunct2, rule_format]
    have r: "w_redis ?w = c_redis (t_cluster s)" by (simp add: node_world_def advances(2))
    have i: "i < length (c_reqs (t_cluster s))" and qi: "c_reqs (t_cluster s) ! i = q" using advances(2-4) by simp_all
    have key: "q_key q' = q_key q" by (rule send_step_key [OF advances(5)])
    show ?thesis
    proof (cases "granted (q_pc q) (q_pc q')")
      case True
      have "window_inv (keys (w_redis w')) (t_now s) (c_reqs (t_cluster s)) ((t_locked s)(i \<mapsto> t_now s))"
        by (rule window_grant [OF step.IH i]) (use k True in \<open>simp_all add: r qi\<close>)
      from window_update [OF this i] key True show ?thesis by (simp add: advances(1,2) qi fun_upd_def)
    next
      case False
      have "t_locked s i \<noteq> None" if "passed (q_pc q')"
        using send_step_passed [OF advances(5) that] False step.IH i qi by (auto simp: window_inv_def)
      with window_update [OF window_le [OF step.IH k(1) [unfolded r]] i] key False show ?thesis by (simp add: advances(1,2) qi)
    qed
  next
    case (others c d r)
    then show ?thesis using window_le [OF step.IH] by simp
  next
    case (passes c dt r)
    then show ?thesis using window_age [OF step.IH] by simp
  qed
qed

section \<open>A sample run\<close>

text \<open>A call, 30 seconds, and the same request again.\<close>

definition again_sent :: message where
  "again_sent = (sample_msg ''7'')\<lparr>msg_ID := 25169920, msg_CreatedAt := sample_clock 3\<rparr>"

lemma next_later: "Next sample_clock (gen1 0 5) 2 = Some (25169920, gen1 0 6, 3)"
  using Next_fresh [of sample_clock 2 "gen1 0 5"] sample_clock_millis(3) by (simp add: numeral_2_eq_2 pack_def layout_defs)

lemma send_run_two: "send_run E 2 c = Option.bind (send_step E c) (send_step E)"
proof -
  have "send_run E 0 = Some" by (rule ext) simp
  then have "send_run E (Suc 0) = send_step E" by (intro ext) (simp del: send_run.simps(1))
  then show ?thesis by (simp only: numeral_2_eq_2 send_run.simps(2))
qed

lemma first_runs:
  "send_run sample_deps 6 (new_req 0 ''a'' (sample_msg ''7''), over_world [] [] (gen1 0 0) 0) =
     Some (early_call sent_msg (Finished None), over_world [''a''] [sent_msg] (gen1 0 5) 2)"
  by (simp add: send_run_unfold send_run_two over_defs sample_next Marshal_message_def time_in_range_def sample_clock_def sent_msg_def)

lemma again_runs:
  "send_run sample_deps 6 (new_req 0 ''a'' (sample_msg ''7''), over_world [] [sent_msg] (gen1 0 5) 2) =
     Some (early_call again_sent (Finished None), over_world [''a''] [sent_msg, again_sent] (gen1 0 6) 4)"
  by (simp add: send_run_unfold send_run_two over_defs next_later Marshal_message_def time_in_range_def sample_clock_def sent_msg_def again_sent_def)

lemma timed_runs:
  assumes "timed_reach E clk cf tabs keys sent s" and "i < length (c_reqs (t_cluster s))"
    and "send_run (node_deps E clk n) k (c_reqs (t_cluster s) ! i, node_world (t_cluster s) n) = Some (q', w')"
    and "q_node (c_reqs (t_cluster s) ! i) = n"
  shows "\<exists>lk. timed_reach E clk cf tabs keys sent
    (s\<lparr>t_cluster := (put_world n w' (t_cluster s))\<lparr>c_reqs := (c_reqs (t_cluster s))[i := q']\<rparr>, t_locked := lk\<rparr>)"
proof (rule call_runs [where R = "\<lambda>c. \<exists>lk. timed_reach E clk cf tabs keys sent (s\<lparr>t_cluster := c, t_locked := lk\<rparr>)", OF _ _ assms(2-)])
  show "\<exists>lk. timed_reach E clk cf tabs keys sent (s\<lparr>t_cluster := t_cluster s, t_locked := lk\<rparr>)"
    by (rule exI [of _ "t_locked s"]) (use assms(1) in simp)
  fix c q1 w1
  assume c: "\<exists>lk. timed_reach E clk cf tabs keys sent (s\<lparr>t_cluster := c, t_locked := lk\<rparr>)" "i < length (c_reqs c)" "q_node (c_reqs c ! i) = n"
    "send_step (node_deps E clk n) (c_reqs c ! i, node_world c n) = Some (q1, w1)"
  obtain lk where "timed_reach E clk cf tabs keys sent (s\<lparr>t_cluster := c, t_locked := lk\<rparr>)" using c(1) ..
  from timed_reach.step [OF this timed_step.advances [OF refl]] c(2-4)
  show "\<exists>lk. timed_reach E clk cf tabs keys sent (s\<lparr>t_cluster := (put_world n w1 c)\<lparr>c_reqs := (c_reqs c)[i := q1]\<rparr>, t_locked := lk\<rparr>)"
    by fastforce
qed

abbreviation again_reach :: "(ref_server, ref_redis) timed \<Rightarrow> bool" where
  "again_reach \<equiv> timed_reach sample_deps (\<lambda>n. sample_clock) plain_conf ref_tables (\<lambda>r. map_of (rr_keys r)) rr_sent"

lemma again_call:
  assumes "again_reach \<lparr>t_cluster = over_cluster w qs, t_now = t, t_locked = lk\<rparr>"
    and "send_run sample_deps 6 (new_req 0 key (sample_msg ''7''), w) = Some (q', w')"
  shows "\<exists>lk. again_reach \<lparr>t_cluster = over_cluster w' (qs @ [q']), t_now = t, t_locked = lk\<rparr>"
proof -
  let ?s = "\<lparr>t_cluster = over_cluster w (qs @ [new_req 0 key (sample_msg ''7'')]), t_now = t, t_locked = lk\<rparr>"
  have "(over_cluster w qs)\<lparr>c_reqs := qs @ [new_req 0 key (sample_msg ''7'')]\<rparr> = over_cluster w (qs @ [new_req 0 key (sample_msg ''7'')])"
    by (simp add: over_cluster_def)
  with timed_reach.step [OF assms(1) timed_step.arrives [OF sample_fits(1) refl, where n = 0 and key = key]] have s: "again_reach ?s" by simp
  have "q_node (new_req 0 key (sample_msg ''7'')) = 0" by (simp add: new_req_def)
  with timed_runs [OF s, where i = "length qs" and n = 0 and k = 6 and q' = q' and w' = w'] assms(2) show ?thesis by (simp add: sample_node)
qed

lemma again_accepted:
  "\<exists>s. again_reach s \<and> map q_pc (c_reqs (t_cluster s)) = [Finished None, Finished None] \<and> map q_key (c_reqs (t_cluster s)) = [''a'', ''a''] \<and>
     messages (ref_tables (c_db (t_cluster s))) = [row_of sent_msg, row_of again_sent]"
proof -
  have "again_reach \<lparr>t_cluster = over_cluster (over_world [] [] (gen1 0 0) 0) [], t_now = 0, t_locked = Map.empty\<rparr>"
    by (rule timed_reach.start) simp_all
  from again_call [OF this first_runs] obtain lk where
    one: "again_reach \<lparr>t_cluster = over_cluster (over_world [''a''] [sent_msg] (gen1 0 5) 2) [early_call sent_msg (Finished None)], t_now = 0, t_locked = lk\<rparr>"
    by auto
  let ?c = "over_cluster (over_world [''a''] [sent_msg] (gen1 0 5) 2) [early_call sent_msg (Finished None)]"
  let ?r = "w_redis (over_world [] [sent_msg] (gen1 0 5) 2)"
  have "again_reach \<lparr>t_cluster = ?c\<lparr>c_redis := ?r\<rparr>, t_now = 0 + lock_ttl, t_locked = lk\<rparr>"
    using timed_reach.step [OF one timed_step.passes [OF refl, where dt = lock_ttl and r = ?r]]
    by (simp add: over_world_def lock_ttl_def age_def fun_eq_iff)
  moreover have "?c\<lparr>c_redis := ?r\<rparr> = over_cluster (over_world [] [sent_msg] (gen1 0 5) 2) [early_call sent_msg (Finished None)]"
    by (simp add: over_cluster_def over_world_def)
  ultimately obtain lk where two: "again_reach \<lparr>t_cluster = over_cluster (over_world [''a''] [sent_msg, again_sent] (gen1 0 6) 4)
      [early_call sent_msg (Finished None), early_call again_sent (Finished None)], t_now = lock_ttl, t_locked = lk\<rparr>"
    using again_call [OF _ again_runs] by fastforce
  let ?s = "\<lparr>t_cluster = over_cluster (over_world [''a''] [sent_msg, again_sent] (gen1 0 6) 4)
      [early_call sent_msg (Finished None), early_call again_sent (Finished None)], t_now = lock_ttl, t_locked = lk\<rparr>"
  show ?thesis by (rule exI [of _ ?s]) (use two in \<open>simp add: over_world_def\<close>)
qed

section \<open>Properties\<close>

text \<open>
  (C3) The window of idempotency: in every interleaving of calls on every number of nodes, with keys that expire, two different
  calls made with the same key are both accepted only if Redis granted them the lock at least 30 seconds apart.
\<close>

theorem window_one_per_key:
  assumes "backend E cf tabs keys sent" and "timed_reach E clk cf tabs keys sent s" and "i \<noteq> j"
    and "i < length (c_reqs (t_cluster s))" and "j < length (c_reqs (t_cluster s))"
    and "q_key (c_reqs (t_cluster s) ! i) = key" and "q_key (c_reqs (t_cluster s) ! j) = key" and "key \<noteq> []"
    and "q_pc (c_reqs (t_cluster s) ! i) = Finished None" and "q_pc (c_reqs (t_cluster s) ! j) = Finished None"
  shows "\<exists>t u. t_locked s i = Some t \<and> t_locked s j = Some u \<and> (t + 30 * 1000000000 \<le> u \<or> u + 30 * 1000000000 \<le> t)"
proof -
  note inv = timed_window [OF assms(1,2)]
  obtain t u where "t_locked s i = Some t" "t_locked s j = Some u"
    using inv assms(4,5,9,10) by (force simp: window_inv_def)
  moreover from this inv assms(3,6-8) have "apart t u" unfolding window_inv_def by metis
  ultimately show ?thesis by (auto simp: apart_def lock_ttl_def)
qed

theorem window_one_per_key_witness:
  "\<exists>s t u. map q_pc (c_reqs (t_cluster (s :: (ref_server, ref_redis) timed))) = [Finished None, Finished None] \<and>
     messages (ref_tables (c_db (t_cluster s))) = [row_of sent_msg, row_of again_sent] \<and>
     t_locked s 0 = Some t \<and> t_locked s 1 = Some u \<and> (t + 30 * 1000000000 \<le> u \<or> u + 30 * 1000000000 \<le> t)"
proof -
  obtain s where s: "again_reach s" "map q_pc (c_reqs (t_cluster s)) = [Finished None, Finished None]"
    "map q_key (c_reqs (t_cluster s)) = [''a'', ''a'']" "messages (ref_tables (c_db (t_cluster s))) = [row_of sent_msg, row_of again_sent]"
    using again_accepted by (elim exE conjE) (rule that)
  obtain q r where qs: "c_reqs (t_cluster s) = [q, r]" using s(2) by (auto simp: map_eq_Cons_conv)
  have "\<exists>t u. t_locked s 0 = Some t \<and> t_locked s 1 = Some u \<and> (t + 30 * 1000000000 \<le> u \<or> u + 30 * 1000000000 \<le> t)"
    by (rule window_one_per_key [OF sample_backend s(1), of 0 1 "''a''"]) (use s(2,3) in \<open>simp_all add: qs\<close>)
  then obtain t u where "t_locked s 0 = Some t" "t_locked s 1 = Some u" "t + 30 * 1000000000 \<le> u \<or> u + 30 * 1000000000 \<le> t"
    by (elim exE conjE) (rule that)
  with s(2,4) show ?thesis by (intro exI conjI)
qed

end
