(* ===== verification/Concurrent_Channels.thy ===== *)
theory Concurrent_Channels
  imports Concurrent_Send
begin

text \<open>
  Concurrent creations of channels. \<open>CreateChannel\<close> inserts the channel and then enrols its members one statement at a time, so other
  requests see a channel whose members are not yet all there. Here a call is cut into its actions, as in \<open>Concurrent_Send\<close>; a call that runs alone
  is \<open>CreateChannel\<close>. Whatever the interleaving, a call that returns a channel has made one of its own and enrolled everybody it was asked to.
\<close>

section \<open>A creation in small steps\<close>

datatype chan_pc = AtValidate | AtChanDraw "string list" | AtChanStamp "string list" uint64 | AtChanInsert "string list" channel
  | AtEnrol "string list" channel | ChanDone "go_error + channel"

record chan_req =
  cq_node :: nat
  cq_name :: string
  cq_type :: string
  cq_creator :: string
  cq_members :: "string list"
  cq_pc :: chan_pc

definition new_chan_req :: "nat \<Rightarrow> string \<Rightarrow> string \<Rightarrow> string \<Rightarrow> string list \<Rightarrow> chan_req" where
  "new_chan_req n name chanType createdBy memberIDs = \<lparr>cq_node = n, cq_name = name, cq_type = chanType, cq_creator = createdBy,
     cq_members = memberIDs, cq_pc = AtValidate\<rparr>"

definition validate :: "chan_req \<Rightarrow> chan_pc" where
  "validate q =
     (if cq_type q \<noteq> ''DM'' \<and> cq_type q \<noteq> ''GROUP'' then ChanDone (Inl (ErrInvalidChannelType (cq_type q)))
      else if cq_type q = ''DM'' \<and> length (cq_members q) \<noteq> 2 then ChanDone (Inl (ErrDMMembers (length (cq_members q))))
      else AtChanDraw (if \<not> containsString (cq_members q) (cq_creator q) then cq_members q @ [cq_creator q] else cq_members q))"

definition chan_step ::
    "('d, 'r) deps \<Rightarrow> chan_req \<times> ('d, 'r) world \<Rightarrow> (chan_req \<times> ('d, 'r) world) option" where
  "chan_step E = (\<lambda>(q, w).
     case cq_pc q of
       AtValidate \<Rightarrow> Some (q\<lparr>cq_pc := validate q\<rparr>, w)
     | AtChanDraw us \<Rightarrow> map_option (\<lambda>(i, w). (q\<lparr>cq_pc := AtChanStamp us i\<rparr>, w)) (next_id E w)
     | AtChanStamp us i \<Rightarrow>
         (let (now, w) = time_now E w
          in Some (q\<lparr>cq_pc := AtChanInsert us \<lparr>channel_ID = sprintf_d i, Name = cq_name q, Type = cq_type q, CreatedBy = cq_creator q,
               channel_CreatedAt = now\<rparr>\<rparr>, w))
     | AtChanInsert us ch \<Rightarrow>
         (let (err, d) = ChannelRepository_Create (sqldb E) ch (w_db w)
          in Some (q\<lparr>cq_pc := (case err of Some e \<Rightarrow> ChanDone (Inl (ErrCreateChannel e)) | None \<Rightarrow> AtEnrol us ch)\<rparr>, w\<lparr>w_db := d\<rparr>))
     | AtEnrol us ch \<Rightarrow>
         (case us of
            [] \<Rightarrow> Some (q\<lparr>cq_pc := ChanDone (Inr ch)\<rparr>, w)
          | u # us \<Rightarrow>
              (let (err, d) = AddMember (sqldb E) (channel_ID ch) u (w_db w)
               in Some (q\<lparr>cq_pc := (case err of Some e \<Rightarrow> ChanDone (Inl (ErrAddMember u e)) | None \<Rightarrow> AtEnrol us ch)\<rparr>, w\<lparr>w_db := d\<rparr>)))
     | ChanDone r \<Rightarrow> Some (q, w))"

fun chan_run :: "('d, 'r) deps \<Rightarrow> nat \<Rightarrow> chan_req \<times> ('d, 'r) world \<Rightarrow> (chan_req \<times> ('d, 'r) world) option" where
  "chan_run E 0 c = Some c"
| "chan_run E (Suc n) c = Option.bind (chan_step E c) (chan_run E n)"

lemma chan_run_done: "cq_pc q = ChanDone r \<Longrightarrow> chan_run E n (q, w) = Some (q, w)"
  by (induction n) (simp_all add: chan_step_def)

text \<open>The loop of enrolments takes one step for each member and one to return.\<close>

lemma chan_run_enrol:
  "cq_pc q = AtEnrol us ch \<Longrightarrow> length us < k \<Longrightarrow>
   map_option (\<lambda>(q, w'). (cq_pc q, w')) (chan_run E k (q, w)) =
     (case add_members (sqldb E) (channel_ID ch) us (w_db w) of
        (Some e, d) \<Rightarrow> Some (ChanDone (Inl e), w\<lparr>w_db := d\<rparr>)
      | (None, d) \<Rightarrow> Some (ChanDone (Inr ch), w\<lparr>w_db := d\<rparr>))"
proof (induction us arbitrary: q w k)
  case Nil
  then show ?case by (cases k) (simp_all add: chan_step_def chan_run_done)
next
  case (Cons u us)
  obtain j where k: "k = Suc j" "length us < j" using Cons.prems(2) by (cases k) auto
  obtain e d where a: "AddMember (sqldb E) (channel_ID ch) u (w_db w) = (e, d)" by force
  show ?case
  proof (cases e)
    case None
    then show ?thesis
      using Cons.IH [of "q\<lparr>cq_pc := AtEnrol us ch\<rparr>" j "w\<lparr>w_db := d\<rparr>"] Cons.prems(1) k a
      by (simp add: chan_step_def split: prod.split option.split)
  next
    case (Some x)
    with Cons.prems(1) k a show ?thesis by (simp add: chan_step_def chan_run_done)
  qed
qed

text \<open>
  Run alone, one step for each listed member and six more end a call, and its result and the state it leaves are those of \<open>CreateChannel\<close>;
  it fails to end exactly when \<open>CreateChannel\<close> does.
\<close>

lemma chan_run_alone:
  "map_option (\<lambda>(q, w'). (cq_pc q, w')) (chan_run E (length us + 6) (new_chan_req n name ty creator us, w)) =
   map_option (\<lambda>(r, w'). (ChanDone r, w')) (CreateChannel E name ty creator us w)"
proof -
  let ?q = "new_chan_req n name ty creator us" and ?us = "if \<not> containsString us creator then us @ [creator] else us"
  have run: "chan_run E (length us + 6) (?q, w) = chan_run E (length us + 5) (?q\<lparr>cq_pc := validate ?q\<rparr>, w)"
    by (simp add: eval_nat_numeral chan_step_def new_chan_req_def)
  show ?thesis
  proof (cases "validate ?q")
    case (ChanDone r)
    then show ?thesis unfolding run
      by (auto simp: chan_run_done CreateChannel_def validate_def new_chan_req_def split: if_splits)
  next
    case (AtChanDraw vs)
    have valid: "vs = ?us" "\<not> (ty \<noteq> ''DM'' \<and> ty \<noteq> ''GROUP'')" "\<not> (ty = ''DM'' \<and> length us \<noteq> 2)"
      using AtChanDraw by (auto simp: validate_def new_chan_req_def split: if_splits)
    show ?thesis
    proof (cases "next_id E w")
      case None
      then show ?thesis unfolding run using valid AtChanDraw
        by (simp add: eval_nat_numeral chan_step_def CreateChannel_def Let_def)
    next
      case (Some iw)
      obtain i w1 where iw: "iw = (i, w1)" by force
      obtain now w2 where t: "time_now E w1 = (now, w2)" by force
      let ?ch = "\<lparr>channel_ID = sprintf_d i, Name = name, Type = ty, CreatedBy = creator, channel_CreatedAt = now\<rparr>"
      obtain e d where c: "ChannelRepository_Create (sqldb E) ?ch (w_db w2) = (e, d)" by force
      have "chan_run E (length us + 5) (?q\<lparr>cq_pc := validate ?q\<rparr>, w) =
          chan_run E (length us + 2) (?q\<lparr>cq_pc := (case e of Some e \<Rightarrow> ChanDone (Inl (ErrCreateChannel e)) | None \<Rightarrow> AtEnrol ?us ?ch)\<rparr>,
            w2\<lparr>w_db := d\<rparr>)"
        unfolding AtChanDraw valid(1) using Some iw t c
        by (simp add: eval_nat_numeral chan_step_def new_chan_req_def)
      note run' = run [unfolded this]
      show ?thesis
      proof (cases e)
        case (Some x)
        with \<open>next_id E w = Some iw\<close> iw t c valid show ?thesis unfolding run'
          by (auto simp: chan_run_done CreateChannel_def Let_def simp del: chan_run.simps)
      next
        case None
        have "length ?us < length us + 2" by simp
        from chan_run_enrol [OF _ this, of "?q\<lparr>cq_pc := AtEnrol ?us ?ch\<rparr>" ?ch E "w2\<lparr>w_db := d\<rparr>"] \<open>next_id E w = Some iw\<close> iw t c None valid
        show ?thesis unfolding run' by (auto simp: CreateChannel_def Let_def split: prod.splits option.splits)
      qed
    qed
  qed (auto simp: validate_def split: if_splits)
qed

section \<open>Creations on a cluster\<close>

text \<open>The channel a call has made, and the members it has not yet enrolled.\<close>

fun own_channel :: "chan_pc \<Rightarrow> channel option" where
  "own_channel (AtEnrol us ch) = Some ch" | "own_channel (ChanDone (Inr ch)) = Some ch" | "own_channel _ = None"

fun left_members :: "chan_pc \<Rightarrow> string list" where
  "left_members (AtEnrol us ch) = us" | "left_members _ = []"

definition own_ids :: "chan_req list \<Rightarrow> string set" where
  "own_ids qs = {channel_ID ch |ch q. q \<in> set qs \<and> own_channel (cq_pc q) = Some ch}"

text \<open>What others do to the tables: any statements that remove nobody from the channels \<open>C\<close>.\<close>

inductive sql_keeps :: "sql_conf \<Rightarrow> string set \<Rightarrow> tables \<Rightarrow> tables \<Rightarrow> bool" for cf C where
  none: "sql_keeps cf C t t"
| more: "sql_exec cf s t = Some t1 \<Longrightarrow> (\<forall>c u. s = DELETE_channel_members c u \<longrightarrow> (\<forall>c'\<in>C. \<not> same cf c c')) \<Longrightarrow>
    sql_keeps cf C t1 t2 \<Longrightarrow> sql_keeps cf C t t2"

definition chan_fits :: "string \<Rightarrow> string \<Rightarrow> string list \<Rightarrow> bool" where
  "chan_fits name creator us \<longleftrightarrow> length name \<le> 100 \<and> list_all (\<lambda>u. length u \<le> 64) (creator # us)"

inductive creation_step ::
    "('d, 'r) deps \<Rightarrow> (nat \<Rightarrow> clock) \<Rightarrow> sql_conf \<Rightarrow> ('d \<Rightarrow> tables)
       \<Rightarrow> ('d, 'r) cluster \<times> chan_req list \<Rightarrow> ('d, 'r) cluster \<times> chan_req list \<Rightarrow> bool"
  for E clk cf tabs where
  arrives: "chan_fits name creator us \<Longrightarrow> creation_step E clk cf tabs (c, qs) (c, qs @ [new_chan_req n name ty creator us])"
| advances: "i < length qs \<Longrightarrow>
    chan_step (node_deps E clk (cq_node (qs ! i))) (qs ! i, node_world c (cq_node (qs ! i))) = Some (q', w') \<Longrightarrow>
    creation_step E clk cf tabs (c, qs) (put_world (cq_node (qs ! i)) w' c, qs[i := q'])"
| others: "sql_keeps cf (own_ids qs) (tabs (c_db c)) (tabs (c_db c')) \<Longrightarrow> creation_step E clk cf tabs (c, qs) (c', qs)"

text \<open>Reachable states, from a cluster with the tables \<open>t0\<close>.\<close>

inductive creation_reach ::
    "('d, 'r) deps \<Rightarrow> (nat \<Rightarrow> clock) \<Rightarrow> sql_conf \<Rightarrow> ('d \<Rightarrow> tables) \<Rightarrow> tables \<Rightarrow> ('d, 'r) cluster \<times> chan_req list \<Rightarrow> bool"
  for E clk cf tabs t0 where
  start: "tabs (c_db c) = t0 \<Longrightarrow> creation_reach E clk cf tabs t0 (c, [])"
| step: "creation_reach E clk cf tabs t0 s \<Longrightarrow> creation_step E clk cf tabs s s' \<Longrightarrow> creation_reach E clk cf tabs t0 s'"

section \<open>Invariants\<close>

definition all_members :: "chan_req \<Rightarrow> string list" where
  "all_members q = with_creator (cq_members q) (cq_creator q)"

fun pc_ok :: "chan_req \<Rightarrow> chan_pc \<Rightarrow> bool" where
  "pc_ok q (AtChanDraw us) \<longleftrightarrow> us = all_members q"
| "pc_ok q (AtChanStamp us i) \<longleftrightarrow> us = all_members q"
| "pc_ok q (AtChanInsert us ch) \<longleftrightarrow> us = all_members q \<and> Name ch = cq_name q \<and> CreatedBy ch = cq_creator q \<and> length (channel_ID ch) \<le> 64"
| "pc_ok q (AtEnrol us ch) \<longleftrightarrow> set us \<subseteq> set (all_members q) \<and> length (channel_ID ch) \<le> 64"
| "pc_ok q pc \<longleftrightarrow> True"

definition chan_req_ok :: "chan_req \<Rightarrow> bool" where
  "chan_req_ok q \<longleftrightarrow> chan_fits (cq_name q) (cq_creator q) (cq_members q) \<and> pc_ok q (cq_pc q)"

text \<open>Tables that have kept users and channels, and the memberships of the channels \<open>C\<close>.\<close>

definition kept :: "sql_conf \<Rightarrow> string set \<Rightarrow> tables \<Rightarrow> tables \<Rightarrow> bool" where
  "kept cf C t t' \<longleftrightarrow> (\<forall>u. has_user cf t u \<longrightarrow> has_user cf t' u) \<and> (\<forall>c. has_conversation cf t c \<longrightarrow> has_conversation cf t' c) \<and>
     (\<forall>c\<in>C. \<forall>u. has_member cf t c u \<longrightarrow> has_member cf t' c u)"

lemma kept_refl: "kept cf C t t" by (simp add: kept_def)

lemma kept_exec:
  assumes "sql_exec cf s t = Some t'" and "\<forall>c u. s = DELETE_channel_members c u \<longrightarrow> (\<forall>c'\<in>C. \<not> same cf c c')"
  shows "kept cf C t t'"
proof (cases "\<exists>c u. s = DELETE_channel_members c u")
  case True
  then obtain c u where s: "s = DELETE_channel_members c u" by blast
  with assms(1) have "users t' = users t" "conversations t' = conversations t" by (auto split: if_splits)
  with assms(2) has_member_delete [OF assms(1) [unfolded s]] show ?thesis
    by (simp add: kept_def s has_user_def has_conversation_def)
next
  case False
  with assms(1) show ?thesis by (cases s) (auto simp: kept_def has_defs split: if_splits option.splits)
qed

lemma kept_trans: "kept cf C t t1 \<Longrightarrow> kept cf C t1 t2 \<Longrightarrow> kept cf C t t2"
  by (simp add: kept_def)

lemma sql_keeps_kept: "sql_keeps cf C t t' \<Longrightarrow> kept cf C t t'"
proof (induction rule: sql_keeps.induct)
  case (more s t t1 t2)
  from kept_trans [OF kept_exec [OF more.hyps(1,2)] more.IH] show ?case .
qed (rule kept_refl)

lemma kept_add: "kept cf C t (add_member cf c u t)" "kept cf C t (add_channel cf ch k t)"
  by (simp_all add: kept_def has_member_add)

text \<open>The effect of a step of a call on what it owns.\<close>

definition chan_effect :: "sql_conf \<Rightarrow> chan_req \<Rightarrow> tables \<Rightarrow> chan_req \<Rightarrow> tables \<Rightarrow> bool" where
  "chan_effect cf q t q' t' \<longleftrightarrow> (\<forall>C. kept cf C t t') \<and>
     (case own_channel (cq_pc q') of
        None \<Rightarrow> True
      | Some ch \<Rightarrow>
          own_channel (cq_pc q) = Some ch \<and>
            (left_members (cq_pc q') = left_members (cq_pc q) \<or>
             (\<exists>u. left_members (cq_pc q) = u # left_members (cq_pc q') \<and> t' = add_member cf (channel_ID ch) u t)) \<or>
          own_channel (cq_pc q) = None \<and> left_members (cq_pc q') = all_members q \<and>
            \<not> has_conversation cf t (channel_ID ch) \<and> has_conversation cf t' (channel_ID ch))"

lemma chan_step_static:
  assumes "chan_step E (q, w) = Some (q', w')"
  shows "q' = q\<lparr>cq_pc := cq_pc q'\<rparr>"
  using assms by (cases "cq_pc q") (auto simp: chan_step_def split: prod.splits list.splits)

lemma static_simps:
  "chan_step E (q, w) = Some (q', w') \<Longrightarrow> cq_node q' = cq_node q \<and> all_members q' = all_members q \<and>
     cq_name q' = cq_name q \<and> cq_creator q' = cq_creator q \<and> cq_members q' = cq_members q"
  by (drule chan_step_static, cases q, cases q') (simp add: all_members_def)

lemma members_fit: "chan_req_ok q \<Longrightarrow> u \<in> set (all_members q) \<Longrightarrow> length u \<le> 64"
  by (auto simp: chan_req_ok_def chan_fits_def all_members_def with_creator_def list_all_iff split: if_splits)

context backend
begin

lemma create_effect:
  assumes "chan_step E (q, w) = Some (q', w')" and "chan_req_ok q" and "cq_pc q = AtChanInsert us ch"
  shows "chan_req_ok q' \<and> chan_effect cf q (tabs (w_db w)) q' (tabs (w_db w'))"
proof -
  obtain e d where x: "ChannelRepository_Create (sqldb E) ch (w_db w) = (e, d)" by force
  have us: "us = all_members q" "length (channel_ID ch) \<le> 64" "length (Name ch) \<le> 100" "length (CreatedBy ch) \<le> 64"
    using assms(2,3) by (auto simp: chan_req_ok_def chan_fits_def)
  show ?thesis
  proof (cases e)
    case None
    with assms x us ChannelRepository_Create_contract(1) [OF x us(2-)] show ?thesis
      by (auto simp: chan_step_def chan_req_ok_def all_members_def chan_effect_def kept_add)
  next
    case (Some y)
    with assms x ChannelRepository_Create_contract(2) [OF x us(2-)] show ?thesis
      by (auto simp: chan_step_def chan_req_ok_def chan_effect_def kept_add kept_refl)
  qed
qed

lemma enrol_effect:
  assumes "chan_step E (q, w) = Some (q', w')" and "chan_req_ok q" and "cq_pc q = AtEnrol (u # vs) ch"
  shows "chan_req_ok q' \<and> chan_effect cf q (tabs (w_db w)) q' (tabs (w_db w'))"
proof -
  obtain e d where x: "AddMember (sqldb E) (channel_ID ch) u (w_db w) = (e, d)" by force
  have len: "length (channel_ID ch) \<le> 64" "length u \<le> 64"
    using assms members_fit [OF assms(2), of u] by (auto simp: chan_req_ok_def)
  show ?thesis
  proof (cases e)
    case None
    with assms x AddMember_contract(1) [OF x len] show ?thesis
      by (auto simp: chan_step_def chan_req_ok_def all_members_def chan_effect_def kept_add)
  next
    case (Some y)
    with assms x AddMember_contract(2) [OF x len Some] show ?thesis
      by (auto simp: chan_step_def chan_req_ok_def chan_effect_def kept_add kept_refl)
  qed
qed

lemma chan_step_effect:
  assumes "chan_step E (q, w) = Some (q', w')" and "chan_req_ok q"
  shows "chan_req_ok q' \<and> chan_effect cf q (tabs (w_db w)) q' (tabs (w_db w'))"
proof (cases "cq_pc q")
  case AtValidate
  with assms show ?thesis
    by (auto simp: chan_step_def chan_req_ok_def validate_def all_members_def with_creator_def containsString_iff chan_effect_def kept_refl)
next
  case (AtChanDraw us)
  with assms next_id_keeps show ?thesis
    by (fastforce simp: chan_step_def chan_req_ok_def all_members_def chan_effect_def kept_refl)
next
  case (AtChanStamp us i)
  have "length (sprintf_d i) \<le> 64" using length_sprintf_d [of i] by simp
  with AtChanStamp assms time_now_keeps show ?thesis
    by (fastforce simp: chan_step_def chan_req_ok_def all_members_def chan_effect_def kept_refl split: prod.splits)
next
  case (AtChanInsert us ch)
  from create_effect [OF assms this] show ?thesis .
next
  case (AtEnrol us ch)
  show ?thesis
  proof (cases us)
    case Nil
    with assms AtEnrol show ?thesis by (auto simp: chan_step_def chan_req_ok_def chan_effect_def kept_refl)
  next
    case (Cons u vs)
    from enrol_effect [OF assms AtEnrol [unfolded this]] show ?thesis .
  qed
next
  case (ChanDone r)
  with assms show ?thesis by (cases r) (auto simp: chan_step_def chan_effect_def kept_refl)
qed

end

definition call_inv :: "sql_conf \<Rightarrow> tables \<Rightarrow> tables \<Rightarrow> chan_req \<Rightarrow> bool" where
  "call_inv cf t0 t q \<longleftrightarrow> chan_req_ok q \<and> (\<forall>ch. own_channel (cq_pc q) = Some ch \<longrightarrow> has_conversation cf t (channel_ID ch) \<and>
     (\<forall>u\<in>set (all_members q). has_user cf t0 u \<longrightarrow> u \<in> set (left_members (cq_pc q)) \<or> has_member cf t (channel_ID ch) u))"

definition creation_inv :: "sql_conf \<Rightarrow> tables \<Rightarrow> tables \<Rightarrow> chan_req list \<Rightarrow> bool" where
  "creation_inv cf t0 t qs \<longleftrightarrow> (\<forall>u. has_user cf t0 u \<longrightarrow> has_user cf t u) \<and> (\<forall>q\<in>set qs. call_inv cf t0 t q) \<and>
     (\<forall>i<length qs. \<forall>j<length qs. \<forall>ch ch'. i \<noteq> j \<longrightarrow> own_channel (cq_pc (qs ! i)) = Some ch \<longrightarrow> own_channel (cq_pc (qs ! j)) = Some ch' \<longrightarrow>
        \<not> same cf (channel_ID ch) (channel_ID ch'))"

lemma call_inv_kept:
  assumes "call_inv cf t0 t q" and "kept cf C t t'" and "\<And>ch. own_channel (cq_pc q) = Some ch \<Longrightarrow> channel_ID ch \<in> C"
  shows "call_inv cf t0 t' q"
  using assms unfolding call_inv_def kept_def by blast

lemma call_inv_step:
  assumes "call_inv cf t0 t q" and "chan_req_ok q'" and "chan_effect cf q t q' t'" and "all_members q' = all_members q"
    and "\<forall>u. has_user cf t0 u \<longrightarrow> has_user cf t u"
  shows "call_inv cf t0 t' q'"
  unfolding call_inv_def
proof (intro conjI allI impI assms(2))
  fix ch assume ch: "own_channel (cq_pc q') = Some ch"
  have k: "kept cf UNIV t t'" using assms(3) by (simp add: chan_effect_def)
  have "has_conversation cf t' (channel_ID ch) \<and>
     (\<forall>u\<in>set (all_members q'). has_user cf t0 u \<longrightarrow> u \<in> set (left_members (cq_pc q')) \<or> has_member cf t' (channel_ID ch) u)"
  proof (cases "own_channel (cq_pc q)")
    case None
    with assms(3,4) ch show ?thesis by (simp add: chan_effect_def)
  next
    case (Some ch')
    with assms(3) ch have same: "ch' = ch" by (auto simp: chan_effect_def)
    have old: "call_inv cf t0 t' q" using call_inv_kept [OF assms(1) k] by simp
    have conv: "has_conversation cf t (channel_ID ch)" using assms(1) Some same by (simp add: call_inv_def)
    from assms(3) ch Some have "left_members (cq_pc q') = left_members (cq_pc q) \<or>
        (\<exists>u. left_members (cq_pc q) = u # left_members (cq_pc q') \<and> t' = add_member cf (channel_ID ch) u t)"
      by (auto simp: chan_effect_def)
    with old Some same conv assms(4,5) show ?thesis by (auto simp: call_inv_def has_member_add) (metis same_refl)+
  qed
  then show "has_conversation cf t' (channel_ID ch)"
    and "\<forall>u\<in>set (all_members q'). has_user cf t0 u \<longrightarrow> u \<in> set (left_members (cq_pc q')) \<or> has_member cf t' (channel_ID ch) u"
    by blast+
qed

lemma same_conversation: "same cf c c' \<Longrightarrow> has_conversation cf t c \<longleftrightarrow> has_conversation cf t c'"
  by (simp add: has_conversation_def same_def)

lemma creation_inv_step:
  assumes inv: "creation_inv cf t0 t qs" and i: "i < length qs" and ok: "chan_req_ok q'" and eff: "chan_effect cf (qs ! i) t q' t'"
    and all: "all_members q' = all_members (qs ! i)"
  shows "creation_inv cf t0 t' (qs[i := q'])"
proof -
  have k: "kept cf UNIV t t'" using eff by (simp add: chan_effect_def)
  have users: "\<forall>u. has_user cf t0 u \<longrightarrow> has_user cf t' u" using inv k by (auto simp: creation_inv_def kept_def)
  have "call_inv cf t0 t' q'" using inv i by (intro call_inv_step [OF _ ok eff all]) (simp_all add: creation_inv_def)
  moreover have "call_inv cf t0 t' q" if "q \<in> set qs" for q using inv that call_inv_kept [OF _ k] by (simp add: creation_inv_def)
  ultimately have calls: "\<forall>q\<in>set (qs[i := q']). call_inv cf t0 t' q" using set_update_subset_insert [of qs i q'] by blast
  have other: "\<not> same cf (channel_ID ch) (channel_ID ch')"
    if own: "own_channel (cq_pc q') = Some ch" and j: "j < length qs" "j \<noteq> i" "own_channel (cq_pc (qs ! j)) = Some ch'" for j ch ch'
  proof (cases "own_channel (cq_pc (qs ! i))")
    case None
    with eff own have "\<not> has_conversation cf t (channel_ID ch)" by (simp add: chan_effect_def)
    moreover have "call_inv cf t0 t (qs ! j)" using inv j(1) by (simp add: creation_inv_def)
    then have "has_conversation cf t (channel_ID ch')" using j(3) by (simp add: call_inv_def)
    ultimately show ?thesis using same_conversation by blast
  next
    case (Some x)
    with eff own have "x = ch" by (auto simp: chan_effect_def)
    with inv i j Some show ?thesis by (simp add: creation_inv_def)
  qed
  have "\<not> same cf (channel_ID ch) (channel_ID ch')"
    if "j < length qs" "l < length qs" "j \<noteq> l" "own_channel (cq_pc (qs[i := q'] ! j)) = Some ch" "own_channel (cq_pc (qs[i := q'] ! l)) = Some ch'" for j l ch ch'
    using inv i that other [of ch l ch'] other [of ch' j ch]
    by (cases "j = i"; cases "l = i") (auto simp: creation_inv_def same_def)
  with users calls show ?thesis by (simp add: creation_inv_def)
qed

lemma creation_reach_inv:
  assumes "backend E cf tabs keys sent" and "creation_reach E clk cf tabs t0 s"
  shows "creation_inv cf t0 (tabs (c_db (fst s))) (snd s)"
  using assms(2)
proof induction
  case (start c)
  then show ?case by (simp add: creation_inv_def)
next
  case (step s s')
  from step.hyps(2) show ?case
  proof cases
    case (arrives name creator us c qs n ty)
    have "call_inv cf t0 (tabs (c_db c)) (new_chan_req n name ty creator us)"
      using arrives(3) by (simp add: call_inv_def chan_req_ok_def new_chan_req_def)
    with step.IH arrives(1,2) show ?thesis by (auto simp: creation_inv_def nth_append less_Suc_eq new_chan_req_def)
  next
    case (advances i qs c q' w')
    have inv: "creation_inv cf t0 (tabs (c_db c)) qs" using step.IH advances(1) by simp
    have "chan_req_ok (qs ! i)" using inv advances(3) by (auto simp: creation_inv_def call_inv_def)
    from backend.chan_step_effect [OF node_backend [OF assms(1)] advances(4) this]
    show ?thesis using creation_inv_step [OF inv advances(3)] static_simps [OF advances(4)] advances(2)
      by (simp add: node_world_def)
  next
    case (others qs c c')
    have k: "kept cf (own_ids qs) (tabs (c_db c)) (tabs (c_db c'))" by (rule sql_keeps_kept [OF others(3)])
    have "call_inv cf t0 (tabs (c_db c')) q" if "q \<in> set qs" for q
      by (rule call_inv_kept [OF _ k]) (use step.IH others(1) that in \<open>auto simp: creation_inv_def own_ids_def\<close>)
    with step.IH others(1,2) k show ?thesis by (auto simp: creation_inv_def kept_def)
  qed
qed

section \<open>A sample run\<close>

lemma chan_step_node: "chan_step E (q, w) = Some (q', w') \<Longrightarrow> cq_node q' = cq_node q"
  using static_simps by blast

lemma creation_runs:
  assumes "creation_reach E clk cf tabs t0 (c, qs)" and "i < length qs" and "cq_node (qs ! i) = n"
    and "chan_run (node_deps E clk n) k (qs ! i, node_world c n) = Some (q', w')"
  shows "creation_reach E clk cf tabs t0 (put_world n w' c, qs[i := q'])"
  using assms
proof (induction k arbitrary: c qs)
  case 0
  then have "put_world n w' c = c" "qs[i := q'] = qs" by (auto simp: put_world_def node_world_def)
  with 0 show ?case by simp
next
  case (Suc k)
  obtain q1 w1 where s: "chan_step (node_deps E clk n) (qs ! i, node_world c n) = Some (q1, w1)"
    and r: "chan_run (node_deps E clk n) k (q1, w1) = Some (q', w')"
    using Suc.prems(4) by (auto simp: bind_eq_Some_conv)
  have n: "cq_node q1 = n" using chan_step_node [OF s] Suc.prems(3) by simp
  have "creation_step E clk cf tabs (c, qs) (put_world n w1 c, qs[i := q1])"
    using creation_step.advances [OF Suc.prems(2), of E clk c q1 w1 cf tabs] s Suc.prems(3) by simp
  with Suc.prems(1) have "creation_reach E clk cf tabs t0 (put_world n w1 c, qs[i := q1])" by (rule creation_reach.step)
  moreover have w: "node_world (put_world n w1 c) n = w1" and p: "put_world n w' (put_world n w1 c) = put_world n w' c"
    by (simp_all add: put_world_def node_world_def)
  ultimately show ?case using Suc.IH [of "put_world n w1 c" "qs[i := q1]", unfolded w p] r n Suc.prems(2) by simp
qed

definition trio_cluster :: "(ref_server, ref_redis) cluster" where
  "trio_cluster = sample_cluster\<lparr>c_db := w_db trio_world\<rparr>"

lemma trio_node: "node_world trio_cluster 0 = trio_world"
proof -
  have "NewGenerator 1 = \<lparr>workerID = 1, sequence = 0, lastStamp = 0\<rparr>"
    using workerID_NewGenerator [of 1] by (simp add: NewGenerator_def Let_def split: if_splits)
  then show ?thesis by (simp add: node_world_def trio_cluster_def sample_cluster_def trio_world_def sample_world_def)
qed

lemma trio_created:
  "\<exists>c q. creation_reach sample_deps (\<lambda>n. sample_clock) plain_conf ref_tables (ref_tables (w_db trio_world)) (c, [q]) \<and>
     cq_pc q = ChanDone (Inr new_channel) \<and> cq_members q = [''7'', ''8''] \<and> cq_creator q = ''6'' \<and> c_db c = w_db after_channel"
proof -
  let ?q = "new_chan_req 0 ''x'' ''DM'' ''6'' [''7'', ''8'']"
  have f: "chan_fits ''x'' ''6'' [''7'', ''8'']" by (simp add: chan_fits_def)
  have "creation_reach sample_deps (\<lambda>n. sample_clock) plain_conf ref_tables (ref_tables (w_db trio_world)) (trio_cluster, [])"
    by (rule creation_reach.start) (simp add: trio_cluster_def)
  from creation_reach.step [OF this creation_step.arrives [OF f, where n = 0 and ty = "''DM''"]]
  have r: "creation_reach sample_deps (\<lambda>n. sample_clock) plain_conf ref_tables (ref_tables (w_db trio_world)) (trio_cluster, [?q])" by simp
  obtain q' where q': "chan_run sample_deps (length [''7'', ''8''] + 6) (?q, trio_world) = Some (q', after_channel)"
    and pc: "cq_pc q' = ChanDone (Inr new_channel)"
    using chan_run_alone [of sample_deps "[''7'', ''8'']" 0 "''x''" "''DM''" "''6''" trio_world] sample_channel
    by (auto simp del: chan_run.simps)
  have static: "cq_members q = cq_members p \<and> cq_creator q = cq_creator p" if "chan_run E k (p, w) = Some (q, w')" for E :: "('a, 'b) deps" and k p q w w'
    using that
  proof (induction k arbitrary: p w)
    case (Suc k)
    then obtain p1 w1 where "chan_step E (p, w) = Some (p1, w1)" "chan_run E k (p1, w1) = Some (q, w')" by (auto simp: bind_eq_Some_conv)
    with Suc.IH static_simps show ?case by metis
  qed simp
  have "creation_reach sample_deps (\<lambda>n. sample_clock) plain_conf ref_tables (ref_tables (w_db trio_world)) (put_world 0 after_channel trio_cluster, [q'])"
    using creation_runs [OF r, where i = 0 and n = 0, of _ q' after_channel] q' by (simp add: sample_node trio_node new_chan_req_def del: chan_run.simps)
  moreover have "c_db (put_world 0 after_channel trio_cluster) = w_db after_channel" by simp
  moreover have "cq_members q' = [''7'', ''8'']" "cq_creator q' = ''6''" using static [OF q'] by (simp_all add: new_chan_req_def)
  moreover note pc
  ultimately show ?thesis by (intro exI conjI)
qed

section \<open>Properties\<close>

text \<open>
  (C30) Concurrent creations: in every interleaving with other creations and other requests that remove nobody from the new
  channels, a call that has returned a channel has enrolled the creator and every listed user who was known at the beginning, and its
  channel is not the channel of any other call.
\<close>

theorem creations_complete:
  assumes "backend E cf tabs keys sent" and "creation_reach E clk cf tabs t0 (c, qs)"
    and "i < length qs" and "cq_pc (qs ! i) = ChanDone (Inr ch)"
  shows "(\<forall>u\<in>set (cq_creator (qs ! i) # cq_members (qs ! i)). has_user cf t0 u \<longrightarrow> has_member cf (tabs (c_db c)) (channel_ID ch) u) \<and>
    (\<forall>j<length qs. \<forall>ch'. j \<noteq> i \<longrightarrow> cq_pc (qs ! j) = ChanDone (Inr ch') \<longrightarrow> \<not> same cf (channel_ID ch) (channel_ID ch'))"
proof -
  have inv: "creation_inv cf t0 (tabs (c_db c)) qs" using creation_reach_inv [OF assms(1,2)] by simp
  have "call_inv cf t0 (tabs (c_db c)) (qs ! i)" using inv assms(3) by (simp add: creation_inv_def)
  then have "\<forall>u\<in>set (all_members (qs ! i)). has_user cf t0 u \<longrightarrow> has_member cf (tabs (c_db c)) (channel_ID ch) u"
    using assms(4) by (simp add: call_inv_def)
  moreover have "set (all_members (qs ! i)) = set (cq_creator (qs ! i) # cq_members (qs ! i))"
    by (auto simp: all_members_def with_creator_def)
  moreover have "\<not> same cf (channel_ID ch) (channel_ID ch')" if "j < length qs" "j \<noteq> i" "cq_pc (qs ! j) = ChanDone (Inr ch')" for j ch'
    using inv assms(3,4) that by (simp add: creation_inv_def)
  ultimately show ?thesis by simp
qed

theorem creations_complete_witness:
  "has_member plain_conf (ref_tables (w_db after_channel)) ''20975616'' ''8''"
proof -
  obtain c q where q: "creation_reach sample_deps (\<lambda>n. sample_clock) plain_conf ref_tables (ref_tables (w_db trio_world)) (c, [q])"
    "cq_pc q = ChanDone (Inr new_channel)" "cq_members q = [''7'', ''8'']" "cq_creator q = ''6''" "c_db c = w_db after_channel"
    using trio_created by (elim exE conjE) (rule that)
  have "has_user plain_conf (ref_tables (w_db trio_world)) ''8''" by (simp add: has_defs sample_defs trio_world_def)
  with creations_complete [OF sample_backend q(1), of 0 new_channel] q(2-) show ?thesis by (simp add: new_channel_def)
qed

end
