(* ===== verification/Realtime.thy ===== *)
theory Realtime
  imports "HOL-Library.Sublist" Concurrent_Send Sync_Service Ws_Session Json_Text
begin

text \<open>
  The two programs together: the API nodes of \<open>Concurrent_Send\<close>, the WebSocket workers of \<open>Ws_Session\<close>, and between them one MySQL and
  one Redis. A request comes in as text; a published message is the text of its JSON value; a listener reads what is published in
  the room of its channel, in order, each message at most once, and may miss any of them (Redis keeps nothing for a subscriber that is
  not there, and the client library drops what a slow one does not take). The properties are those of the real-time path: what a client is
  sent is stored, belongs to a channel of the user, comes in the order of publication, and comes once.
\<close>

section \<open>The system\<close>

text \<open>
  For each worker, session and channel the cursor is the number of published messages the listener has passed. The channels of
  a session are distinct (\<open>listeners_distinct\<close>), so a channel identifies a listener.
\<close>

record ('d, 'r) system =
  sy_api :: "('d, 'r) cluster"
  sy_ws :: "nat \<Rightarrow> worker"
  sy_conns :: "nat \<Rightarrow> conn_req list"
  sy_cursor :: "nat \<Rightarrow> cref \<Rightarrow> string \<Rightarrow> nat"

definition pass :: "nat \<Rightarrow> cref \<Rightarrow> string \<Rightarrow> nat \<Rightarrow> (nat \<Rightarrow> cref \<Rightarrow> string \<Rightarrow> nat) \<Rightarrow> nat \<Rightarrow> cref \<Rightarrow> string \<Rightarrow> nat" where
  "pass n i ch p cur = cur(n := (cur n)(i := (cur n i)(ch := p)))"

definition subscribe :: "nat \<Rightarrow> cref \<Rightarrow> nat \<Rightarrow> (nat \<Rightarrow> cref \<Rightarrow> string \<Rightarrow> nat) \<Rightarrow> nat \<Rightarrow> cref \<Rightarrow> string \<Rightarrow> nat" where
  "subscribe n i p cur = cur(n := (cur n)(i := (\<lambda>ch. p)))"

text \<open>
  The steps. \<open>request\<close>: the body of a \<^verbatim>\<open>POST /api/v1/messages\<close> was decoded and checked by the handler of some node; \<open>api\<close>: any step of the
  API cluster that is not an arrival (a call goes on, other writers); \<open>dial\<close>: a request for a WebSocket; \<open>connect\<close>: its handler goes
  on, whatever becomes of it; \<open>receive\<close>: a listener takes a message published in its room; \<open>pump\<close>: any other turn of a goroutine; \<open>shutdown\<close>.
\<close>

inductive system_step ::
    "('d, 'r) deps \<Rightarrow> (nat \<Rightarrow> clock) \<Rightarrow> sql_conf \<Rightarrow> ('d \<Rightarrow> tables) \<Rightarrow> ('r \<Rightarrow> (string \<rightharpoonup> int)) \<Rightarrow> ('r \<Rightarrow> (string \<times> json) list)
       \<Rightarrow> ('d, 'r) system \<Rightarrow> ('d, 'r) system \<Rightarrow> bool"
  for E clk cf tabs keys sent where
  request: "Body r = json_decode text \<Longrightarrow> send_request r = Some msg \<Longrightarrow> message_fits msg \<Longrightarrow>
    system_step E clk cf tabs keys sent s
      (s\<lparr>sy_api := (sy_api s)\<lparr>c_reqs := c_reqs (sy_api s) @ [new_req n (idempotency_header r) msg]\<rparr>\<rparr>)"
| api: "cluster_step E clk cf tabs keys sent (sy_api s) c \<Longrightarrow> length (c_reqs c) = length (c_reqs (sy_api s)) \<Longrightarrow>
    system_step E clk cf tabs keys sent s (s\<lparr>sy_api := c\<rparr>)"
| dial: "system_step E clk cf tabs keys sent s (s\<lparr>sy_conns := (sy_conns s)(n := sy_conns s n @ [new_conn u upgraded])\<rparr>)"
| connect: "j < length (sy_conns s n) \<Longrightarrow> conn_step (sqldb E) (sy_conns s n ! j, sy_ws s n, c_db (sy_api s)) = (q, wk, d) \<Longrightarrow>
    system_step E clk cf tabs keys sent s
      (s\<lparr>sy_api := (sy_api s)\<lparr>c_db := d\<rparr>, sy_ws := (sy_ws s)(n := wk), sy_conns := (sy_conns s)(n := (sy_conns s n)[j := q]),
         sy_cursor := subscribe n (length (sessions (sy_ws s n))) (length (sent (c_redis (sy_api s)))) (sy_cursor s)\<rparr>)"
| receive: "i < length (sessions (sy_ws s n)) \<Longrightarrow> ch \<in> set (listeners (sessions (sy_ws s n) ! i)) \<Longrightarrow>
    sy_cursor s n i ch \<le> p \<Longrightarrow> p < length (sent (c_redis (sy_api s))) \<Longrightarrow>
    sent (c_redis (sy_api s)) ! p = (''chat:room:'' @ ch, v) \<Longrightarrow>
    system_step E clk cf tabs keys sent s
      (s\<lparr>sy_ws := (sy_ws s)(n := on_session i (listenToRedis (tjson E) (json_unmarshal (render v))) (sy_ws s n)),
         sy_cursor := pass n i ch (Suc p) (sy_cursor s)\<rparr>)"
| pump: "pump_step (sy_ws s n) wk \<Longrightarrow> system_step E clk cf tabs keys sent s (s\<lparr>sy_ws := (sy_ws s)(n := wk)\<rparr>)"
| shutdown: "system_step E clk cf tabs keys sent s (s\<lparr>sy_ws := (sy_ws s)(n := worker_shutdown (sy_ws s n))\<rparr>)"

inductive system_reach ::
    "('d, 'r) deps \<Rightarrow> (nat \<Rightarrow> clock) \<Rightarrow> sql_conf \<Rightarrow> ('d \<Rightarrow> tables) \<Rightarrow> ('r \<Rightarrow> (string \<rightharpoonup> int)) \<Rightarrow> ('r \<Rightarrow> (string \<times> json) list)
       \<Rightarrow> (nat \<Rightarrow> int64) \<Rightarrow> ('d, 'r) system \<Rightarrow> bool"
  for E clk cf tabs keys sent wid where
  start: "c_reqs (sy_api s) = [] \<Longrightarrow> sent (c_redis (sy_api s)) = [] \<Longrightarrow> c_gens (sy_api s) = (\<lambda>n. NewGenerator (wid n)) \<Longrightarrow>
    c_pos (sy_api s) = (\<lambda>n. 0) \<Longrightarrow> tables_ok cf (tabs (c_db (sy_api s))) \<Longrightarrow> sy_ws s = (\<lambda>n. \<lparr>sessions = [], hub = NewHub\<rparr>) \<Longrightarrow>
    sy_conns s = (\<lambda>n. []) \<Longrightarrow> system_reach E clk cf tabs keys sent wid s"
| step: "system_reach E clk cf tabs keys sent wid s \<Longrightarrow> system_step E clk cf tabs keys sent s s' \<Longrightarrow>
    system_reach E clk cf tabs keys sent wid s'"

section \<open>Each part runs as before\<close>

lemma conn_step_tabs:
  assumes "mysql_server db cf tabs" and "conn_step db (q, wk, d) = (q', wk', d')"
  shows "tabs d' = tabs d"
  using assms(2)
  by (cases rule: conn_step_cases) (simp_all add: mysql_server.GetChannelIDsByUser_contract(1) [OF assms(1)])

definition system_start :: "sql_conf \<Rightarrow> ('d \<Rightarrow> tables) \<Rightarrow> ('r \<Rightarrow> (string \<times> json) list) \<Rightarrow> (nat \<Rightarrow> int64) \<Rightarrow> ('d, 'r) system \<Rightarrow> bool" where
  "system_start cf tabs sent wid s \<longleftrightarrow> cluster_start sent wid (sy_api s) \<and> tables_ok cf (tabs (c_db (sy_api s))) \<and>
     sy_ws s = (\<lambda>n. \<lparr>sessions = [], hub = NewHub\<rparr>) \<and> sy_conns s = (\<lambda>n. [])"

interpretation sy: transition_system "system_start cf tabs sent wid" "system_step E clk cf tabs keys sent"
    "system_reach E clk cf tabs keys sent wid" for E clk cf tabs keys sent wid
proof
  let ?R = "system_reach E clk cf tabs keys sent wid" and ?S = "system_step E clk cf tabs keys sent"
  show "P s" if "?R s" "\<And>s. system_start cf tabs sent wid s \<Longrightarrow> P s" "\<And>s t. ?R s \<Longrightarrow> P s \<Longrightarrow> ?S s t \<Longrightarrow> P t" for P s
    by (rule system_reach.induct [OF that(1)])
      (rule that(2), simp add: system_start_def cluster_start_def, erule (2) that(3))
qed (auto simp: system_start_def cluster_start_def intro: system_reach.intros)

lemma system_step_cluster:
  assumes "backend E cf tabs keys sent" and "system_step E clk cf tabs keys sent s t"
  shows "sy_api t = sy_api s \<or> cluster_step E clk cf tabs keys sent (sy_api s) (sy_api t)"
  using assms(2)
proof cases
  case (request r body msg n)
  then show ?thesis by (simp add: cluster_step.arrives)
next
  case (connect j n q wk d)
  have "tabs d = tabs (c_db (sy_api s))" by (rule conn_step_tabs [OF backend.axioms(1) [OF assms(1)] connect(3)])
  then have "cluster_step E clk cf tabs keys sent (sy_api s) ((sy_api s)\<lparr>c_db := d, c_redis := c_redis (sy_api s)\<rparr>)"
    by (intro cluster_step.others) (simp_all add: sql_steps.none)
  with connect show ?thesis by simp
qed simp_all

lemma system_refines_cluster:
  assumes "backend E cf tabs keys sent"
  shows "refinement (system_start cf tabs sent wid) (system_step E clk cf tabs keys sent) (system_reach E clk cf tabs keys sent wid)
    (cluster_start sent wid) (cluster_step E clk cf tabs keys sent) (cluster_reach E clk cf tabs keys sent wid) sy_api"
proof
  show "(cluster_step E clk cf tabs keys sent)\<^sup>*\<^sup>* (sy_api s) (sy_api t)" if "system_step E clk cf tabs keys sent s t" for s t
    using system_step_cluster [OF assms that] by auto
qed (simp add: system_start_def)

lemmas system_cluster = refinement.reach_sim [OF system_refines_cluster]

lemma system_step_ws:
  assumes "system_step E clk cf tabs keys sent s t"
  shows "sy_ws t n = sy_ws s n \<or> ws_step (tjson E) (sy_ws s n) (sy_ws t n)"
  using assms
proof cases
  case (connect j k q wk d)
  from connect(3) show ?thesis by (cases rule: conn_step_cases) (use connect(1) ws_step.connect in auto)
next
  case (receive i k ch p v)
  then show ?thesis using ws_step.goroutine [OF goroutine_step.redis_message] by auto
next
  case (pump k wk)
  then show ?thesis using ws_step.goroutine [OF goroutine_step.pump] by auto
next
  case (shutdown k)
  then show ?thesis using ws_step.shutdown by auto
qed simp_all

interpretation sw: refinement "system_start cf tabs sent wid" "system_step E clk cf tabs keys sent" "system_reach E clk cf tabs keys sent wid"
    "\<lambda>wk. wk = \<lparr>sessions = [], hub = NewHub\<rparr>" "ws_step (tjson E)" "ws_reach (tjson E)" "\<lambda>s. sy_ws s n" for E clk cf tabs keys sent wid n
proof
  show "(ws_step (tjson E))\<^sup>*\<^sup>* (sy_ws s n) (sy_ws t n)" if "system_step E clk cf tabs keys sent s t" for s t
    using system_step_ws [OF that, of n] by auto
qed (simp add: system_start_def)

section \<open>The log of publications\<close>

definition wire_message :: "time_json \<Rightarrow> json \<Rightarrow> message option" where
  "wire_message tj v = Option.bind (json_unmarshal (render v)) (Unmarshal_message tj)"

text \<open>The messages that listeners can make of what was published.\<close>

fun published_messages :: "time_json \<Rightarrow> (string \<times> json) list \<Rightarrow> message list" where
  "published_messages tj [] = []"
| "published_messages tj ((room, v) # out) =
     (case wire_message tj v of None \<Rightarrow> published_messages tj out | Some m \<Rightarrow> m # published_messages tj out)"

definition message_valid :: "message \<Rightarrow> bool" where
  "message_valid m \<longleftrightarrow> valid_utf8 (ConversationID m) \<and> valid_utf8 (SenderID m) \<and> valid_utf8 (Content m)"

text \<open>Except for its time, a message is read from the wire as it was written.\<close>

lemma key_valid: "valid_utf8 ''id''" "valid_utf8 ''conversation_id''" "valid_utf8 ''sender_id''" "valid_utf8 ''content''"
  "valid_utf8 ''created_at''"
  by (rule ascii_valid, simp)+

lemma wire_message_fields:
  assumes "Marshal_message tj m = Inr v" and "message_valid m" and "wire_message tj v = Some m'"
  shows "msg_ID m' = msg_ID m" "ConversationID m' = ConversationID m" "SenderID m' = SenderID m" "Content m' = Content m"
proof -
  have "json_unmarshal (render v) = Some (sanitize v)" by (rule unmarshal_render [OF Marshal_message_ok [OF assms(1)]])
  then have u: "Unmarshal_message tj (sanitize v) = Some m'" using assms(3) by (simp add: wire_message_def)
  have v: "sanitize v = JObj [(''id'', JNum (sprintf_d (msg_ID m))), (''conversation_id'', JStr (ConversationID m)),
      (''sender_id'', JStr (SenderID m)), (''content'', JStr (Content m)),
      (''created_at'', JStr (to_valid (time_text tj (msg_CreatedAt m))))]"
    using assms(1,2) key_valid
    by (auto simp: Marshal_message_def message_valid_def valid_utf8_def split: if_splits simp del: to_valid.simps)
  from u show "msg_ID m' = msg_ID m" "ConversationID m' = ConversationID m" "SenderID m' = SenderID m" "Content m' = Content m"
    unfolding v by (auto simp: Unmarshal_message_def bind_eq_Some_conv simp del: json_uint64.simps)
qed

lemma same_wire:
  assumes "Marshal_message tj m = Inr v" and "Marshal_message tj m' = Inr v"
  shows "msg_ID m = msg_ID m'" "ConversationID m = ConversationID m'" "SenderID m = SenderID m'" "Content m = Content m'"
proof -
  from assms have "sprintf_d (msg_ID m) = sprintf_d (msg_ID m')" by (auto simp: Marshal_message_def split: if_splits)
  then show "msg_ID m = msg_ID m'" using json_uint64_sprintf [of "msg_ID m"] json_uint64_sprintf [of "msg_ID m'"] by simp
  from assms show "ConversationID m = ConversationID m'" "SenderID m = SenderID m'" "Content m = Content m'"
    by (auto simp: Marshal_message_def split: if_splits)
qed

lemma published_append [simp]: "published_messages tj (xs @ ys) = published_messages tj xs @ published_messages tj ys"
  by (induction tj xs rule: published_messages.induct) (simp_all split: option.split)

text \<open>
  The log belongs to the calls: each entry was published by a call of its own, which has returned. The messages of all calls are valid
  UTF-8, for they came as JSON text.
\<close>

definition entry_of :: "time_json \<Rightarrow> send_req list \<Rightarrow> nat \<Rightarrow> string \<times> json \<Rightarrow> bool" where
  "entry_of tj qs k = (\<lambda>(room, v). k < length qs \<and> (\<exists>r. q_pc (qs ! k) = Finished r) \<and>
     room = ''chat:room:'' @ ConversationID (q_msg (qs ! k)) \<and> Marshal_message tj (q_msg (qs ! k)) = Inr v)"

definition log_inv :: "time_json \<Rightarrow> send_req list \<Rightarrow> (string \<times> json) list \<Rightarrow> bool" where
  "log_inv tj qs out \<longleftrightarrow> (\<forall>q\<in>set qs. message_valid (q_msg q)) \<and> (\<exists>ks. distinct ks \<and> list_all2 (entry_of tj qs) ks out)"

lemma entry_of_mono:
  assumes "entry_of tj qs k e" and "\<And>k. k < length qs \<Longrightarrow> \<exists>r. q_pc (qs ! k) = Finished r \<Longrightarrow> k < length qs' \<and> qs' ! k = qs ! k"
  shows "entry_of tj qs' k e"
  using assms unfolding entry_of_def by (auto split: prod.splits)

lemma log_inv_arrives: "log_inv tj qs out \<Longrightarrow> message_valid msg \<Longrightarrow> log_inv tj (qs @ [new_req n key msg]) out"
proof -
  assume "log_inv tj qs out" and msg: "message_valid msg"
  then obtain ks where ks: "distinct ks" "list_all2 (entry_of tj qs) ks out" "\<forall>q\<in>set qs. message_valid (q_msg q)"
    by (auto simp: log_inv_def)
  have "list_all2 (entry_of tj (qs @ [new_req n key msg])) ks out"
    using ks(2) by (rule list_all2_mono) (auto simp: nth_append elim: entry_of_mono)
  with ks msg show ?thesis unfolding log_inv_def by (auto simp: new_req_def)
qed

lemma send_step_valid:
  assumes "send_step E (q, w) = Some (q', w')" and "message_valid (q_msg q)"
  shows "message_valid (q_msg q')"
  using assms
  by (cases "q_pc q") (auto simp: send_step_def message_valid_def Let_def split: prod.splits option.splits if_splits)

lemma send_step_finished: "send_step E (q, w) = Some (q', w') \<Longrightarrow> q_pc q = Finished r \<Longrightarrow> q' = q"
  by (simp add: send_step_def)

lemma send_step_publishes: "send_step E (q, w) = Some (q', w') \<Longrightarrow> q_pc q = AtPublish \<Longrightarrow> q_msg q' = q_msg q \<and> (\<exists>r. q_pc q' = Finished r)"
  by (auto simp: send_step_def split: prod.splits)

lemma log_inv_step:
  assumes "log_inv (tjson E) qs (b_sent b)" and "i < length qs" and "send_step E (qs ! i, w) = Some (q', w')"
    and "step_effect cf (tjson E) (qs ! i) b q' b'"
  shows "log_inv (tjson E) (qs[i := q']) (b_sent b')"
proof -
  obtain ks where ks: "distinct ks" "list_all2 (entry_of (tjson E) qs) ks (b_sent b)" using assms(1) by (auto simp: log_inv_def)
  have mono: "entry_of (tjson E) (qs[i := q']) k e" if "entry_of (tjson E) qs k e" for k e
    using that
  proof (rule entry_of_mono)
    show "k < length (qs[i := q']) \<and> qs[i := q'] ! k = qs ! k" if "k < length qs" "\<exists>r. q_pc (qs ! k) = Finished r" for k
      using that send_step_finished [OF assms(3)] by (cases "k = i") auto
  qed
  have old: "list_all2 (entry_of (tjson E) (qs[i := q'])) ks (b_sent b)" using ks(2) by (rule list_all2_mono) (rule mono)
  have valid: "\<forall>q\<in>set (qs[i := q']). message_valid (q_msg q)"
    using assms(1-3) send_step_valid [OF assms(3)] set_update_subset_insert [of qs i q'] unfolding log_inv_def by fastforce
  have "b_sent b' = b_sent b \<or> q_pc (qs ! i) = AtPublish \<and> (\<exists>v. Marshal_message (tjson E) (q_msg (qs ! i)) = Inr v \<and>
      b_sent b' = b_sent b @ [(''chat:room:'' @ ConversationID (q_msg (qs ! i)), v)])"
    using assms(4) by (simp add: step_effect_def)
  then show ?thesis
  proof
    assume "b_sent b' = b_sent b"
    with old valid ks(1) show ?thesis unfolding log_inv_def by auto
  next
    assume "q_pc (qs ! i) = AtPublish \<and> (\<exists>v. Marshal_message (tjson E) (q_msg (qs ! i)) = Inr v \<and>
      b_sent b' = b_sent b @ [(''chat:room:'' @ ConversationID (q_msg (qs ! i)), v)])"
    then obtain v where at: "q_pc (qs ! i) = AtPublish" and v: "Marshal_message (tjson E) (q_msg (qs ! i)) = Inr v"
      "b_sent b' = b_sent b @ [(''chat:room:'' @ ConversationID (q_msg (qs ! i)), v)]" by blast
    have "i \<notin> set ks"
    proof
      assume "i \<in> set ks"
      then obtain e where "entry_of (tjson E) qs i e" using ks(2) unfolding list_all2_conv_all_nth in_set_conv_nth by blast
      with at show False by (auto simp: entry_of_def split: prod.splits)
    qed
    moreover have "entry_of (tjson E) (qs[i := q']) i (''chat:room:'' @ ConversationID (q_msg (qs ! i)), v)"
      using send_step_publishes [OF assms(3) at] v(1) assms(2) by (simp add: entry_of_def)
    ultimately have "distinct (ks @ [i]) \<and> list_all2 (entry_of (tjson E) (qs[i := q'])) (ks @ [i]) (b_sent b')"
      using old ks(1) v(2) by (simp add: list_all2_appendI)
    with valid show ?thesis unfolding log_inv_def by blast
  qed
qed

lemma request_valid:
  assumes "send_request r = Some msg" and "Body r = json_decode text"
  shows "message_valid msg"
proof -
  obtain v c s x where v: "json_decode text = Some v" "decode_send v = Some (c, s, x)" "msg = request_message (c, s, x)"
    using assms by (auto simp: send_request_def bind_eq_Some_conv split: if_splits option.splits)
  obtain kvs where kvs: "json_members v = Some kvs" using v(2) by (auto simp: decode_send_def bind_eq_Some_conv)
  have all: "list_all (\<lambda>(k, v). valid_utf8 k \<and> strings_valid v) kvs"
    by (rule members_valid [OF decoded_valid(1) [OF v(1)] kvs])
  have "valid_utf8 []" by (rule ascii_valid) simp
  with v(2) kvs decode_string_valid [OF all] have "valid_utf8 c" "valid_utf8 s" "valid_utf8 x"
    by (auto simp: decode_send_def bind_eq_Some_conv)
  with v(3) show ?thesis by (simp add: message_valid_def request_message_def)
qed

lemma system_log:
  assumes "backend E cf tabs keys sent"
  shows "system_reach E clk cf tabs keys sent wid s \<Longrightarrow> log_inv (tjson E) (c_reqs (sy_api s)) (sent (c_redis (sy_api s)))"
proof (induction rule: system_reach.induct)
  case (start s)
  then show ?case by (simp add: log_inv_def)
next
  case (step s s')
  from step.hyps(2) show ?case
  proof cases
    case (request r body msg n)
    then show ?thesis using log_inv_arrives [OF step.IH request_valid [OF request(3,2)]] by simp
  next
    case (api c)
    have fits: "\<forall>q\<in>set (c_reqs (sy_api s)). message_fits (q_msg q)"
      using cluster_inv [OF assms system_cluster [OF assms step.hyps(1)]] by (simp add: store_inv_def)
    from api(2) have "log_inv (tjson E) (c_reqs c) (sent (c_redis c))"
    proof cases
      case (advances i q q' w')
      let ?E = "node_deps E clk (q_node q)"
      have q: "message_fits (q_msg q)" using fits advances(2,3) by simp
      have "step_effect cf (tjson ?E) (c_reqs (sy_api s) ! i) (board_of tabs keys sent (node_world (sy_api s) (q_node q))) q'
          (board_of tabs keys sent w')"
        using backend.send_step_effect [OF node_backend [OF assms] advances(4) q] advances(3) by simp
      from log_inv_step [OF _ advances(2) advances(4) [unfolded advances(3)] this [unfolded advances(3)]] step.IH
      show ?thesis by (simp add: advances(1,3) board_of_simps)
    qed (use api step.IH in simp_all)
    then show ?thesis using api by simp
  qed (use step.IH in simp_all)
qed

text \<open>A published message is that of the call that published it, hence stored; two entries carry different identifiers if the calls do.\<close>

lemma log_entry:
  assumes "log_inv tj qs out" and "(room, v) \<in> set out" and "wire_message tj v = Some m"
  obtains q where "q \<in> set qs" "Marshal_message tj (q_msg q) = Inr v" "room = ''chat:room:'' @ ConversationID m"
    "msg_ID m = msg_ID (q_msg q)" "ConversationID m = ConversationID (q_msg q)" "SenderID m = SenderID (q_msg q)" "Content m = Content (q_msg q)"
proof -
  obtain k where "entry_of tj qs k (room, v)"
    using assms(1,2) unfolding log_inv_def list_all2_conv_all_nth in_set_conv_nth by metis
  then have q: "qs ! k \<in> set qs" "Marshal_message tj (q_msg (qs ! k)) = Inr v" "room = ''chat:room:'' @ ConversationID (q_msg (qs ! k))"
    by (auto simp: entry_of_def)
  then have "message_valid (q_msg (qs ! k))" using assms(1) by (simp add: log_inv_def)
  with q wire_message_fields [OF q(2) this assms(3)] show ?thesis by (intro that [of "qs ! k"]) simp_all
qed

lemma published_mem: "m \<in> set (published_messages tj out) \<longleftrightarrow> (\<exists>(room, v)\<in>set out. wire_message tj v = Some m)"
  by (induction tj out rule: published_messages.induct) (auto split: option.split)

lemma published_stored:
  assumes "log_inv tj qs out" and "store_inv tj t out qs" and "m \<in> set (published_messages tj out)"
  shows "stored t m"
proof -
  obtain room v where e: "(room, v) \<in> set out" "wire_message tj v = Some m" using assms(3) by (auto simp: published_mem)
  obtain q where q: "q \<in> set qs" "Marshal_message tj (q_msg q) = Inr v" "room = ''chat:room:'' @ ConversationID m" "msg_ID m = msg_ID (q_msg q)" "ConversationID m = ConversationID (q_msg q)"
    "SenderID m = SenderID (q_msg q)" "Content m = Content (q_msg q)"
    by (rule log_entry [OF assms(1) e])
  obtain m' where m': "Marshal_message tj m' = Inr v" "stored t m'" using assms(2) e(1) unfolding store_inv_def by blast
  from m'(2) same_wire [OF m'(1) q(2)] q(4-) show ?thesis by (simp add: stored_def)
qed

lemma distinct_filter_pair:
  "distinct (map f (filter P xs)) \<Longrightarrow> i < length xs \<Longrightarrow> j < length xs \<Longrightarrow> P (xs ! i) \<Longrightarrow> P (xs ! j) \<Longrightarrow> f (xs ! i) = f (xs ! j) \<Longrightarrow> i = j"
proof (induction xs arbitrary: i j)
  case (Cons x xs)
  have "P y \<Longrightarrow> P x \<Longrightarrow> y \<in> set xs \<Longrightarrow> f x \<noteq> f y" for y using Cons.prems(1) by (auto simp: image_iff)
  moreover have "distinct (map f (filter P xs))" using Cons.prems(1) by (auto split: if_splits)
  ultimately show ?case using Cons.IH Cons.prems(2-) by (cases i; cases j) (auto, metis nth_mem)
qed simp

lemma subseq_distinct: "subseq xs ys \<Longrightarrow> distinct ys \<Longrightarrow> distinct xs"
  by (auto simp: subseq_conv_nths)

lemma subseq_set: "subseq xs ys \<Longrightarrow> x \<in> set xs \<Longrightarrow> x \<in> set ys"
  by (auto simp: subseq_conv_nths dest: in_set_nthsD)

lemma published_distinct:
  assumes "log_inv tj qs out" and "distinct (map (msg_ID \<circ> q_msg) (filter (\<lambda>q. drawn (q_pc q)) qs))"
  shows "distinct (map msg_ID (published_messages tj out))"
proof -
  obtain ks where ks: "distinct ks" "list_all2 (entry_of tj qs) ks out" and valid: "\<forall>q\<in>set qs. message_valid (q_msg q)"
    using assms(1) by (auto simp: log_inv_def)
  let ?id = "\<lambda>k. msg_ID (q_msg (qs ! k))"
  have "subseq (map msg_ID (published_messages tj out)) (map ?id ks)"
    using ks(2)
  proof (induction rule: list_all2_induct)
    case (Cons k ks e out)
    obtain room v where e: "e = (room, v)" by force
    have k: "k < length qs" "Marshal_message tj (q_msg (qs ! k)) = Inr v" using Cons.hyps(1) by (auto simp: entry_of_def e)
    show ?case
    proof (cases "wire_message tj v")
      case (Some m)
      have "msg_ID m = ?id k" using wire_message_fields(1) [OF k(2) _ Some] valid k(1) by simp
      with Some Cons.IH show ?thesis by (simp add: e)
    qed (use Cons.IH in \<open>auto simp: e\<close>)
  qed simp
  moreover have "distinct (map ?id ks)"
    unfolding distinct_map
  proof (intro conjI ks(1) inj_onI)
    fix k l assume kl: "k \<in> set ks" "l \<in> set ks" "?id k = ?id l"
    have "k < length qs \<and> drawn (q_pc (qs ! k))" if k: "k \<in> set ks" for k
    proof -
      obtain e where "entry_of tj qs k e" using ks(2) k unfolding list_all2_conv_all_nth in_set_conv_nth by blast
      then show ?thesis by (auto simp: entry_of_def split: prod.splits)
    qed
    with kl distinct_filter_pair [OF assms(2), of k l] show "k = l" by simp
  qed
  ultimately show ?thesis by (rule subseq_distinct)
qed

section \<open>What the sessions take in\<close>

text \<open>
  Per channel, a session has taken in some of the messages published before its cursor, in their order.
\<close>

definition in_channel :: "string \<Rightarrow> message list \<Rightarrow> message list" where
  "in_channel ch ms = filter (\<lambda>m. ConversationID m = ch) ms"

definition deliv_inv :: "time_json \<Rightarrow> (string \<times> json) list \<Rightarrow> (cref \<Rightarrow> string \<Rightarrow> nat) \<Rightarrow> worker \<Rightarrow> bool" where
  "deliv_inv tj out cur wk \<longleftrightarrow> (\<forall>i<length (sessions wk). \<forall>ch. cur i ch \<le> length out \<and>
     subseq (in_channel ch (taken_in (sessions wk ! i))) (in_channel ch (published_messages tj (take (cur i ch) out))))"

lemma in_channel_append [simp]: "in_channel ch (xs @ ys) = in_channel ch xs @ in_channel ch ys"
  by (simp add: in_channel_def)

lemma in_channel_mono: "subseq xs ys \<Longrightarrow> subseq (in_channel ch xs) (in_channel ch ys)"
  by (simp add: in_channel_def)

lemma subseq_delete: "subseq (xs @ ys) (xs @ z # ys)"
  by (simp add: subseq_append' list_emb_Cons)

lemma taken_in_write_subseq: "subseq (taken_in (write_message ok s)) (taken_in s)"
  by (auto simp: taken_in_def write_message_def subseq_delete split: list.splits)

text \<open>What a step that is no reception keeps of a session.\<close>

definition keeps_session :: "session \<Rightarrow> session \<Rightarrow> bool" where
  "keeps_session s s' \<longleftrightarrow> UserID s' = UserID s \<and> set (listeners s') \<subseteq> set (listeners s) \<and> (distinct (listeners s) \<longrightarrow> distinct (listeners s')) \<and>
     subseq (taken_in s') (taken_in s)"

lemma keeps_session_ops:
  "keeps_session s s" "keeps_session s (listener_exit c s)" "keeps_session s (write_message ok s)"
  "keeps_session s (write_ping ok s)" "keeps_session s (write_exit k s)" "keeps_session s (read_message ok s)" "keeps_session s (read_exit k' s)"
  "keeps_session s (s\<lparr>conn_open := b\<rparr>)"
proof -
  have "listeners (write_message ok s) = listeners s" by (simp add: write_message_def split: list.split)
  then show "keeps_session s (write_message ok s)" by (simp add: keeps_session_def taken_in_write_subseq)
  show "keeps_session s (write_ping ok s)"
    by (simp add: keeps_session_def taken_in_write(2)) (simp add: write_ping_def)
  show "keeps_session s (read_message ok s)" by (simp add: keeps_session_def) (simp add: read_message_def)
  show "keeps_session s (write_exit k s)" by (cases k) (simp_all add: keeps_session_def taken_in_def)
  show "keeps_session s (read_exit k' s)" by (cases k') (simp_all add: keeps_session_def taken_in_def)
qed (simp_all add: keeps_session_def set_remove1_subset taken_in_def)

lemma pump_keeps:
  assumes "pump_step wk wk'"
  shows "length (sessions wk') = length (sessions wk)" "i < length (sessions wk) \<Longrightarrow> keeps_session (sessions wk ! i) (sessions wk' ! i)"
  using assms by (induction rule: pump_step.induct) (auto simp: on_session_nth keeps_session_ops)

lemma shutdown_keeps:
  "length (sessions (worker_shutdown wk)) = length (sessions wk)"
  "i < length (sessions wk) \<Longrightarrow> keeps_session (sessions wk ! i) (sessions (worker_shutdown wk) ! i)"
  using shutdown_nth [of i wk] by (auto simp: keeps_session_ops) (simp add: worker_shutdown_def split: prod.split)

lemma deliv_keeps:
  assumes "deliv_inv tj out cur wk" and "length (sessions wk') = length (sessions wk)"
    and "\<And>i. i < length (sessions wk) \<Longrightarrow> keeps_session (sessions wk ! i) (sessions wk' ! i)"
  shows "deliv_inv tj out cur wk'"
  unfolding deliv_inv_def
proof (intro allI impI conjI)
  fix i ch assume i: "i < length (sessions wk')"
  with assms show "cur i ch \<le> length out" by (simp add: deliv_inv_def)
  have "subseq (taken_in (sessions wk' ! i)) (taken_in (sessions wk ! i))" using assms(2,3) i by (simp add: keeps_session_def)
  moreover have "subseq (in_channel ch (taken_in (sessions wk ! i))) (in_channel ch (published_messages tj (take (cur i ch) out)))"
    using assms(1,2) i by (simp add: deliv_inv_def)
  ultimately show "subseq (in_channel ch (taken_in (sessions wk' ! i))) (in_channel ch (published_messages tj (take (cur i ch) out)))"
    by (meson in_channel_mono subseq_order.order_trans)
qed

lemma deliv_append: "deliv_inv tj out cur wk \<Longrightarrow> deliv_inv tj (out @ xs) cur wk"
  by (simp add: deliv_inv_def trans_le_add1)

lemma deliv_start:
  assumes "deliv_inv tj out (cur n) wk"
  shows "deliv_inv tj out (subscribe n (length (sessions wk)) (length out) cur n) (start_session u ids wk)"
  using assms
  by (auto simp: deliv_inv_def subscribe_def start_session_def nth_append less_Suc_eq new_session_def taken_in_def in_channel_def)

lemma deliv_subscribe:
  "deliv_inv tj out (cur n) wk \<Longrightarrow> deliv_inv tj out (subscribe n (length (sessions wk)) k cur n) wk"
  by (auto simp: deliv_inv_def subscribe_def)

lemma taken_in_listen:
  "\<exists>ms. taken_in (listenToRedis tj (json_unmarshal (render v)) s) = taken_in s @ ms \<and>
     (ms = [] \<or> (\<exists>m. ms = [m] \<and> wire_message tj v = Some m))"
  by (auto simp: taken_in_def listenToRedis_def forward_def wire_message_def split: option.split)

lemma deliv_receive:
  assumes "deliv_inv tj out (cur n) wk" and "i < length (sessions wk)" and "cur n i ch \<le> p" and "p < length out"
    and "out ! p = (room, v)" and "\<And>m. wire_message tj v = Some m \<Longrightarrow> ConversationID m = ch"
  shows "deliv_inv tj out (pass n i ch (Suc p) cur n) (on_session i (listenToRedis tj (json_unmarshal (render v))) wk)"
  unfolding deliv_inv_def
proof (intro allI impI, goal_cases)
  case (1 j ch')
  let ?t = "taken_in (sessions wk ! i)" and ?pub = "published_messages tj"
  have old: "cur n j ch' \<le> length out \<and> subseq (in_channel ch' (taken_in (sessions wk ! j))) (in_channel ch' (?pub (take (cur n j ch') out)))"
    using assms(1) 1 by (simp add: deliv_inv_def)
  show ?case
  proof (cases "j = i")
    case False
    with old 1 show ?thesis by (simp add: on_session_nth pass_def)
  next
    case True
    obtain ms where ms: "taken_in (listenToRedis tj (json_unmarshal (render v)) (sessions wk ! i)) = ?t @ ms"
        "ms = [] \<or> (\<exists>m. ms = [m] \<and> wire_message tj v = Some m)"
      using taken_in_listen by blast
    show ?thesis
    proof (cases "ch' = ch")
      case other: False
      with ms assms(6) have "in_channel ch' ms = []" by (auto simp: in_channel_def)
      with old True other ms(1) 1 show ?thesis by (simp add: on_session_nth pass_def)
    next
      case same: True
      have "take (Suc p) out = take (cur n i ch) out @ drop (cur n i ch) (take p out) @ [(room, v)]"
        using assms(3-5) by (simp add: take_Suc_conv_app_nth flip: append_assoc) (metis append_take_drop_id min.absorb1 take_take)
      moreover have "subseq (in_channel ch ms) (in_channel ch (?pub [(room, v)]))"
        using ms(2) assms(6) by (auto simp: in_channel_def)
      ultimately have "subseq (in_channel ch (?t @ ms)) (in_channel ch (?pub (take (Suc p) out)))"
        using old True same by (simp add: list_emb_append_mono subseq_drop_many)
      with True same ms(1) 1 assms(4) show ?thesis by (simp add: on_session_nth pass_def)
    qed
  qed
qed

section \<open>Invariants of the system\<close>

lemma system_step_effect:
  assumes "backend E cf tabs keys sent" and "system_reach E clk cf tabs keys sent wid s" and "system_step E clk cf tabs keys sent s s'"
  shows "sql_steps cf (tabs (c_db (sy_api s))) (tabs (c_db (sy_api s')))"
    and "\<exists>xs. sent (c_redis (sy_api s')) = sent (c_redis (sy_api s)) @ xs"
proof -
  have fits: "\<forall>q\<in>set (c_reqs (sy_api s)). message_fits (q_msg q)"
    using cluster_inv [OF assms(1) system_cluster [OF assms(1,2)]] by (simp add: store_inv_def)
  from assms(3) have "sql_steps cf (tabs (c_db (sy_api s))) (tabs (c_db (sy_api s'))) \<and>
      (\<exists>xs. sent (c_redis (sy_api s')) = sent (c_redis (sy_api s)) @ xs)"
  proof cases
    case (api c)
    from api(2) show ?thesis
    proof cases
      case (advances i q q' w')
      have "message_fits (q_msg q)" using fits advances(2,3) by simp
      from backend.send_step_effect [OF node_backend [OF assms(1)] advances(4) this] api advances(1) show ?thesis
        by (auto simp: step_effect_def board_of_simps)
    qed (use api in \<open>simp_all add: sql_steps.none\<close>)
  next
    case (connect j n q wk d)
    then show ?thesis using conn_step_tabs [OF backend.axioms(1) [OF assms(1)] connect(3)] by (simp add: sql_steps.none)
  qed (simp_all add: sql_steps.none)
  then show "sql_steps cf (tabs (c_db (sy_api s))) (tabs (c_db (sy_api s')))"
    and "\<exists>xs. sent (c_redis (sy_api s')) = sent (c_redis (sy_api s)) @ xs" by blast+
qed

lemma system_tables_ok:
  assumes "backend E cf tabs keys sent"
  shows "system_reach E clk cf tabs keys sent wid s \<Longrightarrow> tables_ok cf (tabs (c_db (sy_api s)))"
  by (induction rule: system_reach.induct) (auto intro: sql_steps_ok [OF system_step_effect(1) [OF assms]])

lemma system_deliv:
  assumes "backend E cf tabs keys sent"
  shows "system_reach E clk cf tabs keys sent wid s \<Longrightarrow> deliv_inv (tjson E) (sent (c_redis (sy_api s))) (sy_cursor s n) (sy_ws s n)"
proof (induction rule: system_reach.induct)
  case (start s)
  then show ?case by (simp add: deliv_inv_def)
next
  case (step s s')
  let ?out = "sent (c_redis (sy_api s))"
  note log = system_log [OF assms step.hyps(1)]
  obtain xs where xs: "sent (c_redis (sy_api s')) = ?out @ xs" using system_step_effect(2) [OF assms step.hyps] by blast
  from step.hyps(2) have "deliv_inv (tjson E) ?out (sy_cursor s' n) (sy_ws s' n)"
  proof cases
    case (connect j k q wk d)
    from connect(3) show ?thesis
    proof (cases rule: conn_step_cases)
      case (started ids)
      then show ?thesis using connect(1) step.IH deliv_start by (cases "k = n") (auto simp: subscribe_def)
    qed (use connect(1) step.IH deliv_subscribe in \<open>cases "k = n"; auto simp: subscribe_def\<close>)+
  next
    case (receive i k ch p v)
    have "ConversationID m = ch" if "wire_message (tjson E) v = Some m" for m
    proof -
      have "(''chat:room:'' @ ch, v) \<in> set ?out" using receive(5,6) by (metis nth_mem)
      from log_entry [OF log this that] show ?thesis by auto
    qed
    from deliv_receive [where cur = "sy_cursor s" and n = k, OF _ receive(2,4,5,6) this] step.IH receive(1) show ?thesis by (cases "k = n") (auto simp: pass_def)
  next
    case (pump k wk)
    with pump_keeps [OF pump(2)] step.IH show ?thesis by (cases "k = n") (auto intro: deliv_keeps)
  next
    case (shutdown k)
    with shutdown_keeps step.IH show ?thesis by (cases "k = n") (auto intro: deliv_keeps)
  qed (use step.IH in simp_all)
  from deliv_append [OF this] show ?case by (simp only: xs)
qed

text \<open>The channels a session listens to are those of its user when it connected: distinct, and memberships of an earlier state.\<close>

lemma channel_ids_members:
  assumes "mysql_server db cf tabs" and "GetChannelIDsByUser db u d = (Inr ids, d')" and "tables_ok cf (tabs d)"
  shows "distinct ids" and "ch \<in> set ids \<Longrightarrow> has_member cf (tabs d) ch u"
proof -
  let ?ms = "filter (\<lambda>m. same cf (m_user_id m) u) (channel_members (tabs d))"
  have ids: "mset ids = mset (map m_channel_id ?ms)"
    by (rule mysql_server.GetChannelIDsByUser_contract(2) [OF assms(1,2) refl])
  have "distinct (map (\<lambda>m. (coll cf (m_channel_id m), coll cf (m_user_id m))) ?ms)"
    using assms(3) by (simp add: tables_ok_def distinct_map_filter)
  then have "inj_on (\<lambda>m. (coll cf (m_channel_id m), coll cf (m_user_id m))) (set ?ms)" "distinct ?ms"
    by (simp_all only: distinct_map)
  then have "inj_on m_channel_id (set ?ms)" by (auto simp: inj_on_def same_def)
  with \<open>distinct ?ms\<close> have "distinct (map m_channel_id ?ms)" by (simp only: distinct_map)
  with ids show "distinct ids" by (metis mset_eq_imp_distinct_iff)
  have "set ids = m_channel_id ` set ?ms" using ids by (metis list.set_map set_mset_mset)
  then show "has_member cf (tabs d) ch u" if "ch \<in> set ids" using that by (auto simp: has_member_def list_ex_iff member_matches_def same_def)
qed

text \<open>The user was a member of the channel at an earlier moment, when the worker had at most \<open>k\<close> sessions.\<close>

definition was_member ::
    "('d, 'r) deps \<Rightarrow> (nat \<Rightarrow> clock) \<Rightarrow> sql_conf \<Rightarrow> ('d \<Rightarrow> tables) \<Rightarrow> ('r \<Rightarrow> (string \<rightharpoonup> int)) \<Rightarrow> ('r \<Rightarrow> (string \<times> json) list)
       \<Rightarrow> (nat \<Rightarrow> int64) \<Rightarrow> nat \<Rightarrow> ('d, 'r) system \<Rightarrow> nat \<Rightarrow> string \<Rightarrow> string \<Rightarrow> bool" where
  "was_member E clk cf tabs keys sent wid n s k ch u \<longleftrightarrow>
     (\<exists>s0. system_reach E clk cf tabs keys sent wid s0 \<and> (system_step E clk cf tabs keys sent)\<^sup>*\<^sup>* s0 s \<and>
        length (sessions (sy_ws s0 n)) \<le> k \<and> has_member cf (tabs (c_db (sy_api s0))) ch u)"

lemma was_member_now:
  "system_reach E clk cf tabs keys sent wid s \<Longrightarrow> has_member cf (tabs (c_db (sy_api s))) ch u \<Longrightarrow> length (sessions (sy_ws s n)) \<le> k \<Longrightarrow>
   was_member E clk cf tabs keys sent wid n s k ch u"
  by (auto simp: was_member_def)

lemma was_member_later:
  "was_member E clk cf tabs keys sent wid n s k ch u \<Longrightarrow> system_step E clk cf tabs keys sent s s' \<Longrightarrow> k \<le> k' \<Longrightarrow>
   was_member E clk cf tabs keys sent wid n s' k' ch u"
  unfolding was_member_def by (meson le_trans rtranclp.rtrancl_into_rtrancl)

lemma sessions_grow:
  assumes "system_step E clk cf tabs keys sent s s'"
  shows "length (sessions (sy_ws s n)) \<le> length (sessions (sy_ws s' n))"
  using assms
proof cases
  case (connect j k q wk d)
  from connect(3) show ?thesis by (cases rule: conn_step_cases) (use connect(1) in \<open>auto simp: start_session_def\<close>)
qed (auto simp: pump_keeps shutdown_keeps)

text \<open>The channels that a request has found are distinct and memberships, and so are those a session listens to.\<close>

lemma pending_channels:
  assumes "backend E cf tabs keys sent"
  shows "system_reach E clk cf tabs keys sent wid s \<Longrightarrow> j < length (sy_conns s n) \<Longrightarrow> cn_pc (sy_conns s n ! j) = AtRegister ids \<Longrightarrow>
    distinct ids \<and>
    (\<forall>ch\<in>set ids. was_member E clk cf tabs keys sent wid n s (length (sessions (sy_ws s n))) ch (cn_user (sy_conns s n ! j)))"
proof (induction arbitrary: j ids rule: system_reach.induct)
  case (step s s')
  note grow = sessions_grow [OF step.hyps(2), of n]
  have kept: ?case if "j < length (sy_conns s n)" "sy_conns s' n ! j = sy_conns s n ! j"
    using step.IH [of j ids] that step.prems was_member_later [OF _ step.hyps(2) grow] by auto
  from step.hyps(2) show ?case
  proof cases
    case (dial k u up)
    then show ?thesis using kept step.prems
      by (cases "k = n \<and> j = length (sy_conns s n)") (auto simp: nth_append new_conn_def split: if_splits)
  next
    case (connect i k q wk d)
    show ?thesis
    proof (cases "k = n \<and> i = j")
      case True
      from connect(3) show ?thesis
      proof (cases rule: conn_step_cases)
        case (fetched ids')
        have eq: "k = n" "i = j" "ids' = ids" using fetched(3) True connect(1,2) step.prems by simp_all
        note c = channel_ids_members [OF backend.axioms(1) [OF assms] fetched(1) [unfolded eq] system_tables_ok [OF assms step.hyps(1)]]
        have "was_member E clk cf tabs keys sent wid n s' (length (sessions (sy_ws s' n))) ch (cn_user (sy_conns s n ! j))" if "ch \<in> set ids" for ch
          by (rule was_member_later [OF was_member_now [OF step.hyps(1) c(2) le_refl] step.hyps(2) grow]) (rule that)
        with c(1) True connect(1,2) fetched(3) show ?thesis by simp
      qed (use True connect(1,2) step.prems in auto)
    next
      case False
      then show ?thesis using kept connect(1) step.prems by (cases "k = n") auto
    qed
  qed (use kept step.prems in simp_all)
qed simp

lemma listeners_distinct:
  assumes "backend E cf tabs keys sent"
  shows "system_reach E clk cf tabs keys sent wid s \<Longrightarrow> i < length (sessions (sy_ws s n)) \<Longrightarrow> distinct (listeners (sessions (sy_ws s n) ! i))"
proof (induction arbitrary: i rule: system_reach.induct)
  case (step s s')
  from step.hyps(2) show ?case
  proof cases
    case (connect j k q wk d)
    from connect(3) show ?thesis
    proof (cases rule: conn_step_cases)
      case (started ids)
      have "distinct ids" using pending_channels [OF assms step.hyps(1) connect(2) started(1)] by simp
      then show ?thesis using connect(1) started(2) step.IH step.prems
        by (cases "k = n") (auto simp: start_session_def nth_append less_Suc_eq new_session_def)
    qed (use connect(1) step.IH step.prems in \<open>cases "k = n"; auto\<close>)+
  next
    case (receive j k ch p v)
    then show ?thesis using step.IH step.prems by (cases "k = n") (auto simp: on_session_nth listenToRedis_def)
  next
    case (pump k wk)
    then show ?thesis using step.IH step.prems pump_keeps [OF pump(2)] by (cases "k = n") (auto simp: keeps_session_def)
  next
    case (shutdown k)
    then show ?thesis using step.IH step.prems shutdown_keeps by (cases "k = n") (auto simp: keeps_session_def)
  qed (use step.IH step.prems in simp_all)
qed simp

text \<open>The channels a session listens to or has taken messages from.\<close>

abbreviation heard :: "session \<Rightarrow> string set" where
  "heard s \<equiv> set (listeners s) \<union> ConversationID ` set (taken_in s)"

lemma heard_listen:
  assumes "backend E cf tabs keys sent" and "system_reach E clk cf tabs keys sent wid s"
    and "(''chat:room:'' @ c, v) \<in> set (sent (c_redis (sy_api s)))" and "c \<in> set (listeners x)"
  shows "heard (listenToRedis (tjson E) (json_unmarshal (render v)) x) \<subseteq> heard x"
proof -
  have "wire_message (tjson E) v = Some m \<Longrightarrow> ConversationID m = c" for m
    using log_entry [OF system_log [OF assms(1,2)]] assms(3) by blast
  with taken_in_listen [of "tjson E" v x] assms(4) show ?thesis by (auto simp: listenToRedis_def)
qed

lemma system_members:
  assumes "backend E cf tabs keys sent"
  shows "system_reach E clk cf tabs keys sent wid s \<Longrightarrow> i < length (sessions (sy_ws s n)) \<Longrightarrow>
    ch \<in> heard (sessions (sy_ws s n) ! i) \<Longrightarrow>
    was_member E clk cf tabs keys sent wid n s i ch (UserID (sessions (sy_ws s n) ! i))"
proof (induction arbitrary: i ch rule: system_reach.induct)
  case (step s s')
  note later = was_member_later [OF _ step.hyps(2) le_refl]
  have kept: ?case if "i < length (sessions (sy_ws s n))" "keeps_session (sessions (sy_ws s n) ! i) (sessions (sy_ws s' n) ! i)"
  proof -
    have "UserID (sessions (sy_ws s' n) ! i) = UserID (sessions (sy_ws s n) ! i)"
      "ch \<in> heard (sessions (sy_ws s n) ! i)"
      using that(2) step.prems(2) by (auto simp: keeps_session_def dest: subseq_set)
    with later [OF step.IH [OF that(1), of ch]] show ?thesis by simp
  qed
  from step.hyps(2) show ?case
  proof cases
    case (connect j k q wk d)
    from connect(3) show ?thesis
    proof (cases rule: conn_step_cases)
      case (started ids)
      have "ch \<in> set ids \<Longrightarrow> was_member E clk cf tabs keys sent wid k s' (length (sessions (sy_ws s k))) ch (cn_user (sy_conns s k ! j))" for ch
        using pending_channels [OF assms step.hyps(1) connect(2) started(1)] later by blast
      then show ?thesis using connect(1) started(2) step.prems kept
        by (cases "k = n") (auto simp: start_session_def nth_append less_Suc_eq new_session_def taken_in_def keeps_session_ops)
    qed (use connect(1) step.prems kept in \<open>cases "k = n"; auto simp: keeps_session_ops\<close>)+
  next
    case (receive j k c p v)
    show ?thesis
    proof (cases "k = n \<and> i = j")
      case True
      have "(''chat:room:'' @ c, v) \<in> set (sent (c_redis (sy_api s)))" using receive(5,6) by (metis nth_mem)
      from heard_listen [OF assms step.hyps(1) this receive(3)] step.prems(2) True receive(1,2)
      have "ch \<in> heard (sessions (sy_ws s n) ! i)" by (auto simp: on_session_nth)
      from later [OF step.IH [OF _ this]] True receive(1,2) show ?thesis by (simp add: on_session_nth)
    next
      case False
      then show ?thesis using kept receive(1,2) step.prems(1) by (auto simp: on_session_nth keeps_session_ops)
    qed
  next
    case (pump k wk)
    then show ?thesis using kept step.prems(1) pump_keeps [OF pump(2)] by (cases "k = n") (auto simp: keeps_session_ops)
  next
    case (shutdown k)
    then show ?thesis using kept step.prems(1) shutdown_keeps by (cases "k = n") (auto simp: keeps_session_ops)
  qed (use kept step.prems in \<open>simp_all add: keeps_session_ops\<close>)
qed simp

lemma distinct_by_channel:
  assumes "\<And>ch. subseq (in_channel ch xs) (in_channel ch ys)" and "distinct (map msg_ID ys)"
  shows "distinct (map msg_ID xs)"
proof -
  have "set xs \<subseteq> set ys"
  proof
    fix m assume "m \<in> set xs"
    then have "m \<in> set (in_channel (ConversationID m) xs)" by (simp add: in_channel_def)
    from subseq_set [OF assms(1) this] show "m \<in> set ys" by (simp add: in_channel_def)
  qed
  then have "inj_on msg_ID (set xs)" using assms(2) by (auto simp: distinct_map intro: inj_on_subset)
  moreover have "distinct xs"
  proof (rule ccontr)
    assume "\<not> distinct xs"
    then obtain a b c y where "xs = a @ [y] @ b @ [y] @ c" using not_distinct_decomp by blast
    then have "\<not> distinct (in_channel (ConversationID y) xs)" by (simp add: in_channel_def)
    moreover have "distinct (in_channel (ConversationID y) ys)" using assms(2) by (simp add: in_channel_def distinct_map)
    ultimately show False using subseq_distinct [OF assms(1)] by blast
  qed
  ultimately show ?thesis by (simp add: distinct_map)
qed

lemma taken_in_log:
  assumes "backend E cf tabs keys sent" and "system_reach E clk cf tabs keys sent wid s" and "i < length (sessions (sy_ws s n))"
  shows "subseq (in_channel ch (taken_in (sessions (sy_ws s n) ! i)))
    (in_channel ch (published_messages (tjson E) (sent (c_redis (sy_api s)))))"
proof -
  let ?out = "sent (c_redis (sy_api s))" and ?p = "sy_cursor s n i ch"
  have "subseq (in_channel ch (taken_in (sessions (sy_ws s n) ! i))) (in_channel ch (published_messages (tjson E) (take ?p ?out)))"
    using system_deliv [OF assms(1,2)] assms(3) by (simp add: deliv_inv_def)
  moreover have "in_channel ch (published_messages (tjson E) ?out) =
      in_channel ch (published_messages (tjson E) (take ?p ?out)) @ in_channel ch (published_messages (tjson E) (drop ?p ?out))"
    by (simp flip: in_channel_append published_append)
  ultimately show ?thesis by (simp add: subseq_rev_drop_many)
qed

lemma frame_stored:
  assumes "backend E cf tabs keys sent" and "system_reach E clk cf tabs keys sent wid s"
    and "i < length (sessions (sy_ws s n))" and "m \<in> set (taken_in (sessions (sy_ws s n) ! i))"
  shows "stored (tabs (c_db (sy_api s))) m"
proof -
  have "m \<in> set (in_channel (ConversationID m) (taken_in (sessions (sy_ws s n) ! i)))" using assms(4) by (simp add: in_channel_def)
  from subseq_set [OF taken_in_log [OF assms(1-3)] this] have "m \<in> set (published_messages (tjson E) (sent (c_redis (sy_api s))))"
    by (simp add: in_channel_def)
  then show ?thesis
    using published_stored [OF system_log [OF assms(1,2)]] cluster_inv [OF assms(1) system_cluster [OF assms(1,2)]] by blast
qed

section \<open>A sample run\<close>

text \<open>Two members, alice (7) and bob (8) of channel 9; bob connects, alice writes, bob's session gets the message.\<close>

definition duo_tables :: tables where
  "duo_tables = sample_tables\<lparr>users := users sample_tables @ [\<lparr>u_id = ''8'', u_username = ''bob'', u_created_at = Some 0\<rparr>],
     channel_members := channel_members sample_tables @ [\<lparr>m_channel_id = ''9'', m_user_id = ''8''\<rparr>]\<rparr>"

definition duo_world :: "(ref_server, ref_redis) world" where
  "duo_world = sample_world\<lparr>w_db := \<lparr>ref_tables = duo_tables, ref_faults = []\<rparr>\<rparr>"

definition duo_sent :: "(ref_server, ref_redis) world" where
  "duo_sent = after_send\<lparr>w_db := \<lparr>ref_tables = duo_tables\<lparr>messages := messages (ref_tables (w_db after_send))\<rparr>, ref_faults = []\<rparr>\<rparr>"

lemma duo_send: "SendMessage sample_deps (sample_msg ''7'') ''k'' duo_world = Some (None, sent_msg, duo_sent)"
proof -
  have g: "idempotency_guard sample_deps ''k'' duo_world =
      (None, duo_world\<lparr>w_redis := \<lparr>rr_keys = [(lock_name ''k'', lock_ttl)], rr_sent = [], rr_faults = []\<rparr>\<rparr>)"
    by (simp add: guard_key duo_world_def sample_defs)
  show ?thesis
    unfolding SendMessage_def g
    by (simp add: IsMember_def count_positive_def QueryRowScan_def duo_world_def duo_tables_def duo_sent_def sample_defs sample_msg_def
        member_matches_def same_def next_id_def time_now_def sample_next sample_now has_conversation_def Publish_def Marshal_message_def
        time_in_range_def sent_msg_def after_send_def)
qed

definition duo_system :: "(ref_server, ref_redis) system" where
  "duo_system = \<lparr>sy_api = sample_cluster\<lparr>c_db := w_db duo_world\<rparr>, sy_ws = (\<lambda>n. \<lparr>sessions = [], hub = NewHub\<rparr>),
     sy_conns = (\<lambda>n. []), sy_cursor = (\<lambda>n i ch. 0)\<rparr>"

abbreviation duo_reach :: "(ref_server, ref_redis) system \<Rightarrow> bool" where
  "duo_reach \<equiv> system_reach sample_deps (\<lambda>n. sample_clock) plain_conf ref_tables (\<lambda>r. map_of (rr_keys r)) rr_sent (\<lambda>n. 1)"

lemma duo_start: "duo_reach duo_system"
  by (rule system_reach.start)
    (simp_all add: duo_system_def sample_cluster_def sample_world_def duo_world_def tables_ok_def has_defs duo_tables_def sample_defs)

definition duo_connected :: "(ref_server, ref_redis) system" where
  "duo_connected = duo_system\<lparr>sy_ws := (sy_ws duo_system)(0 := start_session ''8'' [''9''] \<lparr>sessions = [], hub = NewHub\<rparr>),
     sy_conns := (sy_conns duo_system)(0 := [(new_conn ''8'' True)\<lparr>cn_pc := ConnDone Connected\<rparr>]),
     sy_cursor := subscribe 0 0 0 (sy_cursor duo_system)\<rparr>"

lemma duo_connect: "duo_reach duo_connected"
proof -
  let ?c = "\<lambda>pc wk. duo_system\<lparr>sy_ws := (sy_ws duo_system)(0 := wk), sy_conns := (sy_conns duo_system)(0 := [(new_conn ''8'' True)\<lparr>cn_pc := pc\<rparr>]),
      sy_cursor := subscribe 0 0 0 (sy_cursor duo_system)\<rparr>"
  let ?wk = "\<lparr>sessions = [], hub = NewHub\<rparr>"
  have ids: "GetChannelIDsByUser (sqldb sample_deps) ''8'' (w_db duo_world) = (Inr [''9''], w_db duo_world)"
    by (simp add: GetChannelIDsByUser_def QueryScan_def duo_world_def duo_tables_def sample_defs same_def)
  have go: "duo_reach s'" if "duo_reach s" "0 < length (sy_conns s 0)" "length (sessions (sy_ws s 0)) = 0" "rr_sent (c_redis (sy_api s)) = []"
      "conn_step (sqldb sample_deps) (sy_conns s 0 ! 0, sy_ws s 0, c_db (sy_api s)) = (q, wk, c_db (sy_api s))"
      "s' = s\<lparr>sy_ws := (sy_ws s)(0 := wk), sy_conns := (sy_conns s)(0 := (sy_conns s 0)[0 := q]), sy_cursor := subscribe 0 0 0 (sy_cursor s)\<rparr>"
    for s s' q wk
    using system_reach.step [OF that(1) system_step.connect [OF that(2,5)]] that(3,4,6) by simp
  have d: "sy_ws duo_system = (\<lambda>n. ?wk)" "sy_conns duo_system = (\<lambda>n. [])" "c_db (sy_api duo_system) = w_db duo_world"
    "rr_sent (c_redis (sy_api duo_system)) = []"
    by (simp_all add: duo_system_def sample_cluster_def sample_world_def)
  have "duo_reach (duo_system\<lparr>sy_conns := (sy_conns duo_system)(0 := [new_conn ''8'' True])\<rparr>)"
    using system_reach.step [OF duo_start system_step.dial [where n = 0 and u = "''8''" and upgraded = True]] by (simp add: d)
  then have "duo_reach (?c AtFetch ?wk)" by (rule go) (simp_all add: d conn_step_def new_conn_def subscribe_def)
  then have "duo_reach (?c (AtRegister [''9'']) ?wk)" by (rule go) (simp_all add: d conn_step_def new_conn_def ids subscribe_def)
  then have "duo_reach (?c (ConnDone Connected) (start_session ''8'' [''9''] ?wk))"
    by (rule go) (simp_all add: d conn_step_def new_conn_def subscribe_def)
  then show ?thesis by (simp add: duo_connected_def)
qed

lemma decode_sample_text: "json_decode (render (JObj [(''conversation_id'', JStr ''9''), (''sender_id'', JStr ''7''), (''content'', JStr ''hi'')])) =
  Some (JObj [(''conversation_id'', JStr ''9''), (''sender_id'', JStr ''7''), (''content'', JStr ''hi'')])" (is "json_decode (render ?v) = Some ?v")
proof -
  have "valid_utf8 ''conversation_id''" "valid_utf8 ''sender_id''" "valid_utf8 ''content''" "valid_utf8 ''9''" "valid_utf8 ''7''" "valid_utf8 ''hi''"
    by (rule ascii_valid, simp)+
  then have s: "sanitize ?v = ?v" by (intro sanitize_valid) simp
  have "json_decode (render ?v @ []) = Some (sanitize ?v)" by (rule decode_render) (simp_all add: maxNestingDepth_def)
  then show ?thesis by (simp only: append_Nil2 s)
qed

lemma dec_valid: "valid_utf8 (dec n)"
proof (rule ascii_valid)
  have "is_digit c \<Longrightarrow> byte c < 128" for c by (simp add: is_digit_def)
  then show "list_all (\<lambda>c. byte c < 128) (dec n)" using dec_digits [of n] by (rule list.pred_mono_strong [rotated]) 
qed

text \<open>A call runs to its end inside the system.\<close>

lemma system_runs:
  assumes "system_reach E clk cf tabs keys sent wid s" and "i < length (c_reqs (sy_api s))"
    and "send_run (node_deps E clk n) k (c_reqs (sy_api s) ! i, node_world (sy_api s) n) = Some (q', w')"
    and "q_node (c_reqs (sy_api s) ! i) = n"
  shows "system_reach E clk cf tabs keys sent wid
    (s\<lparr>sy_api := (put_world n w' (sy_api s))\<lparr>c_reqs := (c_reqs (sy_api s))[i := q']\<rparr>\<rparr>)"
proof (rule call_runs [where R = "\<lambda>c. system_reach E clk cf tabs keys sent wid (s\<lparr>sy_api := c\<rparr>)", OF _ _ assms(2-)])
  show "system_reach E clk cf tabs keys sent wid (s\<lparr>sy_api := sy_api s\<rparr>)" using assms(1) by simp
  fix c q1 w1
  assume c: "system_reach E clk cf tabs keys sent wid (s\<lparr>sy_api := c\<rparr>)" "i < length (c_reqs c)" "q_node (c_reqs c ! i) = n"
    "send_step (node_deps E clk n) (c_reqs c ! i, node_world c n) = Some (q1, w1)"
  have "cluster_step E clk cf tabs keys sent c ((put_world n w1 c)\<lparr>c_reqs := (c_reqs c)[i := q1]\<rparr>)"
    using cluster_step.advances [OF c(2) refl] c(3,4) by simp
  from system_reach.step [OF c(1) system_step.api] this
  show "system_reach E clk cf tabs keys sent wid (s\<lparr>sy_api := (put_world n w1 c)\<lparr>c_reqs := (c_reqs c)[i := q1]\<rparr>\<rparr>)"
    by fastforce
qed

lemma duo_receives:
  assumes "duo_reach s" and "sy_ws s 0 = start_session ''8'' [''9''] \<lparr>sessions = [], hub = NewHub\<rparr>" and "sy_cursor s 0 0 ''9'' = 0"
    and "rr_sent (c_redis (sy_api s)) = [(''chat:room:'' @ ''9'', v)]"
    and "json_unmarshal (render v) = Some v" and "Unmarshal_message (tjson sample_deps) v = Some sent_msg"
  obtains s' where "duo_reach s'" "sy_api s' = sy_api s" "map frames (sessions (sy_ws s' 0)) = [[JsonFrame sent_msg]]"
    "map UserID (sessions (sy_ws s' 0)) = [''8'']"
proof -
  let ?f = "listenToRedis (tjson sample_deps) (json_unmarshal (render v))"
  let ?s4 = "s\<lparr>sy_ws := (sy_ws s)(0 := on_session 0 ?f (sy_ws s 0)), sy_cursor := pass 0 0 ''9'' (Suc 0) (sy_cursor s)\<rparr>"
  let ?s5 = "?s4\<lparr>sy_ws := (sy_ws ?s4)(0 := on_session 0 (write_message True) (sy_ws ?s4 0))\<rparr>"
  have s4: "duo_reach ?s4"
    by (rule system_reach.step [OF assms(1) system_step.receive [where p = 0]])
      (simp_all add: assms(2-4) start_session_def new_session_def)
  have "duo_reach ?s5"
    by (rule system_reach.step [OF s4 system_step.pump], rule pump_step.written [of 0 _ "write_message True" True])
      (simp_all add: assms(2) start_session_def new_session_def on_session_def listenToRedis_def)
  then show ?thesis
    by (rule that) (simp_all add: assms(2,5,6) start_session_def new_session_def on_session_def listenToRedis_def forward_def
        sendBuffer_def write_message_def sent_msg_def sample_msg_def)
qed

lemma duo_wire:
  obtains v where "rr_sent (w_redis duo_sent) = [(''chat:room:'' @ ''9'', v)]" "json_unmarshal (render v) = Some v"
    "Unmarshal_message (tjson sample_deps) v = Some sent_msg"
proof -
  obtain v where v: "rr_sent (w_redis duo_sent) = [(''chat:room:'' @ ''9'', v)]" "Marshal_message (tjson sample_deps) sent_msg = Inr v"
    by (simp add: duo_sent_def after_send_def Marshal_message_def time_in_range_def sent_msg_def sample_msg_def sample_deps_def ref_deps_def nano_text_def)
  have "json_unmarshal (render v) = Some v \<and> Unmarshal_message (tjson sample_deps) v = Some sent_msg"
  proof (rule unmarshal_message_text [OF v(2)])
    show "valid_utf8 (ConversationID sent_msg)" "valid_utf8 (SenderID sent_msg)" "valid_utf8 (Content sent_msg)"
      by (rule ascii_valid, simp add: sent_msg_def sample_msg_def)+
  qed (simp_all add: sample_deps_def ref_deps_def nano_text_def sent_msg_def dec_valid)
  with v(1) show ?thesis using that by blast
qed

lemma duo_request:
  "duo_reach (duo_connected\<lparr>sy_api := (sy_api duo_connected)\<lparr>c_reqs := [new_req 0 ''k'' (sample_msg ''7'')]\<rparr>\<rparr>)"
proof -
  have body: "Body (sample_request ''7'') =
      json_decode (render (JObj [(''conversation_id'', JStr ''9''), (''sender_id'', JStr ''7''), (''content'', JStr ''hi'')]))"
    by (simp only: decode_sample_text sample_request_def request.simps)
  have "send_request (sample_request ''7'') = Some (sample_msg ''7'')" by (rule sample_send_request) simp
  from system_reach.step [OF duo_connect system_step.request [OF body this sample_fits(1), where n = 0]]
  show ?thesis by (simp add: duo_connected_def duo_system_def sample_cluster_def sample_request_def)
qed

lemma duo_delivered:
  "\<exists>s. duo_reach s \<and> map frames (sessions (sy_ws s 0)) = [[JsonFrame sent_msg]] \<and> map UserID (sessions (sy_ws s 0)) = [''8''] \<and>
     map q_node (c_reqs (sy_api s)) = [0] \<and> c_pos (sy_api s) = (\<lambda>n. if n = 0 then 2 else 0) \<and>
     messages (ref_tables (c_db (sy_api s))) = messages (ref_tables (w_db duo_sent))"
proof -
  let ?q = "new_req 0 ''k'' (sample_msg ''7'')"
  define s2 where "s2 = duo_connected\<lparr>sy_api := (sy_api duo_connected)\<lparr>c_reqs := [?q]\<rparr>\<rparr>"
  have api: "c_reqs (sy_api s2) = [?q]" "c_pos (sy_api s2) = (\<lambda>n. 0)" "sy_ws s2 0 = start_session ''8'' [''9''] \<lparr>sessions = [], hub = NewHub\<rparr>"
    "sy_cursor s2 0 0 ''9'' = 0"
    by (simp_all add: s2_def duo_connected_def duo_system_def sample_cluster_def subscribe_def)
  have g: "NewGenerator 1 = \<lparr>workerID = 1, sequence = 0, lastStamp = 0\<rparr>"
    using workerID_NewGenerator [of 1] by (simp add: NewGenerator_def Let_def split: if_splits)
  have w: "node_world (sy_api s2) 0 = duo_world"
    by (simp add: s2_def node_world_def duo_connected_def duo_system_def sample_cluster_def sample_world_def duo_world_def g)
  obtain q' where r: "send_run sample_deps 6 (?q, duo_world) = Some (q', duo_sent)"
    using send_run_alone [of sample_deps 0 "''k''" "sample_msg ''7''" duo_world] by (auto simp: duo_send)
  have n: "q_node q' = 0" using send_run_node [OF r] by (simp add: new_req_def)
  define s3 where "s3 = s2\<lparr>sy_api := (put_world 0 duo_sent (sy_api s2))\<lparr>c_reqs := [q']\<rparr>\<rparr>"
  have s3: "duo_reach s3"
    using system_runs [OF duo_request [folded s2_def], where i = 0 and n = 0 and k = 6 and q' = q' and w' = duo_sent] r
    by (simp add: sample_node w api s3_def) (simp add: new_req_def)
  obtain v where v: "rr_sent (w_redis duo_sent) = [(''chat:room:'' @ ''9'', v)]" "json_unmarshal (render v) = Some v"
    "Unmarshal_message (tjson sample_deps) v = Some sent_msg" by (rule duo_wire)
  have x: "sy_ws s3 0 = start_session ''8'' [''9''] \<lparr>sessions = [], hub = NewHub\<rparr>" "sy_cursor s3 0 0 ''9'' = 0"
    "rr_sent (c_redis (sy_api s3)) = [(''chat:room:'' @ ''9'', v)]"
    by (simp_all add: s3_def api v(1))
  obtain s where s: "duo_reach s" "sy_api s = sy_api s3" "map frames (sessions (sy_ws s 0)) = [[JsonFrame sent_msg]]"
    "map UserID (sessions (sy_ws s 0)) = [''8'']" by (rule duo_receives [OF s3 x v(2,3)])
  have "w_pos duo_sent = 2" by (simp add: duo_sent_def after_send_def)
  then have "map q_node (c_reqs (sy_api s)) = [0]" "c_pos (sy_api s) = (\<lambda>n. if n = 0 then 2 else 0)"
    by (auto simp: s(2) s3_def n api(2))
  moreover have "messages (ref_tables (c_db (sy_api s))) = messages (ref_tables (w_db duo_sent))" by (simp add: s(2) s3_def)
  moreover note s(1,3,4)
  ultimately show ?thesis by (intro exI conjI)
qed

section \<open>Properties\<close>

text \<open>
  (C7) What a client is sent is stored and meant for the user: in every state the system can reach, a message written to a WebSocket is in the
  messages table, was sent by somebody else, and belongs to a channel of which the user was a member at an earlier moment, before the
  session was opened: who joins a channel later is not sent its messages until the next connection.
\<close>

theorem delivered_is_stored:
  assumes "backend E cf tabs keys sent" and "system_reach E clk cf tabs keys sent wid s"
    and "i < length (sessions (sy_ws s n))" and "JsonFrame m \<in> set (frames (sessions (sy_ws s n) ! i))"
  shows "stored (tabs (c_db (sy_api s))) m \<and> SenderID m \<noteq> UserID (sessions (sy_ws s n) ! i) \<and>
    (\<exists>s0. system_reach E clk cf tabs keys sent wid s0 \<and> (system_step E clk cf tabs keys sent)\<^sup>*\<^sup>* s0 s \<and>
      length (sessions (sy_ws s0 n)) \<le> i \<and> has_member cf (tabs (c_db (sy_api s0))) (ConversationID m) (UserID (sessions (sy_ws s n) ! i)))"
proof (intro conjI)
  let ?s = "sessions (sy_ws s n) ! i"
  have m: "m \<in> set (taken_in ?s)" using assms(4) by (simp add: taken_in_def json_messages_set)
  then show "stored (tabs (c_db (sy_api s))) m" by (rule frame_stored [OF assms(1-3)])
  show "SenderID m \<noteq> UserID ?s"
  proof -
    have "session_ok ?s" using ws_reach_inv [OF sw.reach_sim [OF assms(2)]] assms(3) by (simp add: ws_inv_def)
    then have "foreign_frame (UserID ?s) (JsonFrame m)" using assms(4) unfolding session_ok_def list_all_iff by blast
    then show ?thesis by simp
  qed
  show "\<exists>s0. system_reach E clk cf tabs keys sent wid s0 \<and> (system_step E clk cf tabs keys sent)\<^sup>*\<^sup>* s0 s \<and>
      length (sessions (sy_ws s0 n)) \<le> i \<and> has_member cf (tabs (c_db (sy_api s0))) (ConversationID m) (UserID ?s)"
    by (rule system_members [OF assms(1-3), unfolded was_member_def]) (use m in simp)
qed

theorem delivered_is_stored_witness:
  "\<exists>s. duo_reach s \<and> stored (ref_tables (c_db (sy_api s))) sent_msg"
proof -
  obtain s where s: "duo_reach s" "map frames (sessions (sy_ws s 0)) = [[JsonFrame sent_msg]]" using duo_delivered by (elim exE conjE) (rule that)
  then have "0 < length (sessions (sy_ws s 0))" "JsonFrame sent_msg \<in> set (frames (sessions (sy_ws s 0) ! 0))"
    by (cases "sessions (sy_ws s 0)"; simp)+
  from delivered_is_stored [OF sample_backend s(1) this, THEN conjunct1] s(1) show ?thesis by (intro exI conjI)
qed

text \<open>
  (C13) Order: of each channel, a session has been sent and has in its buffer some of the messages published in the channel's room, in the order
  in which they were published, each at most as often as it was published.
\<close>

theorem realtime_in_order:
  assumes "backend E cf tabs keys sent" and "system_reach E clk cf tabs keys sent wid s" and "i < length (sessions (sy_ws s n))"
  shows "subseq (in_channel ch (taken_in (sessions (sy_ws s n) ! i)))
    (in_channel ch (published_messages (tjson E) (sent (c_redis (sy_api s)))))"
  by (rule taken_in_log [OF assms])

theorem realtime_in_order_witness:
  "\<exists>s. duo_reach s \<and> map frames (sessions (sy_ws s 0)) = [[JsonFrame sent_msg]] \<and>
     subseq (in_channel ''9'' (taken_in (sessions (sy_ws s 0) ! 0)))
       (in_channel ''9'' (published_messages (tjson sample_deps) (rr_sent (c_redis (sy_api s)))))"
proof -
  obtain s where s: "duo_reach s" "map frames (sessions (sy_ws s 0)) = [[JsonFrame sent_msg]]" using duo_delivered by (elim exE conjE) (rule that)
  then have "0 < length (sessions (sy_ws s 0))" by (cases "sessions (sy_ws s 0)") simp_all
  from realtime_in_order [OF sample_backend s(1) this] s show ?thesis by (intro exI conjI)
qed

text \<open>
  (C8) At most once: if the worker numbers of the nodes are kept apart and no clock has gone back or left its range, no session
  ever takes in two messages with the same identifier, whatever the interleaving of calls, listeners and pumps.
\<close>

theorem realtime_at_most_once:
  assumes "backend E cf tabs keys sent" and "system_reach E clk cf tabs keys sent wid s" and "i < length (sessions (sy_ws s n))"
    and "\<forall>n. clock_in_range (clk n) 0 (c_pos (sy_api s) n) \<and> clock_monotone (clk n) 0 (c_pos (sy_api s) n)"
    and "workers_apart clk wid (sy_api s)"
  shows "distinct (map msg_ID (taken_in (sessions (sy_ws s n) ! i)))"
proof (rule distinct_by_channel)
  let ?out = "sent (c_redis (sy_api s))"
  show "distinct (map msg_ID (published_messages (tjson E) ?out))"
    by (rule published_distinct [OF system_log [OF assms(1,2)] cluster_ids [OF system_cluster [OF assms(1,2)] assms(4-)]])
  show "subseq (in_channel ch (taken_in (sessions (sy_ws s n) ! i))) (in_channel ch (published_messages (tjson E) ?out))" for ch
    by (rule taken_in_log [OF assms(1-3)])
qed

theorem realtime_at_most_once_witness:
  "\<exists>s. duo_reach s \<and> map frames (sessions (sy_ws s 0)) = [[JsonFrame sent_msg]] \<and>
     distinct (map msg_ID (taken_in (sessions (sy_ws s 0) ! 0)))"
proof -
  obtain s where s: "duo_reach s" "map frames (sessions (sy_ws s 0)) = [[JsonFrame sent_msg]]" "map UserID (sessions (sy_ws s 0)) = [''8'']"
    "map q_node (c_reqs (sy_api s)) = [0]" "c_pos (sy_api s) = (\<lambda>n. if n = 0 then 2 else 0)"
    using duo_delivered by (elim exE conjE) (rule that)
  then have i: "0 < length (sessions (sy_ws s 0))" by (cases "sessions (sy_ws s 0)") simp_all
  have clocks: "\<forall>n. clock_in_range sample_clock 0 (c_pos (sy_api s) n) \<and> clock_monotone sample_clock 0 (c_pos (sy_api s) n)"
    using clock_range_subset [OF sample_clock_ok(1)] clock_monotone_subset [OF sample_clock_ok(2)] by (simp add: s(5))
  have "q_node ` set (c_reqs (sy_api s)) = {0}" using arg_cong [OF s(4), of set] by simp
  then have q: "\<forall>q\<in>set (c_reqs (sy_api s)). q_node q = 0" by blast
  have "distinct (map msg_ID (taken_in (sessions (sy_ws s 0) ! 0)))"
    by (rule realtime_at_most_once [OF sample_backend s(1) i clocks]) (use q in \<open>simp add: workers_apart_def\<close>)
  with s(1,2) show ?thesis by (intro exI conjI)
qed

text \<open>
  (C17) Merging by identifier is sound: a message that a client was sent over the WebSocket and a message with the same identifier in the
  page of a later or earlier sync, whatever channel and position were asked for, have the same channel, sender and content. So a client
  that keeps one message per identifier loses nothing when the real-time stream and the sync overlap.
\<close>

theorem realtime_sync_agree:
  assumes "backend E cf tabs keys sent" and "system_reach E clk cf tabs keys sent wid s"
    and "i < length (sessions (sy_ws s n))" and "JsonFrame m \<in> set (frames (sessions (sy_ws s n) ! i))"
    and "m' \<in> set (page cf (tabs (c_db (sy_api s))) ch l)" and "msg_ID m' = msg_ID m"
  shows "ConversationID m' = ConversationID m \<and> SenderID m' = SenderID m \<and> Content m' = Content m"
proof -
  let ?t = "tabs (c_db (sy_api s))"
  have "m \<in> set (taken_in (sessions (sy_ws s n) ! i))" using assms(4) by (simp add: taken_in_def json_messages_set)
  from frame_stored [OF assms(1-3) this] obtain r where r: "r \<in> set (messages ?t)" "r_id r = msg_ID m"
    "r_conversation_id r = ConversationID m" "r_sender_id r = SenderID m" "r_content r = Content m"
    by (auto simp: stored_def list_ex_iff)
  obtain r' where r': "r' \<in> set (messages ?t)" "m' = message_of r'"
    using assms(5) by (auto simp: page_def messages_since_def dest!: in_set_takeD)
  have "distinct (map r_id (messages ?t))" using system_tables_ok [OF assms(1,2)] by (simp add: tables_ok_def)
  then have "r' = r" using r(1,2) r' assms(6) by (auto simp: distinct_map message_of_def inj_on_def)
  with r r' show ?thesis by (simp add: message_of_def)
qed

theorem realtime_sync_agree_witness:
  "\<exists>s m'. duo_reach s \<and> m' \<in> set (page plain_conf (ref_tables (c_db (sy_api s))) ''9'' 0) \<and> Content m' = Content sent_msg"
proof -
  obtain s where s: "duo_reach s" "map frames (sessions (sy_ws s 0)) = [[JsonFrame sent_msg]]"
    "messages (ref_tables (c_db (sy_api s))) = messages (ref_tables (w_db duo_sent))" using duo_delivered by (elim exE conjE) (rule that)
  then have i: "0 < length (sessions (sy_ws s 0))" "JsonFrame sent_msg \<in> set (frames (sessions (sy_ws s 0) ! 0))"
    by (cases "sessions (sy_ws s 0)"; simp)+
  have p: "sent_msg \<in> set (page plain_conf (ref_tables (c_db (sy_api s))) ''9'' 0)"
    by (simp add: s(3) duo_sent_def after_send_def page_def messages_since_def same_def message_of_def sent_msg_def sample_msg_def)
  from realtime_sync_agree [OF sample_backend s(1) i p refl, THEN conjunct2, THEN conjunct2] s(1) p show ?thesis by (intro exI conjI)
qed

end
