(* ===== verification/Deployment.thy ===== *)
theory Deployment
  imports Fleet Ws_Main Realtime
begin

text \<open>
  The whole deployment: the API processes of \<open>Fleet\<close> and the worker processes of \<open>Ws_Main\<close>, with their starts, signals and exits, over one MySQL and one
  Redis. Its data is a system of \<open>Realtime\<close>, its API side a fleet, each of its workers a process of \<open>Ws_Main\<close>, so
  the properties of all three hold of it; what only the whole shows is how far the two sides depend on each other.
\<close>

section \<open>Processes and data\<close>

text \<open>A worker that has not been started has no phase.\<close>

record ('d, 'r) deployment =
  dp_sys :: "('d, 'r) system"
  dp_api :: "nat \<Rightarrow> phase"
  dp_ws :: "nat \<Rightarrow> ws_phase option"

definition live :: "ws_phase option \<Rightarrow> bool" where
  "live ph \<longleftrightarrow> ph \<in> {Some WServing, Some WShutdown, Some WClosed}"

definition on_ws :: "nat \<Rightarrow> (worker \<Rightarrow> worker) \<Rightarrow> ('d, 'r) system \<Rightarrow> ('d, 'r) system" where
  "on_ws n f s = s\<lparr>sy_ws := (sy_ws s)(n := f (sy_ws s n))\<rparr>"

text \<open>
  The steps of the API processes are those of the fleet, except that a request is text (\<open>request\<close>); those of the workers are
  the steps of \<open>ws_proc_step\<close>, with what is published as the source of the listeners (\<open>receive\<close>).
\<close>

inductive dep_step ::
    "('d, 'r) deps \<Rightarrow> (nat \<Rightarrow> clock) \<Rightarrow> sql_conf \<Rightarrow> ('d \<Rightarrow> tables) \<Rightarrow> ('r \<Rightarrow> (string \<rightharpoonup> int)) \<Rightarrow> ('r \<Rightarrow> (string \<times> json) list)
       \<Rightarrow> (nat \<Rightarrow> environ) \<Rightarrow> (nat \<Rightarrow> environ) \<Rightarrow> ('d, 'r) deployment \<Rightarrow> ('d, 'r) deployment \<Rightarrow> bool"
  for E clk cf tabs keys sent envs wenvs where
  api: "fleet_step E clk cf tabs keys sent envs (sy_api (dp_sys d), dp_api d) (c, ph) \<Longrightarrow>
    length (c_reqs c) = length (c_reqs (sy_api (dp_sys d))) \<Longrightarrow>
    dep_step E clk cf tabs keys sent envs wenvs d (d\<lparr>dp_sys := (dp_sys d)\<lparr>sy_api := c\<rparr>, dp_api := ph\<rparr>)"
| request: "dp_api d n = Serving \<Longrightarrow> Body r = json_decode text \<Longrightarrow> send_request r = Some msg \<Longrightarrow> message_fits msg \<Longrightarrow>
    dep_step E clk cf tabs keys sent envs wenvs d
      (d\<lparr>dp_sys := (dp_sys d)\<lparr>sy_api := (sy_api (dp_sys d))
         \<lparr>c_reqs := c_reqs (sy_api (dp_sys d)) @ [new_req n (idempotency_header r) msg]\<rparr>\<rparr>\<rparr>)"
| ws_boots: "dp_ws d n = None \<Longrightarrow> ws_boot open_driver ping now (wenvs n) = Inr srv \<Longrightarrow>
    dep_step E clk cf tabs keys sent envs wenvs d
      (d\<lparr>dp_sys := on_ws n (\<lambda>_. ws_worker srv) (dp_sys d), dp_ws := (dp_ws d)(n \<mapsto> WServing)\<rparr>)"
| ws_boot_fails: "dp_ws d n = None \<Longrightarrow> ws_boot open_driver ping now (wenvs n) = Inl err \<Longrightarrow>
    dep_step E clk cf tabs keys sent envs wenvs d (d\<lparr>dp_ws := (dp_ws d)(n \<mapsto> WExited 1)\<rparr>)"
| dial: "dp_ws d n \<in> {Some WServing, Some WShutdown} \<Longrightarrow> ws_route path u upgraded = Some q \<Longrightarrow>
    dep_step E clk cf tabs keys sent envs wenvs d
      (d\<lparr>dp_sys := (dp_sys d)\<lparr>sy_conns := (sy_conns (dp_sys d))(n := sy_conns (dp_sys d) n @ [q])\<rparr>\<rparr>)"
| connect: "live (dp_ws d n) \<Longrightarrow> s = dp_sys d \<Longrightarrow> j < length (sy_conns s n) \<Longrightarrow>
    conn_step (sqldb E) (sy_conns s n ! j, sy_ws s n, c_db (sy_api s)) = (q, wk, db) \<Longrightarrow>
    dep_step E clk cf tabs keys sent envs wenvs d
      (d\<lparr>dp_sys := s\<lparr>sy_api := (sy_api s)\<lparr>c_db := db\<rparr>, sy_ws := (sy_ws s)(n := wk), sy_conns := (sy_conns s)(n := (sy_conns s n)[j := q]),
         sy_cursor := subscribe n (length (sessions (sy_ws s n))) (length (sent (c_redis (sy_api s)))) (sy_cursor s)\<rparr>\<rparr>)"
| receive: "live (dp_ws d n) \<Longrightarrow> s = dp_sys d \<Longrightarrow> i < length (sessions (sy_ws s n)) \<Longrightarrow> ch \<in> set (listeners (sessions (sy_ws s n) ! i)) \<Longrightarrow>
    sy_cursor s n i ch \<le> p \<Longrightarrow> p < length (sent (c_redis (sy_api s))) \<Longrightarrow> sent (c_redis (sy_api s)) ! p = (''chat:room:'' @ ch, v) \<Longrightarrow>
    dep_step E clk cf tabs keys sent envs wenvs d
      (d\<lparr>dp_sys := s\<lparr>sy_ws := (sy_ws s)(n := on_session i (listenToRedis (tjson E) (json_unmarshal (render v))) (sy_ws s n)),
         sy_cursor := pass n i ch (Suc p) (sy_cursor s)\<rparr>\<rparr>)"
| pump: "live (dp_ws d n) \<Longrightarrow> pump_step (sy_ws (dp_sys d) n) wk \<Longrightarrow>
    dep_step E clk cf tabs keys sent envs wenvs d (d\<lparr>dp_sys := on_ws n (\<lambda>_. wk) (dp_sys d)\<rparr>)"
| ws_signal: "dp_ws d n = Some WServing \<Longrightarrow>
    dep_step E clk cf tabs keys sent envs wenvs d
      (d\<lparr>dp_sys := on_ws n worker_shutdown (dp_sys d), dp_ws := (dp_ws d)(n \<mapsto> WShutdown)\<rparr>)"
| ws_closes: "dp_ws d n = Some WShutdown \<Longrightarrow>
    dep_step E clk cf tabs keys sent envs wenvs d (d\<lparr>dp_ws := (dp_ws d)(n \<mapsto> WClosed)\<rparr>)"
| ws_exits: "dp_ws d n = Some WClosed \<Longrightarrow>
    dep_step E clk cf tabs keys sent envs wenvs d (d\<lparr>dp_ws := (dp_ws d)(n \<mapsto> WExited 0)\<rparr>)"
| ws_listen_fails: "dp_ws d n = Some WServing \<Longrightarrow>
    dep_step E clk cf tabs keys sent envs wenvs d (d\<lparr>dp_ws := (dp_ws d)(n \<mapsto> WExited 1)\<rparr>)"

definition dep_start :: "sql_conf \<Rightarrow> ('d \<Rightarrow> tables) \<Rightarrow> ('r \<Rightarrow> (string \<times> json) list) \<Rightarrow> (nat \<Rightarrow> environ) \<Rightarrow> ('d, 'r) deployment \<Rightarrow> bool" where
  "dep_start cf tabs sent envs d \<longleftrightarrow> system_start cf tabs sent (\<lambda>n. WorkerID (Load (envs n))) (dp_sys d) \<and>
     dp_api d = (\<lambda>n. Starting) \<and> dp_ws d = (\<lambda>n. None)"

inductive dep_reach ::
    "('d, 'r) deps \<Rightarrow> (nat \<Rightarrow> clock) \<Rightarrow> sql_conf \<Rightarrow> ('d \<Rightarrow> tables) \<Rightarrow> ('r \<Rightarrow> (string \<rightharpoonup> int)) \<Rightarrow> ('r \<Rightarrow> (string \<times> json) list)
       \<Rightarrow> (nat \<Rightarrow> environ) \<Rightarrow> (nat \<Rightarrow> environ) \<Rightarrow> ('d, 'r) deployment \<Rightarrow> bool"
  for E clk cf tabs keys sent envs wenvs where
  start: "dep_start cf tabs sent envs d \<Longrightarrow> dep_reach E clk cf tabs keys sent envs wenvs d"
| step: "dep_reach E clk cf tabs keys sent envs wenvs d \<Longrightarrow> dep_step E clk cf tabs keys sent envs wenvs d d' \<Longrightarrow>
    dep_reach E clk cf tabs keys sent envs wenvs d'"

interpretation dp: transition_system "dep_start cf tabs sent envs" "dep_step E clk cf tabs keys sent envs wenvs"
    "dep_reach E clk cf tabs keys sent envs wenvs" for E clk cf tabs keys sent envs wenvs
proof
  let ?R = "dep_reach E clk cf tabs keys sent envs wenvs" and ?S = "dep_step E clk cf tabs keys sent envs wenvs"
  show "P s" if "?R s" "\<And>s. dep_start cf tabs sent envs s \<Longrightarrow> P s" "\<And>s t. ?R s \<Longrightarrow> P s \<Longrightarrow> ?S s t \<Longrightarrow> P t" for P s
    by (rule dep_reach.induct [OF that(1)]) (erule that(2), erule (2) that(3))
qed (auto intro: dep_reach.intros)

section \<open>The data is a system\<close>

lemma unstarted:
  "dep_reach E clk cf tabs keys sent envs wenvs d \<Longrightarrow> dp_ws d n = None \<Longrightarrow>
   sy_ws (dp_sys d) n = \<lparr>sessions = [], hub = NewHub\<rparr> \<and> sy_conns (dp_sys d) n = []"
proof (induction rule: dep_reach.induct)
  case (start d)
  then show ?case by (simp add: dep_start_def system_start_def)
next
  case (step d d')
  from step.hyps(2) step.IH step.prems show ?case by cases (auto simp: on_ws_def live_def split: if_splits)
qed

lemma on_ws_same: "f (sy_ws s n) = sy_ws s n \<Longrightarrow> on_ws n f s = s"
  by (simp add: on_ws_def)

lemma dep_step_system:
  assumes "dep_reach E clk cf tabs keys sent envs wenvs d" and "dep_step E clk cf tabs keys sent envs wenvs d d'"
  shows "dp_sys d' = dp_sys d \<or> system_step E clk cf tabs keys sent (dp_sys d) (dp_sys d')"
  using assms(2)
proof cases
  case (api c ph)
  from fleet_step_cluster [OF api(2)] show ?thesis using api(1,3) system_step.api [of E clk cf tabs keys sent "dp_sys d" c] by auto
next
  case (ws_boots n od ping now srv)
  then show ?thesis using unstarted [OF assms(1) ws_boots(2)] ws_boot_worker [OF ws_boots(3)] by (simp add: on_ws_same)
next
  case (dial n path u up q)
  then show ?thesis by (auto simp: ws_route_def system_step.dial split: if_splits)
next
  case (connect n s j q wk db)
  then show ?thesis using system_step.connect [OF connect(4,5)] by simp
next
  case (receive n s i ch p v)
  then show ?thesis by (simp add: system_step.receive)
next
  case (pump n wk)
  then show ?thesis using system_step.pump [OF pump(3)] by (simp add: on_ws_def)
next
  case (ws_signal n)
  then show ?thesis by (simp add: on_ws_def system_step.shutdown)
qed (auto intro: system_step.request)

interpretation ds: refinement "dep_start cf tabs sent envs" "dep_step E clk cf tabs keys sent envs wenvs"
    "dep_reach E clk cf tabs keys sent envs wenvs" "system_start cf tabs sent (\<lambda>n. WorkerID (Load (envs n)))"
    "system_step E clk cf tabs keys sent" "system_reach E clk cf tabs keys sent (\<lambda>n. WorkerID (Load (envs n)))" dp_sys
  for E clk cf tabs keys sent envs wenvs
proof
  show "(system_step E clk cf tabs keys sent)\<^sup>*\<^sup>* (dp_sys s) (dp_sys t)"
    if "dep_reach E clk cf tabs keys sent envs wenvs s" "dep_step E clk cf tabs keys sent envs wenvs s t" for s t
    using dep_step_system [OF that] by auto
qed (simp add: dep_start_def)

section \<open>The API side is a fleet\<close>

definition dep_fleet :: "('d, 'r) deployment \<Rightarrow> ('d, 'r) cluster \<times> (nat \<Rightarrow> phase)" where
  "dep_fleet d = (sy_api (dp_sys d), dp_api d)"

lemma dep_step_fleet:
  assumes "backend E cf tabs keys sent" and "dep_step E clk cf tabs keys sent envs wenvs d d'"
  shows "dep_fleet d' = dep_fleet d \<or> fleet_step E clk cf tabs keys sent envs (dep_fleet d) (dep_fleet d')"
  using assms(2)
proof cases
  case (connect n s j q wk db)
  have "tabs db = tabs (c_db (sy_api s))" by (rule conn_step_tabs [OF backend.axioms(1) [OF assms(1)] connect(5)])
  then have "fleet_step E clk cf tabs keys sent envs (sy_api s, dp_api d) ((sy_api s)\<lparr>c_db := db, c_redis := c_redis (sy_api s)\<rparr>, dp_api d)"
    by (intro fleet_step.others) (simp_all add: sql_steps.none)
  with connect show ?thesis by (simp add: dep_fleet_def)
qed (simp_all add: dep_fleet_def on_ws_def fleet_step.arrives)

lemma deployment_refines_fleet:
  assumes "backend E cf tabs keys sent"
  shows "refinement (dep_start cf tabs sent envs) (dep_step E clk cf tabs keys sent envs wenvs) (dep_reach E clk cf tabs keys sent envs wenvs)
    (fleet_start sent envs) (fleet_step E clk cf tabs keys sent envs) (fleet_reach E clk cf tabs keys sent envs) dep_fleet"
proof
  show "(fleet_step E clk cf tabs keys sent envs)\<^sup>*\<^sup>* (dep_fleet s) (dep_fleet t)"
    if "dep_step E clk cf tabs keys sent envs wenvs s t" for s t
    using dep_step_fleet [OF assms that] by auto
qed (simp add: dep_start_def system_start_def fleet_start_def dep_fleet_def)

section \<open>Each worker is a process\<close>

definition dep_worker :: "nat \<Rightarrow> ws_phase \<Rightarrow> ('d, 'r) deployment \<Rightarrow> 'd ws_proc" where
  "dep_worker n ph d = \<lparr>wp_phase = ph, wp_worker = sy_ws (dp_sys d) n, wp_conns = sy_conns (dp_sys d) n, wp_db = c_db (sy_api (dp_sys d))\<rparr>"

lemmas worker_moves [intro] = ws_proc_step.intros [where p = "\<lparr>wp_phase = ph, wp_worker = w0, wp_conns = cs, wp_db = db0\<rparr>" for ph w0 cs db0, simplified]

lemma dep_step_worker:
  assumes "dep_step E clk cf tabs keys sent envs wenvs d d'" and "dp_ws d n = Some ph"
  shows "\<exists>ph'. dp_ws d' n = Some ph' \<and> (ws_proc_step (sqldb E) (tjson E))\<^sup>*\<^sup>* (dep_worker n ph d) (dep_worker n ph' d')"
  using assms(1)
proof cases
  case (dial k path u up q)
  then show ?thesis using assms(2) by (cases "k = n") (auto simp: dep_worker_def)
next
  case (connect k s j q wk db)
  then show ?thesis using assms(2) by (cases "k = n") (auto simp: dep_worker_def live_def)
next
  case (receive k s i ch p v)
  then show ?thesis using assms(2) goroutine_step.redis_message [OF receive(4,5)] by (cases "k = n") (auto simp: dep_worker_def live_def)
next
  case (pump k wk)
  then show ?thesis using assms(2) goroutine_step.pump [OF pump(3)] by (cases "k = n") (auto simp: dep_worker_def on_ws_def live_def)
qed (use assms(2) in \<open>auto simp: dep_worker_def on_ws_def intro!: r_into_rtranclp\<close>)

lemma dep_workers:
  "dep_reach E clk cf tabs keys sent envs wenvs d \<Longrightarrow> dp_ws d n = Some ph \<Longrightarrow> ws_proc_reach (sqldb E) (tjson E) (dep_worker n ph d)"
proof (induction arbitrary: ph rule: dep_reach.induct)
  case (start d)
  then show ?case by (simp add: dep_start_def)
next
  case (step d d')
  show ?case
  proof (cases "dp_ws d n")
    case (Some ph0)
    from dep_step_worker [OF step.hyps(2) this] step.prems
    have "(ws_proc_step (sqldb E) (tjson E))\<^sup>*\<^sup>* (dep_worker n ph0 d) (dep_worker n ph d')" by auto
    with step.IH [OF Some] show ?thesis by (rule wp.conc.reach_steps)
  next
    case None
    note u = unstarted [OF step.hyps(1) None]
    from step.hyps(2) have "ws_started (dep_worker n ph d')"
    proof cases
      case (ws_boots k od ping now srv)
      with None step.prems u show ?thesis
        by (auto simp: ws_started_def dep_worker_def on_ws_def split: if_splits) blast
    next
      case (ws_boot_fails k od ping now err)
      with None step.prems u show ?thesis
        by (auto simp: ws_started_def dep_worker_def split: if_splits) blast
    qed (use None step.prems in \<open>auto simp: live_def split: if_splits\<close>)
    then show ?thesis by (rule ws_proc_reach.boot)
  qed
qed

section \<open>What is stored stays\<close>

lemma dep_stored:
  assumes "backend E cf tabs keys sent" and "(dep_step E clk cf tabs keys sent envs wenvs)\<^sup>*\<^sup>* d d'"
    and "dep_reach E clk cf tabs keys sent envs wenvs d" and "stored (tabs (c_db (sy_api (dp_sys d)))) m"
  shows "stored (tabs (c_db (sy_api (dp_sys d')))) m"
  using assms(2-4)
proof (rule dp.steps_keep)
  fix d d' assume r: "dep_reach E clk cf tabs keys sent envs wenvs d" and m: "stored (tabs (c_db (sy_api (dp_sys d)))) m"
    and s: "dep_step E clk cf tabs keys sent envs wenvs d d'"
  from dep_step_system [OF r s] show "stored (tabs (c_db (sy_api (dp_sys d')))) m"
    using stored_steps [OF system_step_effect(1) [OF assms(1) ds.reach_sim [OF r]] m] m by auto
qed

text \<open>A request that a serving node takes in and handles without interruption, whatever the other processes are doing.\<close>

lemma dep_request_runs:
  assumes "dp_api d n = Serving" and "Body r = json_decode text" and "send_request r = Some msg" and "message_fits msg"
    and "SendMessage (node_deps E clk n) msg (idempotency_header r) (node_world (sy_api (dp_sys d)) n) = Some (res, m, w')"
  shows "\<exists>q. pc_result (q_pc q) = Some res \<and> q_msg q = m \<and>
    (dep_step E clk cf tabs keys sent envs wenvs)\<^sup>*\<^sup>* d (d\<lparr>dp_sys := (dp_sys d)\<lparr>sy_api :=
      (put_world n w' (sy_api (dp_sys d)))\<lparr>c_reqs := c_reqs (sy_api (dp_sys d)) @ [q]\<rparr>\<rparr>\<rparr>)"
proof -
  let ?S = "dep_step E clk cf tabs keys sent envs wenvs" and ?c = "sy_api (dp_sys d)" and ?q = "new_req n (idempotency_header r) msg"
  let ?d = "\<lambda>c. d\<lparr>dp_sys := (dp_sys d)\<lparr>sy_api := c\<rparr>\<rparr>" and ?i = "length (c_reqs (sy_api (dp_sys d)))"
  let ?c1 = "?c\<lparr>c_reqs := c_reqs ?c @ [?q]\<rparr>"
  obtain q where run: "send_run (node_deps E clk n) 6 (?q, node_world ?c n) = Some (q, w')" and q: "pc_result (q_pc q) = Some res" "q_msg q = m"
    using send_run_alone [of "node_deps E clk n" n "idempotency_header r" msg "node_world ?c n"] by (auto simp: assms(5))
  have "?S\<^sup>*\<^sup>* d (?d ((put_world n w' ?c1)\<lparr>c_reqs := (c_reqs ?c1)[?i := q]\<rparr>))"
  proof (rule call_runs [where R = "\<lambda>c. ?S\<^sup>*\<^sup>* d (?d c)" and c = ?c1 and i = ?i and n = n])
    show "?S\<^sup>*\<^sup>* d (?d ?c1)" using dep_step.request [OF assms(1-4)] by blast
    show "send_run (node_deps E clk n) 6 (c_reqs ?c1 ! ?i, node_world ?c1 n) = Some (q, w')" using run by (simp add: node_world_def)
    fix c q1 w1
    assume c: "?S\<^sup>*\<^sup>* d (?d c)" "?i < length (c_reqs c)" "q_node (c_reqs c ! ?i) = n"
      "send_step (node_deps E clk n) (c_reqs c ! ?i, node_world c n) = Some (q1, w1)"
    have "fleet_step E clk cf tabs keys sent envs (c, dp_api d) ((put_world n w1 c)\<lparr>c_reqs := (c_reqs c)[?i := q1]\<rparr>, dp_api d)"
      using fleet_step.advances [OF c(2) refl, where ph = "dp_api d"] c(3,4) assms(1) by simp
    then have "?S (?d c) (?d ((put_world n w1 c)\<lparr>c_reqs := (c_reqs c)[?i := q1]\<rparr>))"
      using dep_step.api [where d = "?d c" and ph = "dp_api d"] by simp
    with c(1) show "?S\<^sup>*\<^sup>* d (?d ((put_world n w1 c)\<lparr>c_reqs := (c_reqs c)[?i := q1]\<rparr>))" by (rule rtranclp.rtrancl_into_rtrancl)
  qed (simp_all add: new_req_def)
  then have "?S\<^sup>*\<^sup>* d (?d ((put_world n w' ?c)\<lparr>c_reqs := c_reqs ?c @ [q]\<rparr>))" by (simp add: put_world_def)
  with q show ?thesis by blast
qed

section \<open>A sample deployment\<close>

text \<open>
  The members of the sample of \<open>Realtime\<close>; node 0 serves, worker 0 could not reach the database and has exited. Alice's request is handled,
  then node 0 is stopped.
\<close>

abbreviation solo_step :: "(ref_server, ref_redis) deployment \<Rightarrow> (ref_server, ref_redis) deployment \<Rightarrow> bool" where
  "solo_step \<equiv> dep_step sample_deps (\<lambda>n. sample_clock) plain_conf ref_tables (\<lambda>r. map_of (rr_keys r)) rr_sent (\<lambda>n. sample_envs 0) (\<lambda>n. Map.empty)"

abbreviation solo_reach :: "(ref_server, ref_redis) deployment \<Rightarrow> bool" where
  "solo_reach \<equiv> dep_reach sample_deps (\<lambda>n. sample_clock) plain_conf ref_tables (\<lambda>r. map_of (rr_keys r)) rr_sent (\<lambda>n. sample_envs 0) (\<lambda>n. Map.empty)"

definition solo :: "(ref_server, ref_redis) deployment" where
  "solo = \<lparr>dp_sys = duo_system, dp_api = (\<lambda>n. Starting)(0 := Serving), dp_ws = [0 \<mapsto> WExited 1]\<rparr>"

definition solo_later :: "send_req \<Rightarrow> (ref_server, ref_redis) deployment" where
  "solo_later q = solo\<lparr>dp_sys := duo_system\<lparr>sy_api := (put_world 0 duo_sent (sy_api duo_system))\<lparr>c_reqs := [q]\<rparr>\<rparr>\<rparr>"

lemma solo_reach: "solo_reach solo"
proof -
  let ?d = "\<lparr>dp_sys = duo_system, dp_api = (\<lambda>n. Starting), dp_ws = (\<lambda>n. None)\<rparr>"
  have "system_start plain_conf ref_tables rr_sent (\<lambda>n. 1) duo_system"
    by (simp add: system_start_def cluster_start_def duo_system_def sample_cluster_def sample_world_def duo_world_def tables_ok_def has_defs
        duo_tables_def sample_defs)
  then have s: "solo_reach ?d" by (intro dep_reach.start) (simp add: dep_start_def sample_env_worker)
  obtain srv h where "api_boot (\<lambda>d. None) (\<lambda>d. None) 7 (sample_envs 0) = Inr (srv, h)" by (auto simp: api_boot_result Connect_def Let_def)
  then have b: "fleet_step sample_deps (\<lambda>n. sample_clock) plain_conf ref_tables (\<lambda>r. map_of (rr_keys r)) rr_sent (\<lambda>n. sample_envs 0)
      (sy_api (dp_sys ?d), dp_api ?d) (sy_api duo_system, (\<lambda>n. Starting)(0 := Serving))"
    using fleet_step.boots [where ph = "dp_api ?d" and n = 0] by fastforce
  have d1: "solo_reach (?d\<lparr>dp_api := (\<lambda>n. Starting)(0 := Serving)\<rparr>)"
    using dep_reach.step [OF s dep_step.api [OF b]] by simp
  have "ws_boot (\<lambda>d. None) (\<lambda>d. Some ErrNoRows) 7 Map.empty = Inl ErrNoRows" by (simp add: ws_boot_def Connect_def Let_def)
  from dep_reach.step [OF d1 dep_step.ws_boot_fails [OF _ this, where n = 0]] show ?thesis by (simp add: solo_def)
qed

lemma solo_node: "dp_api solo 0 = Serving" "c_reqs (sy_api duo_system) = []" "dp_sys solo = duo_system" "dp_ws solo 0 = Some (WExited 1)"
  by (simp_all add: solo_def duo_system_def sample_cluster_def)

lemma solo_SendMessage:
  "SendMessage (node_deps sample_deps (\<lambda>n. sample_clock) 0) (sample_msg ''7'') (idempotency_header (sample_request ''7''))
     (node_world (sy_api (dp_sys solo)) 0) = Some (None, sent_msg, duo_sent)"
proof -
  have "node_world (sy_api (dp_sys solo)) 0 = duo_world"
    using workerID_NewGenerator [of 1]
    by (simp add: solo_def node_world_def duo_system_def sample_cluster_def sample_world_def duo_world_def NewGenerator_def Let_def split: if_splits)
  then show ?thesis using duo_send by (simp add: sample_node) (simp add: sample_request_def)
qed

lemma solo_sent:
  obtains q where "solo_step\<^sup>*\<^sup>* solo (solo_later q)" "pc_result (q_pc q) = Some None" "q_msg q = sent_msg"
proof -
  have body: "Body (sample_request ''7'') =
      json_decode (render (JObj [(''conversation_id'', JStr ''9''), (''sender_id'', JStr ''7''), (''content'', JStr ''hi'')]))"
    by (simp only: decode_sample_text sample_request_def request.simps)
  have r: "send_request (sample_request ''7'') = Some (sample_msg ''7'')" by (rule sample_send_request) simp
  from dep_request_runs [OF solo_node(1) body r sample_fits(1) solo_SendMessage, where cf = plain_conf and tabs = ref_tables and keys = "\<lambda>r. map_of (rr_keys r)" and
      sent = rr_sent and envs = "\<lambda>n. sample_envs 0" and wenvs = "\<lambda>n. Map.empty"] show ?thesis
    by (elim exE conjE) (rule that, simp_all add: solo_later_def solo_node)
qed

lemma solo_later_reach: "solo_step\<^sup>*\<^sup>* solo d \<Longrightarrow> solo_reach d"
  by (rule dp.reach_steps [OF solo_reach])

lemma solo_stops: "solo_step\<^sup>*\<^sup>* (solo_later q) ((solo_later q)\<lparr>dp_api := (\<lambda>n. Starting)(0 := Exited 0)\<rparr>)"
proof -
  let ?F = "fleet_step sample_deps (\<lambda>n. sample_clock) plain_conf ref_tables (\<lambda>r. map_of (rr_keys r)) rr_sent (\<lambda>n. sample_envs 0)"
  let ?c = "sy_api (dp_sys (solo_later q))" and ?d = "(solo_later q)\<lparr>dp_api := (\<lambda>n. Starting)(0 := Closing)\<rparr>"
  have "?F (?c, dp_api (solo_later q)) (?c, (\<lambda>n. Starting)(0 := Closing))"
    using fleet_step.signal [where ph = "dp_api (solo_later q)" and n = 0] by (simp add: solo_later_def solo_def)
  from dep_step.api [OF this] have s: "solo_step (solo_later q) ?d" by simp
  have "?F (sy_api (dp_sys ?d), dp_api ?d) (?c, (\<lambda>n. Starting)(0 := Exited 0))"
    using fleet_step.exits [where ph = "dp_api ?d" and n = 0] by simp
  from dep_step.api [OF this] have "solo_step ?d ((solo_later q)\<lparr>dp_api := (\<lambda>n. Starting)(0 := Exited 0)\<rparr>)" by simp
  with s show ?thesis by (meson converse_rtranclp_into_rtranclp rtranclp.rtrancl_refl)
qed

section \<open>Properties\<close>



text \<open>
  (C4) Nothing that is stored is lost: when a call has inserted its message, whether it has answered or is about to publish it, then in
  every later state of the deployment, whichever processes were stopped in between, a client that pages through the channel from an
  identifier below the message's, with enough error-free requests, gets the message.
\<close>

theorem no_permanent_loss:
  assumes "backend E cf tabs keys sent" and "dep_reach E clk cf tabs keys sent envs wenvs d"
    and "q \<in> set (c_reqs (sy_api (dp_sys d)))" and "q_pc q \<in> {AtPublish, Finished None}"
    and "(dep_step E clk cf tabs keys sent envs wenvs)\<^sup>*\<^sup>* d d'"
    and "catch_up (sqldb E) (ConversationID (q_msg q)) l k (c_db (sy_api (dp_sys d'))) = (Inr ms, db)" and "l < msg_ID (q_msg q)"
    and "length (messages_since cf (tabs (c_db (sy_api (dp_sys d')))) (ConversationID (q_msg q)) l) \<le> 100 * k"
  shows "\<exists>m\<in>set ms. msg_ID m = msg_ID (q_msg q) \<and> ConversationID m = ConversationID (q_msg q) \<and>
    SenderID m = SenderID (q_msg q) \<and> Content m = Content (q_msg q)"
proof -
  let ?t = "tabs (c_db (sy_api (dp_sys d')))" and ?c = "ConversationID (q_msg q)"
  have "stored (tabs (c_db (sy_api (dp_sys d)))) (q_msg q)"
    using cluster_inv [OF assms(1) system_cluster [OF assms(1) ds.reach_sim [OF assms(2)]]] assms(3,4) by (auto simp: store_inv_def)
  then have "stored ?t (q_msg q)" by (rule dep_stored [OF assms(1,5,2)])
  then obtain r where r: "r \<in> set (messages ?t)" "r_id r = msg_ID (q_msg q)" "r_conversation_id r = ?c"
    "r_sender_id r = SenderID (q_msg q)" "r_content r = Content (q_msg q)"
    by (auto simp: stored_def list_ex_iff)
  have "tables_ok cf ?t" by (rule system_tables_ok [OF assms(1) ds.reach_sim [OF dp.reach_steps [OF assms(2,5)]]])
  then have ms: "ms = map message_of (messages_since cf ?t ?c l)"
    by (intro mysql_server.catch_up_contract [OF backend.axioms(1) [OF assms(1)] assms(6) _ assms(8)])
  have "r \<in> set (messages_since cf ?t ?c l)" using r assms(7) by (simp add: messages_since_def same_def)
  then have "message_of r \<in> set ms" by (simp add: ms)
  then show ?thesis by (rule bexI [rotated]) (simp add: message_of_def r)
qed

theorem no_permanent_loss_witness:
  "\<exists>d ms db. solo_reach d \<and> dp_api d 0 = Exited 0 \<and> dp_ws d 0 = Some (WExited 1) \<and>
     catch_up (sqldb sample_deps) ''9'' 0 1 (c_db (sy_api (dp_sys d))) = (Inr ms, db) \<and> (\<exists>m\<in>set ms. Content m = ''hi'')"
proof -
  obtain q where q: "solo_step\<^sup>*\<^sup>* solo (solo_later q)" "pc_result (q_pc q) = Some None" "q_msg q = sent_msg" by (rule solo_sent)
  let ?d = "(solo_later q)\<lparr>dp_api := (\<lambda>n. Starting)(0 := Exited 0)\<rparr>"
  have pc: "q \<in> set (c_reqs (sy_api (dp_sys (solo_later q))))" "q_pc q \<in> {AtPublish, Finished None}"
    using q(2) by (simp_all add: solo_later_def) (cases "q_pc q"; simp)
  have db: "c_db (sy_api (dp_sys ?d)) = w_db duo_sent" by (simp add: solo_later_def)
  have c: "catch_up (sqldb sample_deps) ''9'' 0 1 (w_db duo_sent) = (Inr [sent_msg], w_db duo_sent)"
    unfolding One_nat_def by (simp add: GetMessagesSince_def QueryScan_def sample_defs duo_sent_def duo_tables_def after_send_def messages_since_def
      same_def msg_cells_def sent_msg_def sample_msg_def)
  have id: "ConversationID (q_msg q) = ''9''" "0 < msg_ID (q_msg q)" "Content (q_msg q) = ''hi''"
    by (simp_all add: q(3) sent_msg_def sample_msg_def)
  have "length (messages_since plain_conf (ref_tables (w_db duo_sent)) ''9'' 0) \<le> 100 * 1"
    by (simp add: messages_since_def duo_sent_def after_send_def sample_defs)
  from no_permanent_loss [OF sample_backend solo_later_reach [OF q(1)] pc solo_stops, of 0 1 "[sent_msg]" "w_db duo_sent", unfolded db id(1)] c id(2,3) this
  have "\<exists>m\<in>set [sent_msg]. Content m = ''hi''" by auto
  moreover have "solo_reach ?d" by (rule dp.reach_steps [OF solo_later_reach [OF q(1)] solo_stops])
  moreover have "dp_api ?d 0 = Exited 0" "dp_ws ?d 0 = Some (WExited 1)" by (simp_all add: solo_later_def solo_def)
  ultimately show ?thesis using c db by metis
qed



end
