(* ===== verification/Spec2Isabelle.thy ===== *)
theory Spec2Isabelle
  imports TeamChat_Prelude Transition_Systems Snowflake Config Domain Database_Pool MySQL Repository Json Json_String Json_Text Redis Service Message_Service User_Service
    Channel_Service Sync_Service Http_Handler Api_Server Concurrent_Send Concurrent_Users Api_Main Fleet
    Hub Ws_Session Teardown Heartbeat Ws_Main Overtaking Idempotency_Window Concurrent_Channels Realtime Deployment
begin

text \<open>
  \<^bold>\<open>TeamChat backend.\<close> TeamChat is a chat backend in Go with two programs. The API server
  (\<^verbatim>\<open>src/services/api-server\<close>) is a stateless HTTP gateway: handlers (\<^verbatim>\<open>internal/handler/http\<close>) call services
  (\<^verbatim>\<open>internal/service\<close>), which use the repositories over MySQL, Redis and the Snowflake generator of
  \<^verbatim>\<open>src/shared\<close>. The WebSocket worker (\<^verbatim>\<open>src/services/ws-worker\<close>) keeps the connections of the users: each
  session listens to the Redis rooms of its user's channels and writes the messages to the socket. A
  message goes from \<^verbatim>\<open>POST /api/v1/messages\<close> through the idempotency lock and the membership check to the
  messages table, then to Redis, and from there to the buffers of the sessions; a client that was offline
  asks \<^verbatim>\<open>/api/v1/sync/deltas\<close>.

  \<^bold>\<open>The theories.\<close>
  \<^item> \<open>TeamChat_Prelude\<close>: machine integers, clocks, decimal text (\<^verbatim>\<open>fmt.Sprintf("%d")\<close>).
  \<^item> \<open>Transition_Systems\<close>: the locales \<open>transition_system\<close> (initial states, steps, reachable states) and \<open>refinement\<close> (a mapping under which the
    steps of one are steps of another). They are interpreted for the workers, the worker processes, the clusters, the fleets, the systems and the
    deployments below, and carry invariants from each to the next.
  \<^item> \<open>Snowflake\<close> (\<^verbatim>\<open>shared/snowflake/snowflake.go\<close>): \<open>generator\<close>, \<open>NewGenerator\<close>, \<open>Next\<close> on 64-bit words. The busy
    wait is a partial function over the clock. Order, uniqueness across workers, layout, termination, and what a clock that
    goes back does.
  \<^item> \<open>Config\<close> (\<^verbatim>\<open>shared/config/config.go\<close>): \<open>Load\<close>, \<open>getEnv\<close>, \<open>getEnvInt64\<close> with its wrap-around.
  \<^item> \<open>Domain\<close> (\<^verbatim>\<open>shared/domain\<close>): the entities, the error values and \<^verbatim>\<open>errors.Is\<close>.
  \<^item> \<open>Database_Pool\<close> (\<^verbatim>\<open>shared/repository/db.go\<close>): \<open>Connect\<close> and the connection pool of \<^verbatim>\<open>database/sql\<close> with the limits it sets.
  \<^item> \<open>MySQL\<close> (\<^verbatim>\<open>scripts/migrations\<close> and the statements in the Go code): tables, statements and their meaning, the
    contract \<open>mysql_server\<close> of the server, a reference server that meets it, and the key constraints
    \<open>tables_ok\<close> that every statement keeps.
  \<^item> \<open>Repository\<close> (\<^verbatim>\<open>shared/repository\<close>): one function per method, and its contract for every \<open>mysql_server\<close>.
  \<^item> \<open>Json\<close>: the decoding and encoding of \<^verbatim>\<open>encoding/json\<close> on JSON values, with the round trip of a message.
  \<^item> \<open>Json_String\<close>, \<open>Json_Text\<close>: the text of JSON documents, UTF-8 and escapes included: \<open>render\<close> (\<^verbatim>\<open>json.Marshal\<close>), \<open>json_unmarshal\<close> and
    \<open>json_decode\<close> (the first value of a \<^verbatim>\<open>Decoder\<close>). What is written is read back; what is read is valid UTF-8.
  \<^item> \<open>Redis\<close> (\<^verbatim>\<open>cache_repo.go\<close>, \<^verbatim>\<open>shared/pubsub\<close>): the contract \<open>redis_server\<close>, a reference server, the lock and \<open>Publish\<close>.
  \<^item> \<open>Service\<close>: the dependencies and state the services share; the locale \<open>backend\<close> joins the two contracts.
  \<^item> \<open>Message_Service\<close>, \<open>User_Service\<close>, \<open>Channel_Service\<close>, \<open>Sync_Service\<close>: the methods of the services. Each writing
    method has a specification (an inductive predicate on tables, keys and published messages) and is
    proved to refine it on any servers that keep their contracts, error paths included.
  \<^item> \<open>Http_Handler\<close> (\<^verbatim>\<open>message_handler.go\<close>): all handlers, with their status codes; what a client may conclude from
    a response.
  \<^item> \<open>Api_Server\<close> (\<^verbatim>\<open>api-server/main.go\<close>): the routes, and the server as a state machine in which other nodes write to
    the same database; the keys of the schema hold in every reachable state.
  \<^item> \<open>Concurrent_Send\<close> (\<^verbatim>\<open>message_service.go\<close>): a call of \<open>SendMessage\<close> cut into its atomic actions, equal to \<open>SendMessage\<close> when it
    runs alone, and a cluster of nodes in which the actions of all calls are interleaved: one accepted call per key,
    publication only of what is stored, unique identifiers. A process that is started again is a new node with the same worker number
    and a later clock.
  \<^item> \<open>Idempotency_Window\<close> (\<^verbatim>\<open>cache_repo.go\<close>): the cluster in time, with keys that Redis drops when their time to live has passed: two accepted
    calls with one key took the lock at least 30 seconds apart.
  \<^item> \<open>Overtaking\<close> (\<^verbatim>\<open>message_service.go\<close>, \<^verbatim>\<open>sync_service.go\<close>): a run of the cluster in which a message is stored below an identifier that a client has
    already synced past.
  \<^item> \<open>Concurrent_Users\<close> (\<^verbatim>\<open>user_service.go\<close>): the same for \<open>CreateUser\<close>, whose check and insert are two statements; one user per name, and
    what the loser of a race is told.
  \<^item> \<open>Concurrent_Channels\<close> (\<^verbatim>\<open>channel_service.go\<close>): the same for \<open>CreateChannel\<close>, whose row and members are separate statements; a channel that
    was returned has its members.
  \<^item> \<open>Api_Main\<close> (\<^verbatim>\<open>api-server/main.go\<close> and all constructors): the objects that \<^verbatim>\<open>main\<close> allocates and wires, in a typed heap; serving a
    request through their pointers refines \<open>ServeHTTP\<close>.
  \<^item> \<open>Fleet\<close> (\<^verbatim>\<open>api-server/main.go\<close>): the processes of a deployment, from their environment through signals to their exit. A fleet is
    a cluster, so the properties of \<open>Concurrent_Send\<close> hold; identifiers are unique when the \<^verbatim>\<open>WORKER_ID\<close> variables are.
  \<^item> \<open>Hub\<close> (\<^verbatim>\<open>hub.go\<close>): the registry of sessions, with its contract \<open>registry\<close>.
  \<^item> \<open>Ws_Session\<close> (\<^verbatim>\<open>ws_handler.go\<close>, \<^verbatim>\<open>client.go\<close>): \<open>ServeWS\<close>, as one call and in small steps (\<open>conn_step\<close>), and the goroutines of a session as a step relation; bounded
    buffers, no echo, order of delivery, and what a shutdown closes.
  \<^item> \<open>Teardown\<close> (\<^verbatim>\<open>client.go\<close>): runs in which the scheduler is fair to the goroutines of a session; once the connection is closed, all of them end and the
    hub forgets the session.
  \<^item> \<open>Heartbeat\<close> (\<^verbatim>\<open>client.go\<close>): the read deadline, the pong handler, the ticker and the write deadline in time; which clients are kept
    and when a silent one is given up. \<open>Ws_Session\<close> leaves open when a read or a write fails, this theory says when.
  \<^item> \<open>Ws_Main\<close> (\<^verbatim>\<open>ws-worker/main.go\<close>): start-up, the route and the life of the worker process; what its signal closes.
  \<^item> \<open>Realtime\<close> (both programs): the API nodes and the WebSocket workers over one MySQL and one Redis, from the text of the requests to the frames on
    the sockets. What a client is sent is stored, comes from a channel of the user, in the order of publication, at most once, and agrees with
    what delta sync returns.
  \<^item> \<open>Deployment\<close> (both \<^verbatim>\<open>main.go\<close>): the processes of \<open>Fleet\<close> and \<open>Ws_Main\<close> around the data of \<open>Realtime\<close>, with starts, signals and exits. It refines the three, so
    their properties hold; what is stored can be fetched whatever stops later, and sending does not need the workers.
  \<^item> this theory: properties that span components.

  \<^bold>\<open>Parameters.\<close> MySQL and Redis are not part of the repository: they are the fields of \<open>deps\<close>, over unknown states,
  with the contracts above as the only assumptions (the assumption \<open>backend E cf tabs keys sent\<close>). A call
  that reports an error may have taken effect. Left open in \<open>sql_conf\<close>: the collation and the rounding of
  time stamps. The clock of a process is a function from positions to readings, each reading taking the
  next position; \<open>time_json\<close> is the text of a time. The order in which Go iterates a map is the order of
  an argument list. Strings are byte lists; lengths are bounded where a column bounds them (\<open>message_fits\<close>,
  \<open>request_fits\<close>).

  The WebSocket package decides what a frame does (\<open>on_frame\<close>, with the contract \<open>frame_reader\<close>), the MySQL driver what opening and pinging give. Each
  contract is interpreted on a reference implementation, which also serves the witnesses.

  \<^bold>\<open>Bounds and loops.\<close> The only loop that may not end is the busy wait of \<open>Next\<close>; it is the value \<open>None\<close>, and \<open>Next\<close> and
  \<open>SendMessage\<close> are proved to return when the clock passes the last stamp. \<open>catch_up\<close> takes the number of requests as
  argument; one per started hundred of messages is proved enough. \<open>send_run\<close> and \<open>user_run\<close> take a number of steps: six and four are
  proved to end a call that runs alone, and for \<open>chan_run\<close> six more than the number of listed members. The reader of JSON text takes fuel, one more than twice the length of the text; more is proved to change
  nothing (\<open>fuel_enough\<close>). No other definition uses fuel.

  \<^bold>\<open>Not modelled.\<close> The text of HTTP (the handlers take the decoded body; \<open>accepted_reaches_listeners\<close> and \<open>Realtime\<close> start from its text), the buffer
  sizes and the origin check of the WebSocket upgrader (whether an upgrade succeeds is an argument of \<open>ServeWS\<close>), and logging. Cancellation of a request's context shows
  up as an error of the server call it interrupts. The membership calls and the reads are one statement each, so they need no small
  steps; in the clusters they appear as the statements of other writers. In \<open>Concurrent_Send\<close> keys do not expire (it describes what happens within the
  30 seconds of a key); \<open>Idempotency_Window\<close> adds their expiry. A listener may miss messages at any moment (Redis keeps nothing for a
  subscriber that is away), so \<open>Realtime\<close> shows safety of the delivery; that a client which asks for deltas gets the rest is \<open>Sync_Service\<close> and \<open>no_permanent_loss\<close>.

  \<^bold>\<open>State.\<close> Every operation of the two programs has a definition, and the theories compose them up to the whole deployment.
\<close>

section \<open>Properties that span components\<close>

lemma accepted_delivers:
  assumes "backend E cf tabs keys sent" and "SendMessage E msg key w = Some (None, m, w')" and "message_fits msg"
    and "time_parse (tjson E) (time_text (tjson E) (msg_CreatedAt m)) = Some (msg_CreatedAt m)"
    and "valid_utf8 (ConversationID m)" "valid_utf8 (SenderID m)" "valid_utf8 (Content m)"
      "valid_utf8 (time_text (tjson E) (msg_CreatedAt m))"
  shows "\<exists>v. sent (w_redis w') = sent (w_redis w) @ [(''chat:room:'' @ ConversationID m, v)] \<and>
    Send (listenToRedis (tjson E) (json_unmarshal (render v)) s) =
      (if SenderID m = UserID s \<or> 256 \<le> length (Send s) then Send s else Send s @ [m])"
proof -
  obtain v where v: "Marshal_message (tjson E) m = Inr v"
    "sent (w_redis w') = sent (w_redis w) @ [(''chat:room:'' @ ConversationID m, v)]"
    using spec_accepted [OF backend.SendMessage_spec [OF assms(1-3)]] by (auto simp: board_of_simps)
  have "json_unmarshal (render v) = Some v" "Unmarshal_message (tjson E) v = Some m"
    using unmarshal_message_text [OF v(1) assms(4-)] by auto
  with v(2) show ?thesis by (auto simp: listenToRedis_def forward_def sendBuffer_def)
qed

text \<open>
  (C12) From the text of a request to the other members' buffers: a message whose request was answered with 202 is published exactly
  once, in the room of its channel, and a listener of the WebSocket worker that reads the published text decodes it to that very message
  and appends it to its session's buffer, unless the session is the sender's own or its buffer is full. (The text of a time is
  assumed to be valid and to parse back.)
\<close>

theorem accepted_reaches_listeners:
  assumes "backend E cf tabs keys sent" and "Body r = json_decode text" and "request_fits r"
    and "HandleSendMessage E r w = Some (http_JSON (JMessage m) 202, w')"
    and "time_parse (tjson E) (time_text (tjson E) (msg_CreatedAt m)) = Some (msg_CreatedAt m)"
    and "valid_utf8 (time_text (tjson E) (msg_CreatedAt m))"
  shows "\<exists>v. sent (w_redis w') = sent (w_redis w) @ [(''chat:room:'' @ ConversationID m, v)] \<and>
    Send (listenToRedis (tjson E) (json_unmarshal (render v)) s) =
      (if SenderID m = UserID s \<or> 256 \<le> length (Send s) then Send s else Send s @ [m])"
  using assms(4)
proof (cases rule: HandleSendMessage_cases)
  case refused
  then show ?thesis by (simp add: http_JSON_def)
next
  case (failed msg err m')
  then show ?thesis by (simp add: send_error_response_def http_JSON_def http_Error_def split: if_splits)
next
  case (accepted msg m')
  then have m: "m' = m" by (simp add: http_JSON_def)
  have "message_fits msg" using assms(3) accepted(1) by (simp add: request_fits_def)
  moreover have "ConversationID m = ConversationID msg" "SenderID m = SenderID msg" "Content m = Content msg"
    using accepted(2) unfolding m by (cases rule: SendMessage_cases; simp)+
  ultimately show ?thesis
    using accepted_delivers [OF assms(1) accepted(2) [unfolded m] _ assms(5)] request_valid [OF accepted(1) assms(2)] assms(6) by (simp add: message_valid_def)
qed

theorem accepted_reaches_listeners_witness:
  "\<exists>v. rr_sent (w_redis after_send) = rr_sent (w_redis sample_world) @ [(''chat:room:'' @ ConversationID sent_msg, v)] \<and>
    Send (listenToRedis (tjson sample_deps) (json_unmarshal (render v)) (new_session ''8'' [''9''])) = [sent_msg]"
proof -
  have body: "Body (sample_request ''7'') =
      json_decode (render (JObj [(''conversation_id'', JStr ''9''), (''sender_id'', JStr ''7''), (''content'', JStr ''hi'')]))"
    by (simp only: decode_sample_text sample_request_def request.simps)
  have fits: "request_fits (sample_request ''7'')"
    using sample_send_request [of "''7''"] sample_fits(1)
    by (simp add: request_fits_def) (simp add: sample_request_def decode_username_def decode_channel_def
      decode_user_id_def TrimPrefix_def eval_nat_numeral)
  have h: "HandleSendMessage sample_deps (sample_request ''7'') sample_world = Some (http_JSON (JMessage sent_msg) 202, after_send)"
    using sample_send by (simp add: HandleSendMessage_def sample_request_def decode_send_def sample_msg_def)
  have time: "time_parse (tjson sample_deps) (time_text (tjson sample_deps) (msg_CreatedAt sent_msg)) = Some (msg_CreatedAt sent_msg)"
    "valid_utf8 (time_text (tjson sample_deps) (msg_CreatedAt sent_msg))"
    by (simp_all add: sample_deps_def ref_deps_def nano_text_def sent_msg_def dec_valid)
  from accepted_reaches_listeners [OF sample_backend body fits h time, of "new_session ''8'' [''9'']"]
  show ?thesis by (simp add: new_session_def sent_msg_def sample_msg_def)
qed

text \<open>
  (C35) A member who was removed can no longer write: after a successful \<open>RemoveMember\<close>, a \<open>SendMessage\<close> of
  that user to that channel stores nothing and publishes nothing, and is refused.
\<close>

theorem removed_cannot_send:
  assumes "backend E cf tabs keys sent"
    and "ChannelService_RemoveMember E (ConversationID msg) (SenderID msg) w = (None, w1)"
    and "SendMessage E msg key w1 = Some (r, m, w2)" and "message_fits msg"
  shows "r \<noteq> None \<and> tabs (w_db w2) = tabs (w_db w1) \<and> sent (w_redis w2) = sent (w_redis w1)"
proof -
  obtain d where x: "ExecContext (sqldb E) (DELETE_channel_members (ConversationID msg) (SenderID msg)) (w_db w) = (None, d)"
    and w1: "w1 = w\<lparr>w_db := d\<rparr>"
    using assms(2) by (auto simp: ChannelService_RemoveMember_def RemoveMember_def split: prod.splits)
  have "sql_exec cf (DELETE_channel_members (ConversationID msg) (SenderID msg)) (tabs (w_db w)) = Some (tabs d)"
    by (rule mysql_server.exec_ok [OF backend.axioms(1) [OF assms(1)] x]) simp
  from has_member_delete [OF this] have "\<not> has_member cf (tabs (w_db w1)) (ConversationID msg) (SenderID msg)"
    by (simp add: w1)
  moreover have "ConversationID m = ConversationID msg" "SenderID m = SenderID msg"
    using assms(3) by (cases rule: SendMessage_cases; simp)+
  ultimately show ?thesis
    using spec_rejects [OF backend.SendMessage_spec [OF assms(1,3,4)]] by (auto simp: board_of_simps)
qed

lemma sample_removed:
  "ChannelService_RemoveMember sample_deps ''9'' ''8'' sample_world = (None, sample_world)"
  by (simp add: ChannelService_RemoveMember_def RemoveMember_def sample_defs member_matches_def same_def)

theorem removed_cannot_send_witness:
  "ref_tables (w_db after_reject) = ref_tables (w_db sample_world) \<and> rr_sent (w_redis after_reject) = rr_sent (w_redis sample_world)"
proof -
  have r: "ChannelService_RemoveMember sample_deps (ConversationID (sample_msg ''8'')) (SenderID (sample_msg ''8'')) sample_world
      = (None, sample_world)"
    using sample_removed by (simp add: sample_msg_def)
  from removed_cannot_send [OF sample_backend r sample_reject sample_fits(2)] show ?thesis by blast
qed

text \<open>
  An accepted message is found by delta sync: if the node's clock does not go back, a client whose last
  identifier for the channel is one the node drew before (or any smaller one) gets the message from its
  next sync, provided fewer than 100 messages were waiting for it.
\<close>

lemma accepted_is_synced:
  assumes "backend E cf tabs keys sent" and "SendMessage E msg key w = Some (None, m, w')" and "message_fits msg"
    and "generator_ok (w_gen w)" and "lastStamp (w_gen w) \<le> currentMillis (wall_clock E) (w_pos w)"
    and "clock_in_range (wall_clock E) (w_pos w) (w_pos w')" and "clock_monotone (wall_clock E) (w_pos w) (w_pos w')"
    and "l \<le> last_id (w_gen w)" and "length (messages_since cf (tabs (w_db w)) (ConversationID m) l) < 100"
  shows "m\<lparr>msg_CreatedAt := ts3 cf (msg_CreatedAt m)\<rparr> \<in> set (page cf (tabs (w_db w')) (ConversationID m) l)"
proof -
  have l: "l < msg_ID m"
    using assms(2)
  proof (cases rule: SendMessage_cases)
    case (delivered w1 d i w2 w3 now)
    have w1: "w_gen w1 = w_gen w" "w_pos w1 = w_pos w" using guard_keeps [OF delivered(1)] by simp_all
    obtain g k where n: "Next (wall_clock E) (w_gen w) (w_pos w) = Some (i, g, k)" and k: "w_pos w2 = k"
      using delivered(3) by (auto simp: next_id_def w1)
    have "w_pos w' = Suc k" using delivered(4,6) k
      by (auto simp: time_now_def deliver_def split: prod.splits option.splits)
    then have le: "k \<le> w_pos w'" by simp
    have "last_id (w_gen w) < i" by (rule Next_step(2) [OF n assms(4,6,7) le assms(5)])
    with assms(8) delivered(5) show ?thesis by simp
  qed simp_all
  let ?row = "\<lparr>r_id = msg_ID m, r_conversation_id = ConversationID m, r_sender_id = SenderID m,
      r_content = Content m, r_created_at = Some (ts3 cf (msg_CreatedAt m))\<rparr>"
  have t: "tabs (w_db w') = (tabs (w_db w))\<lparr>messages := messages (tabs (w_db w)) @ [?row]\<rparr>"
    using spec_accepted [OF backend.SendMessage_spec [OF assms(1-3)]] by (auto simp: board_of_simps dest!: insert_stmt_exec)
  have "length (messages_since cf (tabs (w_db w')) (ConversationID m) l) \<le> 100"
    using assms(9) l by (simp add: t messages_since_def)
  moreover have "?row \<in> set (messages_since cf (tabs (w_db w')) (ConversationID m) l)"
    using l by (simp add: t messages_since_def)
  ultimately have "message_of ?row \<in> set (page cf (tabs (w_db w')) (ConversationID m) l)" by (simp add: page_def)
  moreover have "message_of ?row = m\<lparr>msg_CreatedAt := ts3 cf (msg_CreatedAt m)\<rparr>"
    by (cases m) (simp add: message_of_def)
  ultimately show ?thesis by simp
qed

end
